(* ===== verification/Mcs_Prelude.thy ===== *)
theory Mcs_Prelude
  imports Complex_Main "HOL-Library.AList" "HOL-Library.Word"
begin

text \<open>
  Shared vocabulary of the development.

  The gateway is written in TypeScript. Three conventions of that language are used by
  every component and are fixed here once:

  \<^item> \<^bold>\<open>Numbers.\<close> Sizes, offsets and counters are JavaScript numbers holding integers
    below \<open>2 ^ 53\<close>, where arithmetic is exact; they are modelled by \<^typ>\<open>int\<close> (or \<^typ>\<open>nat\<close> where
    the code never goes below zero). A number that reaches the code from outside and may be
    fractional or NaN is a \<open>jsnum\<close>: \<^term>\<open>None\<close> is NaN, \<^term>\<open>Some r\<close> an exact value.
  \<^item> \<^bold>\<open>Nullable values.\<close> \<open>T | null\<close> and optional fields are \<^typ>\<open>'a option\<close>.
  \<^item> \<^bold>\<open>Maps.\<close> A JavaScript \<open>Map\<close> keeps insertion order; where the code iterates over it, it is
    an association list with \<^const>\<open>AList.update\<close> and \<^const>\<open>AList.delete\<close>, which replace in place
    and append at the end exactly as \<open>Map.set\<close> does.

  The collections declared below gather the equations the component proofs rewrite with.
\<close>

named_theorems js_simps
named_theorems layout_simps
named_theorems engine_simps
named_theorems fs_simps

type_synonym byte = "8 word"
type_synonym jsnum = "rat option"
type_synonym jsint = "int option"

subsection \<open>JavaScript arithmetic\<close>

definition js_floor :: "jsnum \<Rightarrow> jsint" where
  "js_floor x = map_option floor x"

definition js_or :: "jsint \<Rightarrow> int \<Rightarrow> int" where
  "js_or x d = (case x of None \<Rightarrow> d | Some n \<Rightarrow> if n = 0 then d else n)"

definition ceil_div :: "int \<Rightarrow> int \<Rightarrow> int" where
  "ceil_div a b = - ((- a) div b)"

lemma js_floor_simps [js_simps, simp]:
  "js_floor None = None" "js_floor (Some r) = Some \<lfloor>r\<rfloor>"
  by (simp_all add: js_floor_def)

lemma js_or_simps [js_simps, simp]:
  "js_or None d = d" "js_or (Some 0) d = d" "n \<noteq> 0 \<Longrightarrow> js_or (Some n) d = n"
  by (simp_all add: js_or_def)

lemma js_or_zero [simp]: "js_or (Some n) 0 = n"
  by (simp add: js_or_def)

lemma ceil_div_ceiling: "ceil_div a b = \<lceil>of_int a / (of_int b :: rat)\<rceil>"
proof -
  have "\<lfloor>of_int (- a) / (of_int b :: rat)\<rfloor> = (- a) div b"
    by (rule floor_divide_of_int_eq)
  moreover have "- (of_int a / (of_int b :: rat)) = of_int (- a) / of_int b"
    by simp
  ultimately show ?thesis
    unfolding ceiling_def ceil_div_def by presburger
qed

lemma ceil_div_ge:
  assumes "0 < b"
  shows "a \<le> ceil_div a b * b"
proof -
  have "(- a) div b * b \<le> - a"
    using assms by (metis div_mult_mod_eq le_add_same_cancel1 pos_mod_sign)
  then show ?thesis by (simp add: ceil_div_def)
qed

lemma ceil_div_lt:
  assumes "0 < b"
  shows "(ceil_div a b - 1) * b < a"
proof -
  have "- a < ((- a) div b + 1) * b"
    using assms by (metis div_mult_mod_eq distrib_right mult.left_neutral
        add_strict_left_mono pos_mod_bound)
  then show ?thesis by (simp add: ceil_div_def algebra_simps)
qed

lemma ceil_div_le_iff:
  assumes "0 < b"
  shows "ceil_div a b \<le> k \<longleftrightarrow> a \<le> k * b"
proof
  assume "ceil_div a b \<le> k"
  then have "ceil_div a b * b \<le> k * b" using assms by simp
  with ceil_div_ge [OF assms, of a] show "a \<le> k * b" by linarith
next
  assume "a \<le> k * b"
  with ceil_div_lt [OF assms, of a] have "(ceil_div a b - 1) * b < k * b" by linarith
  then have "ceil_div a b - 1 < k" using assms by (simp add: mult_less_cancel_right)
  then show "ceil_div a b \<le> k" by simp
qed

lemma ceil_div_pos: "0 < b \<Longrightarrow> 0 < a \<Longrightarrow> 0 < ceil_div a b"
  using ceil_div_le_iff [of b a 0] by (simp add: not_le [symmetric])

lemma ceil_div_nonneg: "0 < b \<Longrightarrow> 0 \<le> a \<Longrightarrow> 0 \<le> ceil_div a b"
  using ceil_div_le_iff [of b a "- 1"] by linarith

lemma ceil_div_zero [simp]: "ceil_div 0 b = 0"
  by (simp add: ceil_div_def)

subsection \<open>Lists\<close>

lemma map_update_same [simp]: "(map f xs)[k := f (xs ! k)] = map f xs"
  by (metis list_update_id map_update)

lemma find_Some_in: "List.find P xs = Some x \<Longrightarrow> x \<in> set xs \<and> P x"
  by (auto simp: find_Some_iff)

lemma sum_list_map_cong_set:
  "(\<And>x. x \<in> set xs \<Longrightarrow> f x = g x) \<Longrightarrow> sum_list (map f xs) = sum_list (map g xs)"
  by (metis map_cong)

lemma sort_key_id_if_sorted: "sorted (map f xs) \<Longrightarrow> sort_key f xs = xs"
  by (induction xs) (auto intro!: insort_is_Cons)

subsection \<open>Maps built from pairs, and slices of byte strings\<close>

text \<open>\<open>new Map(pairs)\<close>: a later pair with the same key wins.\<close>

definition js_map_of :: "('k \<times> 'v) list \<Rightarrow> ('k \<rightharpoonup> 'v)" where
  "js_map_of ps = map_of (rev ps)"

lemma js_map_of_distinct: "distinct (map fst ps) \<Longrightarrow> js_map_of ps = map_of ps"
  unfolding js_map_of_def by (rule map_of_inject_set [THEN iffD2]) (simp_all add: rev_map [symmetric])

text \<open>\<open>[...new Set(xs)]\<close>: each value once, where it first occurs.\<close>

definition uniques :: "'a list \<Rightarrow> 'a list" where
  "uniques xs = rev (remdups (rev xs))"

lemma set_uniques [simp]: "set (uniques xs) = set xs" and distinct_uniques [simp]: "distinct (uniques xs)"
  by (simp_all add: uniques_def)

text \<open>Bytes \<open>start\<close> to \<open>end\<close> inclusive, cut short by the end of the content.\<close>

definition slice :: "int \<Rightarrow> int \<Rightarrow> 'b list \<Rightarrow> 'b list" where
  "slice s e bs = take (nat (e - s + 1)) (drop (nat s) bs)"

lemma nth_slice:
  "0 \<le> s \<Longrightarrow> s \<le> b \<Longrightarrow> b \<le> e \<Longrightarrow> b < int (length bs) \<Longrightarrow> slice s e bs ! nat (b - s) = bs ! nat b"
  by (simp add: slice_def nat_diff_distrib)

lemma slices_agree_nth:
  assumes "slice s e xs = slice s e ys" "0 \<le> s" "s \<le> b" "b \<le> e"
    and "b < int (length xs)" "b < int (length ys)"
  shows "xs ! nat b = ys ! nat b"
  using assms nth_slice [of s b e xs] nth_slice [of s b e ys] by simp

subsection \<open>Removing one position of a list\<close>

definition removeAt :: "nat \<Rightarrow> 'a list \<Rightarrow> 'a list" where
  "removeAt k xs = take k xs @ drop (Suc k) xs"

lemma map_removeAt: "map f (removeAt k xs) = removeAt k (map f xs)"
  by (simp add: removeAt_def take_map drop_map)

lemma removeAt_split: "k < length xs \<Longrightarrow> xs = take k xs @ xs ! k # drop (Suc k) xs"
  by (simp add: id_take_nth_drop)

lemma set_removeAt_distinct:
  assumes "distinct xs" "k < length xs"
  shows "set (removeAt k xs) = set xs - {xs ! k}"
proof -
  have "set xs = insert (xs ! k) (set (removeAt k xs))"
    by (subst removeAt_split [OF assms(2)]) (auto simp: removeAt_def)
  moreover have "xs ! k \<notin> set (removeAt k xs)"
    using assms(1) by (subst (asm) removeAt_split [OF assms(2)]) (simp add: removeAt_def)
  ultimately show ?thesis by auto
qed

lemma set_removeAt_subset: "set (removeAt k xs) \<subseteq> set xs"
  by (auto simp: removeAt_def dest: in_set_takeD in_set_dropD)

lemma distinct_removeAt: "distinct xs \<Longrightarrow> distinct (removeAt k xs)"
  by (simp add: removeAt_def set_take_disj_set_drop_if_distinct)

lemma count_removeAt:
  assumes "k < length xs"
  shows "count_list (removeAt k xs) x = count_list xs x - (if xs ! k = x then 1 else 0)"
proof -
  have "count_list xs x = count_list (take k xs @ xs ! k # drop (Suc k) xs) x"
    using removeAt_split [OF assms] by simp
  then show ?thesis by (simp add: removeAt_def)
qed

lemma count_list_pos: "k < length xs \<Longrightarrow> 0 < count_list xs (xs ! k)"
  by (metis count_list_0_iff neq0_conv nth_mem)

subsection \<open>Strings\<close>

text \<open>\<open>split\<close> on one character, \<open>join\<close> and \<open>trim\<close>, as JavaScript has them on ASCII text.\<close>

fun splitOn :: "char \<Rightarrow> string \<Rightarrow> string list" where
  "splitOn sep [] = [[]]"
| "splitOn sep (c # cs) =
     (if c = sep then [] # splitOn sep cs
      else case splitOn sep cs of [] \<Rightarrow> [[c]] | w # ws \<Rightarrow> (c # w) # ws)"

definition joinWith :: "string \<Rightarrow> string list \<Rightarrow> string" where
  "joinWith sep ws = (case ws of [] \<Rightarrow> [] | w # rest \<Rightarrow> w @ concat (map (\<lambda>v. sep @ v) rest))"

definition isSpace :: "char \<Rightarrow> bool" where
  "isSpace c \<longleftrightarrow> c \<in> {CHR 0x09, CHR 0x0A, CHR 0x0B, CHR 0x0C, CHR 0x0D, CHR '' '', CHR 0xA0}"

definition js_trim :: "string \<Rightarrow> string" where
  "js_trim s = rev (dropWhile isSpace (rev (dropWhile isSpace s)))"

lemma js_trim_idem: "js_trim (js_trim s) = js_trim s"
proof -
  let ?d = "dropWhile isSpace s" and ?t = "js_trim s"
  have fwd: "dropWhile isSpace (rev ?t) = rev ?t" by (simp add: js_trim_def)
  obtain post where "rev ?d = post @ rev ?t"
    using takeWhile_dropWhile_id [of isSpace "rev ?d"] by (metis js_trim_def rev_rev_ident)
  then have d: "?d = ?t @ rev post" by (metis rev_append rev_rev_ident)
  have "dropWhile isSpace ?t = ?t"
  proof (cases ?t)
    case (Cons c cs)
    then have "hd ?d = c" "?d \<noteq> []" using d by auto
    then have "\<not> isSpace c" using hd_dropWhile [of isSpace s] by auto
    then show ?thesis using Cons by simp
  qed simp
  then show ?thesis using fwd by (simp add: js_trim_def [of ?t])
qed

lemma splitOn_not_Nil [simp]: "splitOn sep s \<noteq> []"
  by (induction s) (auto split: list.split)

lemma joinWith_Cons [js_simps]:
  "joinWith sep [] = []" "joinWith sep [w] = w"
  "joinWith sep (w # v # ws) = w @ sep @ joinWith sep (v # ws)"
  by (simp_all add: joinWith_def)

lemma joinWith_splitOn: "joinWith [sep] (splitOn sep s) = s"
proof (induction s)
  case (Cons c cs)
  obtain w ws where "splitOn sep cs = w # ws" by (cases "splitOn sep cs") auto
  with Cons show ?case by (cases ws) (auto simp: js_simps)
qed (simp add: js_simps)

lemma splitOn_fresh: "sep \<notin> set s \<Longrightarrow> splitOn sep s = [s]"
  by (induction s) auto

lemma splitOn_append: "sep \<notin> set w \<Longrightarrow> splitOn sep (w @ sep # s) = w # splitOn sep s"
  by (induction w) auto

lemma splitOn_append_sep: "splitOn sep (a @ sep # b) = splitOn sep a @ splitOn sep b"
proof (induction a)
  case (Cons c cs)
  obtain u us where "splitOn sep cs = u # us" by (cases "splitOn sep cs") auto
  with Cons show ?case by auto
qed simp

lemma splitOn_joinWith: "ws \<noteq> [] \<Longrightarrow> list_all (\<lambda>w. sep \<notin> set w) ws \<Longrightarrow> splitOn sep (joinWith [sep] ws) = ws"
proof (induction ws)
  case (Cons w ws)
  then show ?case by (cases ws) (auto simp: js_simps splitOn_fresh splitOn_append)
qed simp

subsection \<open>Runs of a step function\<close>

text \<open>
  A component whose calls interleave is a partial step function on events; a run is a list of
  events that all apply. The laws of a run are proved once for every such component.
\<close>

locale event_run =
  fixes step :: "'e \<Rightarrow> 's \<Rightarrow> 's option" and run :: "'e list \<Rightarrow> 's \<Rightarrow> 's option"
  assumes run_Nil: "run [] s = Some s"
    and run_Cons: "run (e # es) s = (case step e s of None \<Rightarrow> None | Some s' \<Rightarrow> run es s')"
begin

lemma run_append: "run (es @ fs) s = (case run es s of None \<Rightarrow> None | Some s' \<Rightarrow> run fs s')"
  by (induction es arbitrary: s) (auto simp: run_Nil run_Cons split: option.split)

lemma run_invariant:
  assumes "\<And>e s s'. e \<in> set es \<Longrightarrow> P s \<Longrightarrow> step e s = Some s' \<Longrightarrow> P s'"
    and "run es s = Some s'" and "P s"
  shows "P s'"
  using assms by (induction es arbitrary: s) (auto simp: run_Nil run_Cons split: option.splits)

lemma run_frame:
  assumes "\<And>e s s'. e \<in> set es \<Longrightarrow> step e s = Some s' \<Longrightarrow> f s' = f s" and "run es s = Some s'"
  shows "f s' = f s"
  by (rule run_invariant [of es "\<lambda>x. f x = f s", OF _ assms(2)]) (auto dest: assms(1))

end

end
