(* ===== verification/Chunk_Planner.thy ===== *)
theory Chunk_Planner
  imports Mcs_Prelude
begin

text \<open>
  The chunk planner (\<open>packages/api/src/services/chunk-planner.ts\<close>) and the chunk rows it
  is stored in (\<open>packages/api/src/repositories/transfer-chunk.repository.ts\<close>).

  A transfer is cut into byte ranges. \<open>planChunks\<close> lays them out, \<open>resumePlan\<close> continues a
  stored layout. The layout loop of the source is \<open>layChunks\<close>, a \<open>partial_function\<close>: a step
  size of zero would make it run for ever, and the theorems show that the size the planner
  resolves is never one of those. What the rest of the engine relies on is stated once, as
  the locale \<open>chunk_layout\<close>: the ranges tile the file, so every byte belongs to exactly one
  chunk. The planner's fresh plans and its resumed plans are interpretations of it.
\<close>

subsection \<open>Data\<close>

datatype ChunkState = ChunkPending | ChunkActive | ChunkDone | ChunkFailed | ChunkCorrupt

record PlannedChunk =
  pindex :: int
  pstart :: int
  pend :: int
  psize :: int
  pstate :: ChunkState
  pbytesDone :: int
  psourceServiceId :: "string option"
  pattempts :: int
  pchecksum :: "string option"

record ExistingChunk =
  xindex :: int
  xstart :: int
  xend :: int
  xstate :: ChunkState
  xbytesDone :: "int option"
  xsourceServiceId :: "string option"
  xattempts :: "int option"
  xchecksum :: "string option"

record ChunkPlan =
  chunkSize :: int
  chunksTotal :: int
  chunks :: "PlannedChunk list"
  bytesTotal :: int
  bytesDone :: int
  resumed :: bool

definition MAX_CHUNKS :: int where "MAX_CHUNKS = 4096"

definition MIN_CHUNK_SIZE :: int where "MIN_CHUNK_SIZE = 256 * 1024"

subsection \<open>Operations\<close>

definition resolveChunkSize :: "int \<Rightarrow> jsnum \<Rightarrow> int" where
  "resolveChunkSize totalBytes configured =
     (let requested = max MIN_CHUNK_SIZE (js_or (js_floor configured) MIN_CHUNK_SIZE) in
      if totalBytes \<le> requested then requested
      else if ceil_div totalBytes requested \<le> MAX_CHUNKS then requested
      else let needed = ceil_div totalBytes MAX_CHUNKS in
           ceil_div needed (1024 * 1024) * 1024 * 1024)"

text \<open>One turn of the layout loop pushes the range that begins at \<open>start\<close>.\<close>

definition freshChunk :: "int \<Rightarrow> int \<Rightarrow> int \<Rightarrow> int \<Rightarrow> PlannedChunk" where
  "freshChunk index start step fileSize =
     (let end = min (start + step) fileSize - 1 in
      \<lparr>pindex = index, pstart = start, pend = end, psize = end - start + 1,
       pstate = ChunkPending, pbytesDone = 0, psourceServiceId = None,
       pattempts = 0, pchecksum = None\<rparr>)"

partial_function (option) layChunks ::
  "int \<Rightarrow> int \<Rightarrow> int \<Rightarrow> PlannedChunk list \<Rightarrow> PlannedChunk list option" where
  "layChunks start step fileSize acc =
     (if start < fileSize
      then layChunks (start + step) step fileSize
             (acc @ [freshChunk (int (length acc)) start step fileSize])
      else Some acc)"

definition resumeChunk :: "ExistingChunk \<Rightarrow> PlannedChunk" where
  "resumeChunk c =
     (let len = xend c - xstart c + 1; done = (xstate c = ChunkDone) in
      \<lparr>pindex = xindex c, pstart = xstart c, pend = xend c, psize = len,
       pstate = (if done then ChunkDone else ChunkPending),
       pbytesDone = (if done then len else 0),
       psourceServiceId = xsourceServiceId c,
       pattempts = (case xattempts c of None \<Rightarrow> 0 | Some n \<Rightarrow> n),
       pchecksum = xchecksum c\<rparr>)"

definition resumePlan :: "int \<Rightarrow> ExistingChunk list \<Rightarrow> ChunkPlan" where
  "resumePlan totalBytes existing =
     (let cs = map resumeChunk (sort_key xindex existing) in
      \<lparr>chunkSize = (case cs of [] \<Rightarrow> 0 | c # _ \<Rightarrow> psize c),
       chunksTotal = int (length cs), chunks = cs, bytesTotal = totalBytes,
       bytesDone = sum_list (map pbytesDone cs), resumed = True\<rparr>)"

definition wholeBytes :: "jsnum \<Rightarrow> int" where
  "wholeBytes totalBytes = max 0 (js_or (js_floor totalBytes) 0)"

definition planChunks :: "jsnum \<Rightarrow> jsnum \<Rightarrow> ExistingChunk list \<Rightarrow> ChunkPlan option" where
  "planChunks totalBytes configuredChunkSize existing =
     (let fileSize = wholeBytes totalBytes in
      if existing \<noteq> [] then Some (resumePlan fileSize existing)
      else let step = resolveChunkSize fileSize configuredChunkSize in
        map_option (\<lambda>cs. \<lparr>chunkSize = step, chunksTotal = int (length cs), chunks = cs,
                          bytesTotal = fileSize, bytesDone = 0, resumed = False\<rparr>)
          (layChunks 0 step fileSize []))"

definition pendingChunks :: "ChunkPlan \<Rightarrow> PlannedChunk list" where
  "pendingChunks plan = filter (\<lambda>c. pstate c \<noteq> ChunkDone) (chunks plan)"

definition planMatchesSize :: "ChunkPlan \<Rightarrow> int \<Rightarrow> bool" where
  "planMatchesSize plan totalBytes =
     (case chunks plan of [] \<Rightarrow> totalBytes = 0
      | _ \<Rightarrow> pend (last (chunks plan)) + 1 = totalBytes)"

text \<open>
  The rows of \<open>TransferChunkRepository\<close>: \<open>insertPlan\<close> writes a fresh row per chunk and
  \<open>findByTransfer\<close> reads them back ordered by index. The batching of the insert (five
  hundred rows per statement) does not change which rows are written.
\<close>

definition insertPlanRow :: "PlannedChunk \<Rightarrow> ExistingChunk" where
  "insertPlanRow c =
     \<lparr>xindex = pindex c, xstart = pstart c, xend = pend c, xstate = ChunkPending,
      xbytesDone = Some 0, xsourceServiceId = None, xattempts = Some 0,
      xchecksum = pchecksum c\<rparr>"

definition findByTransfer :: "ExistingChunk list \<Rightarrow> ExistingChunk list" where
  "findByTransfer rows = sort_key xindex rows"

text \<open>\<open>updateState\<close> rewrites the four columns that change together, on the row of one index.\<close>

definition updateState :: "PlannedChunk \<Rightarrow> ExistingChunk list \<Rightarrow> ExistingChunk list" where
  "updateState c rows =
     map (\<lambda>r. if xindex r = pindex c
              then r\<lparr>xstate := pstate c, xbytesDone := Some (pbytesDone c),
                     xsourceServiceId := psourceServiceId c, xattempts := Some (pattempts c)\<rparr>
              else r) rows"

subsection \<open>The layout contract\<close>

text \<open>
  The ranges of a plan, in order, start at \<open>0\<close>, each one begins where the one before it
  ended, and the last one ends at the last byte.
\<close>

fun tiles_from :: "int \<Rightarrow> (int \<times> int) list \<Rightarrow> int \<Rightarrow> bool" where
  "tiles_from a [] n = (a = n)"
| "tiles_from a ((s, e) # rs) n = (s = a \<and> a \<le> e \<and> tiles_from (e + 1) rs n)"

definition ranges :: "PlannedChunk list \<Rightarrow> (int \<times> int) list" where
  "ranges cs = map (\<lambda>c. (pstart c, pend c)) cs"

definition in_range :: "int \<Rightarrow> int \<times> int \<Rightarrow> bool" where
  "in_range b r = (fst r \<le> b \<and> b \<le> snd r)"

locale chunk_layout =
  fixes rs :: "(int \<times> int) list" and total :: int
  assumes tiled: "tiles_from 0 rs total"
begin

lemma tiles_le: "tiles_from a xs n \<Longrightarrow> a \<le> n"
  by (induction xs arbitrary: a) force+

lemma tiles_bounds: "tiles_from a xs n \<Longrightarrow> r \<in> set xs \<Longrightarrow> a \<le> fst r \<and> fst r \<le> snd r \<and> snd r < n"
proof (induction xs arbitrary: a)
  case (Cons x xs)
  show ?case
  proof (cases "r = x")
    case True
    with Cons.prems tiles_le [of "snd x + 1" xs n] show ?thesis by (cases x) auto
  next
    case False
    with Cons.prems Cons.IH [of "snd x + 1"] show ?thesis by (cases x) force
  qed
qed simp

lemma tiles_cover: "tiles_from a xs n \<Longrightarrow> a \<le> b \<Longrightarrow> b < n \<Longrightarrow> \<exists>i < length xs. in_range b (xs ! i)"
proof (induction xs arbitrary: a)
  case (Cons x xs)
  show ?case
  proof (cases "b \<le> snd x")
    case True
    with Cons.prems have "in_range b x" by (cases x) (auto simp: in_range_def)
    then show ?thesis by (intro exI [of _ 0]) simp
  next
    case False
    with Cons.prems have "tiles_from (snd x + 1) xs n" by (cases x) auto
    with False Cons.prems(3) Cons.IH [of "snd x + 1"]
    obtain i where "i < length xs" "in_range b (xs ! i)" by force
    then show ?thesis by (intro exI [of _ "Suc i"]) simp
  qed
qed simp

lemma tiles_disjoint:
  "tiles_from a xs n \<Longrightarrow> i < j \<Longrightarrow> j < length xs \<Longrightarrow> snd (xs ! i) < fst (xs ! j)"
proof (induction xs arbitrary: a i j)
  case (Cons x xs)
  then obtain j' where j: "j = Suc j'" "j' < length xs" by (cases j) auto
  from Cons.prems have rest: "tiles_from (snd x + 1) xs n" by (cases x) auto
  show ?case
  proof (cases i)
    case 0
    from tiles_bounds [OF rest, of "xs ! j'"] j 0 show ?thesis by simp
  next
    case (Suc i')
    with Cons.IH [OF rest, of i' j'] Cons.prems j show ?thesis by simp
  qed
qed simp

lemma tiles_sum: "tiles_from a xs n \<Longrightarrow> sum_list (map (\<lambda>r. snd r - fst r + 1) xs) = n - a"
  by (induction xs arbitrary: a) force+

lemma byte_in_exactly_one:
  assumes "0 \<le> b" "b < total"
  shows "\<exists>!i. i < length rs \<and> in_range b (rs ! i)"
proof -
  from tiles_cover [OF tiled assms] obtain i where i: "i < length rs" "in_range b (rs ! i)" by blast
  have "j = i" if j: "j < length rs" "in_range b (rs ! j)" for j
  proof (rule ccontr)
    assume "j \<noteq> i"
    then consider "i < j" | "j < i" by linarith
    then show False
      using tiles_disjoint [OF tiled] i j by cases (fastforce simp: in_range_def)+
  qed
  with i show ?thesis by blast
qed

lemma outside_none: "b < 0 \<or> total \<le> b \<Longrightarrow> i < length rs \<Longrightarrow> \<not> in_range b (rs ! i)"
  using tiles_bounds [OF tiled nth_mem] by (force simp: in_range_def)

lemma lengths_sum: "sum_list (map (\<lambda>r. snd r - fst r + 1) rs) = total"
  using tiles_sum [OF tiled] by simp

lemma range_bounds: "r \<in> set rs \<Longrightarrow> 0 \<le> fst r \<and> fst r \<le> snd r \<and> snd r < total"
  using tiles_bounds [OF tiled] .

lemma last_end: "rs \<noteq> [] \<Longrightarrow> snd (last rs) + 1 = total"
proof -
  have "tiles_from a xs n \<Longrightarrow> xs \<noteq> [] \<Longrightarrow> snd (last xs) + 1 = n" for a xs n
  proof (induction xs arbitrary: a)
    case (Cons x xs)
    then show ?case by (cases x; cases "xs = []") auto
  qed simp
  with tiled show "rs \<noteq> [] \<Longrightarrow> snd (last rs) + 1 = total" by blast
qed

end

subsection \<open>The layout loop\<close>

lemma resolveChunkSize_ge_MIN: "MIN_CHUNK_SIZE \<le> resolveChunkSize n cfg"
proof -
  have "MIN_CHUNK_SIZE \<le> ceil_div (ceil_div n MAX_CHUNKS) (1024 * 1024) * 1024 * 1024"
    if "MIN_CHUNK_SIZE < n"
  proof -
    have "0 < ceil_div n MAX_CHUNKS"
      using that by (intro ceil_div_pos) (simp_all add: MAX_CHUNKS_def MIN_CHUNK_SIZE_def)
    then have "0 < ceil_div (ceil_div n MAX_CHUNKS) (1024 * 1024)"
      by (rule ceil_div_pos [rotated]) simp
    then show ?thesis by (simp add: MIN_CHUNK_SIZE_def)
  qed
  then show ?thesis by (auto simp: resolveChunkSize_def Let_def)
qed

lemma resolveChunkSize_pos [simp]: "0 < resolveChunkSize n cfg"
  using resolveChunkSize_ge_MIN [of n cfg] by (simp add: MIN_CHUNK_SIZE_def)

lemma resolveChunkSize_fits: "n \<le> MAX_CHUNKS * resolveChunkSize n cfg"
proof -
  let ?r = "max MIN_CHUNK_SIZE (js_or (js_floor cfg) MIN_CHUNK_SIZE)"
  have r: "0 < ?r" by (simp add: MIN_CHUNK_SIZE_def)
  have one: "?r \<le> MAX_CHUNKS * ?r" using r unfolding MAX_CHUNKS_def by linarith
  have two: "n \<le> MAX_CHUNKS * ?r" if "ceil_div n ?r \<le> MAX_CHUNKS"
    using that ceil_div_le_iff [OF r] by simp
  let ?k = "ceil_div n MAX_CHUNKS"
  have "n \<le> ?k * MAX_CHUNKS" by (rule ceil_div_ge) (simp add: MAX_CHUNKS_def)
  moreover have "?k \<le> ceil_div ?k (1024 * 1024) * (1024 * 1024)" by (rule ceil_div_ge) simp
  ultimately have three: "n \<le> MAX_CHUNKS * (ceil_div ?k (1024 * 1024) * 1024 * 1024)"
    by (simp add: MAX_CHUNKS_def)
  show ?thesis using one two three by (auto simp: resolveChunkSize_def Let_def)
qed

text \<open>The layout in closed form: the reference the loop is compared with.\<close>

definition chunkAt :: "int \<Rightarrow> int \<Rightarrow> nat \<Rightarrow> PlannedChunk" where
  "chunkAt step fileSize i = freshChunk (int i) (int i * step) step fileSize"

definition chunkCount :: "int \<Rightarrow> int \<Rightarrow> nat" where
  "chunkCount step fileSize = nat (ceil_div fileSize step)"

lemma chunkCount_le_iff: "0 < step \<Longrightarrow> chunkCount step n \<le> k \<longleftrightarrow> n \<le> int k * step"
  using ceil_div_le_iff [of step n "int k"] by (simp add: chunkCount_def nat_le_iff)

lemma chunkAt_sel [layout_simps]:
  "pindex (chunkAt step n i) = int i" "pstart (chunkAt step n i) = int i * step"
  "pend (chunkAt step n i) = min (int i * step + step) n - 1"
  "psize (chunkAt step n i) = min (int i * step + step) n - int i * step"
  "pstate (chunkAt step n i) = ChunkPending" "pbytesDone (chunkAt step n i) = 0"
  "pchecksum (chunkAt step n i) = None"
  by (simp_all add: chunkAt_def freshChunk_def Let_def)

lemma layChunks_from:
  assumes "0 < step" "k \<le> chunkCount step n"
  shows "layChunks (int k * step) step n (map (chunkAt step n) [0..<k])
         = Some (map (chunkAt step n) [0..<chunkCount step n])"
  using assms(2)
proof (induction "chunkCount step n - k" arbitrary: k)
  case 0
  with assms(1) have "\<not> int k * step < n" using chunkCount_le_iff [of step n k] by simp
  with 0 show ?case by (simp add: layChunks.simps)
next
  case (Suc d)
  then have lt: "k < chunkCount step n" by simp
  with assms(1) have "int k * step < n" using chunkCount_le_iff [of step n k] by linarith
  then have "layChunks (int k * step) step n (map (chunkAt step n) [0..<k])
      = layChunks (int (Suc k) * step) step n (map (chunkAt step n) [0..<Suc k])"
    by (subst layChunks.simps) (simp add: chunkAt_def algebra_simps)
  also have "\<dots> = Some (map (chunkAt step n) [0..<chunkCount step n])"
    using Suc lt by (intro Suc.hyps) simp_all
  finally show ?case .
qed

lemma layChunks_eq:
  "0 < step \<Longrightarrow> layChunks 0 step n [] = Some (map (chunkAt step n) [0..<chunkCount step n])"
  using layChunks_from [of step 0 n] by simp

lemma planChunks_fresh:
  "planChunks t cfg [] =
     (let n = wholeBytes t; step = resolveChunkSize n cfg;
          cs = map (chunkAt step n) [0..<chunkCount step n] in
      Some \<lparr>chunkSize = step, chunksTotal = int (length cs), chunks = cs,
            bytesTotal = n, bytesDone = 0, resumed = False\<rparr>)"
  by (simp add: planChunks_def Let_def layChunks_eq)

lemma tiles_chunkAt:
  assumes "0 < step" "k \<le> chunkCount step n"
  shows "tiles_from (min (int k * step) n)
           (ranges (map (chunkAt step n) [k..<chunkCount step n])) n"
  using assms(2)
proof (induction "chunkCount step n - k" arbitrary: k)
  case 0
  with assms(1) have "n \<le> int k * step" using chunkCount_le_iff [of step n k] by simp
  with 0 show ?case by (simp add: ranges_def)
next
  case (Suc d)
  then have lt: "k < chunkCount step n" by simp
  with assms(1) have below: "int k * step < n" using chunkCount_le_iff [of step n k] by linarith
  have "tiles_from (min (int (Suc k) * step) n)
          (ranges (map (chunkAt step n) [Suc k..<chunkCount step n])) n"
    using Suc lt by (intro Suc.hyps) simp_all
  with lt below assms(1) show ?case
    by (simp add: upt_conv_Cons ranges_def layout_simps algebra_simps)
qed

definition plannedRanges :: "jsnum \<Rightarrow> jsnum \<Rightarrow> (int \<times> int) list" where
  "plannedRanges t cfg =
     (case planChunks t cfg [] of None \<Rightarrow> [] | Some plan \<Rightarrow> ranges (chunks plan))"

lemma wholeBytes_nonneg [simp]: "0 \<le> wholeBytes t"
  by (simp add: wholeBytes_def)

interpretation fresh: chunk_layout "plannedRanges t cfg" "wholeBytes t" for t cfg
proof
  let ?n = "wholeBytes t"
  have "tiles_from (min (int 0 * resolveChunkSize ?n cfg) ?n)
      (ranges (map (chunkAt (resolveChunkSize ?n cfg) ?n)
        [0..<chunkCount (resolveChunkSize ?n cfg) ?n])) ?n"
    by (rule tiles_chunkAt) simp_all
  then show "tiles_from 0 (plannedRanges t cfg) ?n"
    by (simp add: plannedRanges_def planChunks_fresh Let_def)
qed

subsection \<open>Properties of fresh plans\<close>

text \<open>
  (C18) Laying out a fresh plan always returns, for any size and any configured chunk size,
  NaN and negative numbers included. The ranges tile the file from byte 0 to its last byte,
  the indices count up from 0, every chunk is non-empty and no longer than the plan's chunk
  size, starts out pending, and there are never more than \<open>MAX_CHUNKS\<close> of them.
\<close>

theorem planChunks_tiles:
  "\<exists>plan. planChunks t cfg [] = Some plan \<and> bytesTotal plan = wholeBytes t
     \<and> tiles_from 0 (ranges (chunks plan)) (wholeBytes t)
     \<and> map pindex (chunks plan) = map int [0..<length (chunks plan)]
     \<and> chunksTotal plan = int (length (chunks plan)) \<and> chunksTotal plan \<le> MAX_CHUNKS
     \<and> list_all (\<lambda>c. 0 < psize c \<and> psize c \<le> chunkSize plan \<and> psize c = pend c - pstart c + 1
                     \<and> pstate c = ChunkPending) (chunks plan)"
proof -
  let ?n = "wholeBytes t"
  let ?s = "resolveChunkSize ?n cfg"
  let ?k = "chunkCount ?s ?n"
  have count: "int ?k \<le> MAX_CHUNKS"
    using resolveChunkSize_fits [of ?n cfg] chunkCount_le_iff [of ?s ?n "nat MAX_CHUNKS"]
    by (simp add: MAX_CHUNKS_def)
  have below: "int i * ?s < ?n" if "i < ?k" for i
    using that chunkCount_le_iff [of ?s ?n i] by simp
  have tiled: "tiles_from 0 (ranges (map (chunkAt ?s ?n) [0..<?k])) ?n"
    using tiles_chunkAt [of ?s 0 ?n] by simp
  show ?thesis
    unfolding planChunks_fresh Let_def
    by (rule exI, intro conjI)
      (auto simp: layout_simps list_all_iff tiled count dest!: below)
qed

text \<open>
  In a fresh plan every byte of the file is fetched by exactly one chunk, and no chunk
  asks for a byte outside the file.
\<close>

lemma planned_byte_in_one_chunk:
  "(0 \<le> b \<and> b < wholeBytes t) =
     (\<exists>!i. i < length (plannedRanges t cfg) \<and> in_range b (plannedRanges t cfg ! i))"
proof (cases "0 \<le> b \<and> b < wholeBytes t")
  case True
  with fresh.byte_in_exactly_one show ?thesis by blast
next
  case False
  with fresh.outside_none [of b t] show ?thesis by force
qed

subsection \<open>Continuing a stored plan\<close>

lemma resumePlan_sel [layout_simps]:
  "chunks (resumePlan n rows) = map resumeChunk (sort_key xindex rows)"
  "bytesTotal (resumePlan n rows) = n"
  "bytesDone (resumePlan n rows)
     = sum_list (map pbytesDone (map resumeChunk (sort_key xindex rows)))"
  by (simp_all add: resumePlan_def Let_def)

text \<open>
  What a crash leaves behind: the rows of a fresh plan, rewritten any number of times by
  \<open>updateState\<close>. Rewriting never touches the geometry columns.
\<close>

definition rowsAfter :: "PlannedChunk list \<Rightarrow> PlannedChunk list \<Rightarrow> ExistingChunk list" where
  "rowsAfter cs updates = fold updateState updates (map insertPlanRow cs)"

definition geometry :: "ExistingChunk \<Rightarrow> int \<times> int \<times> int \<times> string option" where
  "geometry r = (xindex r, xstart r, xend r, xchecksum r)"

lemma updateState_geometry: "map geometry (updateState c rows) = map geometry rows"
  by (simp add: updateState_def geometry_def)

lemma fold_updateState_geometry:
  "map geometry (fold updateState us rows) = map geometry rows"
  by (induction us arbitrary: rows) (simp_all add: updateState_geometry)

lemma rowsAfter_geometry:
  "map geometry (rowsAfter cs us) = map (\<lambda>c. (pindex c, pstart c, pend c, pchecksum c)) cs"
  by (simp add: rowsAfter_def fold_updateState_geometry)
    (simp add: geometry_def insertPlanRow_def)

lemma resumeChunk_geometry [layout_simps]:
  "pindex (resumeChunk r) = xindex r" "pstart (resumeChunk r) = xstart r"
  "pend (resumeChunk r) = xend r" "pchecksum (resumeChunk r) = xchecksum r"
  "psize (resumeChunk r) = xend r - xstart r + 1"
  by (simp_all add: resumeChunk_def Let_def)

lemma map_via_geometry:
  assumes "map geometry rows = map (\<lambda>c. (pindex c, pstart c, pend c, pchecksum c)) cs"
  shows "map xindex rows = map pindex cs"
    and "map (\<lambda>r. (xstart r, xend r)) rows = ranges cs"
    and "map xchecksum rows = map pchecksum cs"
proof -
  have "map fst (map geometry rows) = map fst (map (\<lambda>c. (pindex c, pstart c, pend c, pchecksum c)) cs)"
    using assms by simp
  then show "map xindex rows = map pindex cs" by (simp add: geometry_def comp_def)
  have "map (\<lambda>(i, s, e, k). (s, e)) (map geometry rows)
      = map (\<lambda>(i, s, e, k). (s, e)) (map (\<lambda>c. (pindex c, pstart c, pend c, pchecksum c)) cs)"
    using assms by (simp only:)
  then show "map (\<lambda>r. (xstart r, xend r)) rows = ranges cs"
    by (simp add: geometry_def comp_def ranges_def)
  have "map (\<lambda>(i, s, e, k). k) (map geometry rows)
      = map (\<lambda>(i, s, e, k). k) (map (\<lambda>c. (pindex c, pstart c, pend c, pchecksum c)) cs)"
    using assms by (simp only:)
  then show "map xchecksum rows = map pchecksum cs"
    by (simp add: geometry_def comp_def)
qed

lemma fresh_indices_sorted: "sorted (map pindex (map (chunkAt step n) [0..<k]))"
  by (simp add: layout_simps comp_def sorted_iff_nth_mono)

text \<open>Bytes a resumed plan counts as held, and the ranges they lie in.\<close>

definition heldBytes :: "ExistingChunk list \<Rightarrow> int" where
  "heldBytes rows = sum_list (map (\<lambda>r. if xstate r = ChunkDone then xend r - xstart r + 1 else 0) rows)"

lemma heldBytes_le:
  assumes "\<And>r. r \<in> set rows \<Longrightarrow> xstart r \<le> xend r"
  shows "0 \<le> heldBytes rows"
    and "heldBytes rows \<le> sum_list (map (\<lambda>r. xend r - xstart r + 1) rows)"
  using assms by (induction rows) (auto simp: heldBytes_def; force)+

text \<open>The stored rows of a fresh plan, whatever was recorded on them since.\<close>

lemma fresh_rows:
  assumes "planChunks t cfg [] = Some plan"
  shows "sort_key xindex (rowsAfter (chunks plan) us) = rowsAfter (chunks plan) us"
    and "chunk_layout (map (\<lambda>r. (xstart r, xend r)) (rowsAfter (chunks plan) us)) (wholeBytes t)"
    and "rowsAfter (chunks plan) us = [] \<Longrightarrow> wholeBytes t = 0 \<and> chunks plan = []"
proof -
  let ?n = "wholeBytes t"
  let ?s = "resolveChunkSize ?n cfg"
  from assms have cs: "chunks plan = map (chunkAt ?s ?n) [0..<chunkCount ?s ?n]"
    by (auto simp: planChunks_fresh Let_def)
  note geo = map_via_geometry [OF rowsAfter_geometry [of "chunks plan" us]]
  have "sorted (map pindex (chunks plan))" unfolding cs by (rule fresh_indices_sorted)
  then show "sort_key xindex (rowsAfter (chunks plan) us) = rowsAfter (chunks plan) us"
    by (intro sort_key_id_if_sorted) (simp only: geo(1))
  show "chunk_layout (map (\<lambda>r. (xstart r, xend r)) (rowsAfter (chunks plan) us)) ?n"
    unfolding geo(2) using fresh.chunk_layout_axioms [of t cfg] assms
    by (simp add: plannedRanges_def)
  assume "rowsAfter (chunks plan) us = []"
  then have none: "chunks plan = []" using geo(1) by simp
  then have "chunkCount ?s ?n = 0" using cs by simp
  then have "?n \<le> 0" using chunkCount_le_iff [of ?s ?n 0] by simp
  with none show "?n = 0 \<and> chunks plan = []" using wholeBytes_nonneg [of t] by linarith
qed

lemma heldBytes_bounds:
  assumes "chunk_layout (map (\<lambda>r. (xstart r, xend r)) rows) n"
  shows "0 \<le> heldBytes rows \<and> heldBytes rows \<le> n"
proof -
  have "xstart r \<le> xend r" if "r \<in> set rows" for r
    using chunk_layout.range_bounds [OF assms, of "(xstart r, xend r)"] that by force
  moreover have "sum_list (map (\<lambda>r. xend r - xstart r + 1) rows) = n"
    using chunk_layout.lengths_sum [OF assms] by (simp add: comp_def)
  ultimately show ?thesis using heldBytes_le [of rows] by simp
qed

lemma heldBytes_resumed: "heldBytes rows = sum_list (map pbytesDone (map resumeChunk rows))"
  unfolding heldBytes_def map_map
  by (rule sum_list_map_cong_set) (simp add: resumeChunk_def Let_def)

lemma resumed_states:
  "map pstate (map resumeChunk rows)
     = map (\<lambda>r. if xstate r = ChunkDone then ChunkDone else ChunkPending) rows"
  by (simp add: resumeChunk_def Let_def comp_def)

text \<open>
  (C9) Resuming after a crash keeps the geometry. Store a fresh plan, record any sequence of
  chunk transitions, then plan again with any other chunk size configured: the ranges,
  indices and checksums are those of the first plan, a chunk comes back done exactly when
  its row said so and pending otherwise, and the byte count is that of the completed rows,
  never more than the file.
\<close>

theorem resume_after_crash:
  assumes "planChunks t cfg [] = Some plan"
    and "planChunks t cfg' (findByTransfer (rowsAfter (chunks plan) us)) = Some plan'"
  shows "ranges (chunks plan') = ranges (chunks plan)
    \<and> map pindex (chunks plan') = map pindex (chunks plan)
    \<and> map pchecksum (chunks plan') = map pchecksum (chunks plan)
    \<and> map pstate (chunks plan')
       = map (\<lambda>r. if xstate r = ChunkDone then ChunkDone else ChunkPending)
           (rowsAfter (chunks plan) us)
    \<and> bytesDone plan' = heldBytes (rowsAfter (chunks plan) us)
    \<and> 0 \<le> bytesDone plan' \<and> bytesDone plan' \<le> bytesTotal plan'"
proof -
  let ?rows = "rowsAfter (chunks plan) us"
  note rows = fresh_rows [OF assms(1), of us]
  note geo = map_via_geometry [OF rowsAfter_geometry [of "chunks plan" us]]
  note held = heldBytes_bounds [OF rows(2)]
  show ?thesis
  proof (cases "?rows = []")
    case True
    with rows(3) show ?thesis using assms(2)
      by (auto simp: findByTransfer_def planChunks_fresh Let_def chunkCount_def heldBytes_def ranges_def)
  next
    case False
    then have p: "plan' = resumePlan (wholeBytes t) ?rows"
      using assms(2) by (simp add: findByTransfer_def rows(1) planChunks_def)
    have same: "ranges (map resumeChunk ?rows) = ranges (chunks plan)"
      "map pindex (map resumeChunk ?rows) = map pindex (chunks plan)"
      "map pchecksum (map resumeChunk ?rows) = map pchecksum (chunks plan)"
      using geo by (simp_all add: ranges_def layout_simps comp_def)
    show ?thesis
      using same resumed_states [of ?rows] heldBytes_resumed [of ?rows] held
      by (simp only: p resumePlan_sel rows(1))
  qed
qed

theorem resume_after_crash_witness:
  "\<exists>plan plan'. planChunks (Some 600000) (Some 0) [] = Some plan
     \<and> planChunks (Some 600000) None
         (findByTransfer (rowsAfter (chunks plan) [(hd (chunks plan))\<lparr>pstate := ChunkDone\<rparr>]))
         = Some plan'
     \<and> length (chunks plan') = 3 \<and> bytesDone plan' = 262144
     \<and> ranges (chunks plan') = ranges (chunks plan)"
proof -
  let ?cs = "map (chunkAt 262144 600000) [0..<3]"
  let ?us = "[(hd ?cs)\<lparr>pstate := ChunkDone\<rparr>]"
  have step: "resolveChunkSize 600000 (Some 0) = 262144"
    by (simp add: resolveChunkSize_def Let_def MIN_CHUNK_SIZE_def MAX_CHUNKS_def ceil_div_def)
  have n: "wholeBytes (Some 600000) = 600000" by (simp add: wholeBytes_def)
  have k: "chunkCount 262144 600000 = 3" by (simp add: chunkCount_def ceil_div_def)
  obtain plan where plan: "planChunks (Some 600000) (Some 0) [] = Some plan" "chunks plan = ?cs"
    by (simp add: planChunks_fresh Let_def n step k)
  have ne: "findByTransfer (rowsAfter ?cs ?us) \<noteq> []"
    by (simp add: findByTransfer_def rowsAfter_def updateState_def upt_rec)
  obtain plan' where plan': "planChunks (Some 600000) None (findByTransfer (rowsAfter (chunks plan) ?us)) = Some plan'"
    using ne plan(2) by (simp add: planChunks_def)
  note main = resume_after_crash [OF plan(1) plan']
  have three: "[0..<3] = [0, Suc 0, 2]" by (simp add: upt_rec)
  have "heldBytes (rowsAfter ?cs ?us) = 262144"
    unfolding three
    by (simp add: heldBytes_def rowsAfter_def updateState_def insertPlanRow_def layout_simps)
  moreover from main have "bytesDone plan' = heldBytes (rowsAfter (chunks plan) ?us)" by (elim conjE)
  ultimately have "bytesDone plan' = 262144" by (simp only: plan(2))
  moreover have "length (chunks plan') = 3"
  proof -
    from main have "map pindex (chunks plan') = map pindex (chunks plan)" by (elim conjE)
    from arg_cong [OF this, of length] show ?thesis by (simp add: plan(2))
  qed
  moreover from main have "ranges (chunks plan') = ranges (chunks plan)" by (elim conjE)
  ultimately show ?thesis using plan(1) plan'
    by (intro exI [of _ plan] exI [of _ plan'] conjI) (simp_all only: plan(2))
qed

text \<open>
  A stored plan is taken to describe a file exactly when the file still has the size the
  plan was laid out for: a source that now reports another size is never resumed into.
\<close>

lemma planMatchesSize_fresh:
  assumes "planChunks t cfg [] = Some plan"
  shows "planMatchesSize plan n \<longleftrightarrow> n = wholeBytes t"
proof -
  have rs: "plannedRanges t cfg = ranges (chunks plan)"
    using assms by (simp add: plannedRanges_def)
  show ?thesis
  proof (cases "chunks plan")
    case Nil
    then have "wholeBytes t = 0" using fresh.tiled [of t cfg] rs by (simp add: ranges_def)
    with Nil show ?thesis by (simp add: planMatchesSize_def)
  next
    case (Cons c cs)
    then have "pend (last (chunks plan)) + 1 = wholeBytes t"
      using fresh.last_end [of t cfg] rs by (simp add: ranges_def last_map split: if_splits)
    with Cons show ?thesis by (auto simp: planMatchesSize_def)
  qed
qed

lemma planMatchesSize_fresh_witness:
  "\<exists>plan. planChunks (Some 1) None [] = Some plan \<and> planMatchesSize plan 1
     \<and> \<not> planMatchesSize plan 2"
proof -
  obtain plan where p: "planChunks (Some 1) None [] = Some plan"
    by (simp add: planChunks_fresh Let_def)
  have "wholeBytes (Some 1) = 1" by (simp add: wholeBytes_def)
  with p planMatchesSize_fresh [OF p] show ?thesis by simp
qed

end
