(* ===== verification/Verification.thy ===== *)
theory Verification
  imports Chunk_Planner
begin

text \<open>
  Checking a finished working file (\<open>packages/api/src/services/verification.service.ts\<close>) and
  the two digests it takes (\<open>hashRange\<close> and \<open>fullHash\<close> of
  \<open>packages/api/src/services/fingerprint.service.ts\<close>).

  The digest itself is Node's \<open>createHash\<close>; it is the parameter \<open>hash\<close> of every definition
  that reads it. A file is its bytes, \<open>None\<close> when \<open>stat\<close> fails. The English sentence the report
  carries is the datatype \<open>VerifyDetail\<close>, one constructor per message.
\<close>

subsection \<open>Data\<close>

datatype VerifyDetail =
    FileNotThere
  | SizeIs int int
  | PiecesDidNotMatch nat
  | WholeFileMismatch

record VerificationRequest =
  vtransferId :: string
  vchunks :: "PlannedChunk list"
  expectedSize :: "int option"
  expectedChecksum :: "string option"

record VerificationReport =
  rtransferId :: string
  ok :: bool
  chunksChecked :: nat
  chunksCorrupt :: nat
  bytesToRepair :: int
  corruptChunks :: "int list"
  detail :: "VerifyDetail option"

record RepairAssignment =
  achunkIndex :: int
  asourceServiceId :: "string option"
  previousSourceServiceId :: "string option"

subsection \<open>Operations\<close>

text \<open>A checksum column that is null or empty is no checksum (\<open>!!chunk.checksum\<close>).\<close>

definition given :: "string option \<Rightarrow> string option" where
  "given k = (case k of None \<Rightarrow> None | Some t \<Rightarrow> if t = [] then None else Some t)"

definition hashRange :: "(byte list \<Rightarrow> string) \<Rightarrow> byte list \<Rightarrow> int \<Rightarrow> int \<Rightarrow> string" where
  "hashRange hash content s e = hash (slice s e content)"

definition fullHash :: "(byte list \<Rightarrow> string) \<Rightarrow> byte list \<Rightarrow> string" where
  "fullHash hash content = hash content"

definition chunkMap :: "PlannedChunk list \<Rightarrow> int \<rightharpoonup> PlannedChunk" where
  "chunkMap cs = js_map_of (map (\<lambda>c. (pindex c, c)) cs)"

definition report :: "VerificationRequest \<Rightarrow> int list \<Rightarrow> VerifyDetail option \<Rightarrow> VerificationReport" where
  "report request corrupt det =
     \<lparr>rtransferId = vtransferId request,
      ok = (corrupt = [] \<and> det = None),
      chunksChecked = length (vchunks request),
      chunksCorrupt = length corrupt,
      bytesToRepair = sum_list (map (\<lambda>i. case chunkMap (vchunks request) i of
                                            None \<Rightarrow> 0 | Some c \<Rightarrow> pend c - pstart c + 1) corrupt),
      corruptChunks = corrupt,
      detail = det\<rparr>"

definition verify ::
  "(byte list \<Rightarrow> string) \<Rightarrow> VerificationRequest \<Rightarrow> byte list option \<Rightarrow> VerificationReport" where
  "verify hash request file =
     (let withChecksums = filter (\<lambda>c. given (pchecksum c) \<noteq> None) (vchunks request) in
      case file of
        None \<Rightarrow> report request [] (Some FileNotThere)
      | Some content \<Rightarrow>
          let actualSize = int (length content) in
          if (case expectedSize request of None \<Rightarrow> False | Some n \<Rightarrow> actualSize \<noteq> n)
          then report request (map pindex (vchunks request))
                 (Some (SizeIs actualSize (the (expectedSize request))))
          else if withChecksums \<noteq> []
          then let corrupt = map pindex (filter (\<lambda>c.
                     Some (hashRange hash content (pstart c) (pend c)) \<noteq> pchecksum c) withChecksums)
               in report request corrupt
                    (if corrupt \<noteq> [] then Some (PiecesDidNotMatch (length corrupt)) else None)
          else case given (expectedChecksum request) of
                 Some k \<Rightarrow> if fullHash hash content = k then report request [] None
                           else report request (map pindex (vchunks request)) (Some WholeFileMismatch)
               | None \<Rightarrow> report request [] None)"

definition verifyPlaced ::
  "(byte list \<Rightarrow> string) \<Rightarrow> string \<Rightarrow> byte list option \<Rightarrow> int option \<Rightarrow> string option
   \<Rightarrow> VerificationReport" where
  "verifyPlaced hash tid file n k =
     verify hash \<lparr>vtransferId = tid, vchunks = [], expectedSize = n, expectedChecksum = k\<rparr> file"

definition chooseRepairSource :: "string list \<Rightarrow> string option \<Rightarrow> nat \<Rightarrow> string option" where
  "chooseRepairSource available previous position =
     (let alternatives = filter (\<lambda>s. Some s \<noteq> previous) available in
      if alternatives \<noteq> [] then Some (alternatives ! (position mod length alternatives))
      else (case available of [] \<Rightarrow> None | s # _ \<Rightarrow> Some s))"

definition planRepair ::
  "VerificationReport \<Rightarrow> PlannedChunk list \<Rightarrow> string list \<Rightarrow> RepairAssignment list" where
  "planRepair rep cs available =
     map (\<lambda>(position, i).
            let previous = (case chunkMap cs i of None \<Rightarrow> None | Some c \<Rightarrow> psourceServiceId c) in
            \<lparr>achunkIndex = i, asourceServiceId = chooseRepairSource available previous position,
             previousSourceServiceId = previous\<rparr>)
       (enumerate 0 (corruptChunks rep))"

subsection \<open>What a clean report means\<close>

definition pieceMatches :: "(byte list \<Rightarrow> string) \<Rightarrow> byte list \<Rightarrow> PlannedChunk \<Rightarrow> bool" where
  "pieceMatches hash content c =
     (given (pchecksum c) = None \<or> Some (hash (slice (pstart c) (pend c) content)) = pchecksum c)"

lemma report_ok [simp]: "ok (report r cor det) \<longleftrightarrow> cor = [] \<and> det = None"
  by (simp add: report_def)

lemma verify_ok_char:
  "ok (verify hash request file) \<longleftrightarrow>
     (\<exists>content. file = Some content
        \<and> (expectedSize request = None \<or> expectedSize request = Some (int (length content)))
        \<and> list_all (pieceMatches hash content) (vchunks request)
        \<and> (given (expectedChecksum request) = None
           \<or> given (expectedChecksum request) = Some (hash content)
           \<or> list_ex (\<lambda>c. given (pchecksum c) \<noteq> None) (vchunks request)))"
proof (cases "file")
  case None
  then show ?thesis by (simp add: verify_def)
next
  case (Some content)
  have pieces: "filter (\<lambda>c. Some (hash (slice (pstart c) (pend c) content)) \<noteq> pchecksum c)
        (filter (\<lambda>c. given (pchecksum c) \<noteq> None) cs) = [] \<longleftrightarrow> list_all (pieceMatches hash content) cs"
    for cs by (induction cs) (auto simp: pieceMatches_def)
  have none: "list_all (pieceMatches hash content) cs"
    if "filter (\<lambda>c. given (pchecksum c) \<noteq> None) cs = []" for cs
    using that by (induction cs) (auto simp: pieceMatches_def split: if_splits)
  have ex: "list_ex (\<lambda>c. given (pchecksum c) \<noteq> None) cs
      \<longleftrightarrow> filter (\<lambda>c. given (pchecksum c) \<noteq> None) cs \<noteq> []" for cs
    by (induction cs) auto
  show ?thesis
    unfolding Some verify_def Let_def ex
    using pieces [of "vchunks request"] none [of "vchunks request"]
    by (auto simp: hashRange_def fullHash_def split: option.splits)
qed

text \<open>
  A report is clean exactly when the file is there, has the expected size if one is
  given, and every piece that carries a checksum hashes to it; only where no piece carries
  one does the whole-file checksum, if given, have to match. An empty plan whose size check
  fails is still reported as broken.
\<close>

lemma verify_ok_iff:
  "ok (verify hash request file) \<longleftrightarrow>
     (\<exists>content. file = Some content
        \<and> (expectedSize request = None \<or> expectedSize request = Some (int (length content)))
        \<and> list_all (pieceMatches hash content) (vchunks request)
        \<and> (given (expectedChecksum request) = None
           \<or> given (expectedChecksum request) = Some (hash content)
           \<or> list_ex (\<lambda>c. given (pchecksum c) \<noteq> None) (vchunks request)))"
  by (rule verify_ok_char)

lemma layout_lists_eq:
  assumes "chunk_layout rs n" "int (length xs) = n" "int (length ys) = n"
    and "\<And>s e. (s, e) \<in> set rs \<Longrightarrow> slice s e xs = slice s e ys"
  shows "xs = ys"
proof (rule nth_equalityI)
  show "length xs = length ys" using assms(2,3) by simp
  fix i assume i: "i < length xs"
  then obtain k where k: "k < length rs" "in_range (int i) (rs ! k)"
    using chunk_layout.byte_in_exactly_one [OF assms(1), of "int i"] assms(2) by auto
  obtain s e where se: "rs ! k = (s, e)" by (cases "rs ! k")
  then have mem: "(s, e) \<in> set rs" using k(1) by (metis nth_mem)
  from chunk_layout.range_bounds [OF assms(1) mem] have "0 \<le> s" by simp
  with slices_agree_nth [OF assms(4) [OF mem], of "int i"] k(2) se i assms(2,3)
  show "xs ! i = ys ! i" by (simp add: in_range_def)
qed

lemma verified_content:
  assumes "chunk_layout (ranges (vchunks request)) (int (length source))"
    and "expectedSize request = Some (int (length source))"
    and "\<And>c. c \<in> set (vchunks request) \<Longrightarrow> pchecksum c = Some (hash (slice (pstart c) (pend c) source))"
    and "\<And>bs. hash bs \<noteq> []"
    and collision_free: "\<And>c. c \<in> set (vchunks request)
      \<Longrightarrow> hash (slice (pstart c) (pend c) content) = hash (slice (pstart c) (pend c) source)
      \<Longrightarrow> slice (pstart c) (pend c) content = slice (pstart c) (pend c) source"
    and "ok (verify hash request (Some content))"
  shows "content = source"
proof -
  from assms(2,6) have len: "int (length content) = int (length source)"
    and pieces: "list_all (pieceMatches hash content) (vchunks request)"
    by (auto simp: verify_ok_char)
  have "slice s e content = slice s e source" if "(s, e) \<in> set (ranges (vchunks request))" for s e
  proof -
    from that obtain c where c: "c \<in> set (vchunks request)" "s = pstart c" "e = pend c"
      by (auto simp: ranges_def)
    with pieces assms(3,4) have "hash (slice s e content) = hash (slice s e source)"
      by (auto simp: list_all_iff pieceMatches_def given_def)
    with c collision_free show ?thesis by blast
  qed
  with layout_lists_eq [OF assms(1) len] show ?thesis by blast
qed

text \<open>
  (C8) A clean report on a plan whose every piece carries the digest of that piece of the
  source means the working file is the source file, byte for byte, as long as the digest does
  not collide on the pieces compared.
\<close>

theorem verify_ok_file_is_source:
  assumes "chunk_layout (ranges (vchunks request)) (int (length source))"
    and "expectedSize request = Some (int (length source))"
    and "\<And>c. c \<in> set (vchunks request) \<Longrightarrow> pchecksum c = Some (hash (slice (pstart c) (pend c) source))"
    and "\<And>bs. hash bs \<noteq> []"
    and collision_free: "\<And>c. c \<in> set (vchunks request)
      \<Longrightarrow> hash (slice (pstart c) (pend c) content) = hash (slice (pstart c) (pend c) source)
      \<Longrightarrow> slice (pstart c) (pend c) content = slice (pstart c) (pend c) source"
    and "ok (verify hash request (Some content))"
  shows "content = source"
  using verified_content [OF assms] .

theorem verify_ok_file_is_source_witness:
  "\<exists>hash request content. ok (verify hash request (Some content)) \<and> content = [1, 2, 3 :: byte]
     \<and> length (vchunks request) = 2"
proof -
  let ?src = "[1, 2, 3 :: byte]"
  let ?hash = "\<lambda>bs :: byte list. if 1 \<in> set bs then ''a'' else ''b''"
  let ?c = "\<lambda>i s e k. \<lparr>pindex = i, pstart = s, pend = e, psize = e - s + 1, pstate = ChunkDone,
      pbytesDone = e - s + 1, psourceServiceId = None, pattempts = 1, pchecksum = Some k\<rparr>"
  let ?req = "\<lparr>vtransferId = ''t'', vchunks = [?c 0 0 1 ''a'', ?c 1 2 2 ''b''],
      expectedSize = Some 3, expectedChecksum = None\<rparr>"
  have okay: "ok (verify ?hash ?req (Some ?src))"
    by (simp add: verify_def Let_def given_def hashRange_def slice_def)
  have lay: "chunk_layout (ranges (vchunks ?req)) (int (length ?src))"
    by unfold_locales (simp add: ranges_def)
  have "?src = ?src"
    by (rule verify_ok_file_is_source [OF lay _ _ _ _ okay]) (auto simp: slice_def split: if_splits)
  with okay show ?thesis by (intro exI [of _ ?hash] exI [of _ ?req] exI [of _ ?src]) simp
qed

subsection \<open>Repair assignments\<close>

lemma chooseRepairSource_cases:
  "chooseRepairSource av prev k = None \<longleftrightarrow> av = []"
  "chooseRepairSource av prev k = Some s \<Longrightarrow> s \<in> set av"
  "chooseRepairSource av prev k = Some s \<Longrightarrow> prev = Some s \<Longrightarrow> set av = {s}"
proof -
  let ?alt = "filter (\<lambda>s. Some s \<noteq> prev) av"
  have mem: "?alt ! (k mod length ?alt) \<in> set ?alt" if "?alt \<noteq> []"
    using that by (intro nth_mem mod_less_divisor) simp
  show "chooseRepairSource av prev k = None \<longleftrightarrow> av = []"
    by (auto simp: chooseRepairSource_def Let_def split: list.splits)
  show "chooseRepairSource av prev k = Some s \<Longrightarrow> s \<in> set av"
    using mem by (auto simp: chooseRepairSource_def Let_def split: if_splits list.splits)
  assume chosen: "chooseRepairSource av prev k = Some s" and p: "prev = Some s"
  have "?alt = []"
  proof (rule ccontr)
    assume "?alt \<noteq> []"
    with chosen have "?alt ! (k mod length ?alt) = s" by (simp add: chooseRepairSource_def Let_def)
    with mem [OF \<open>?alt \<noteq> []\<close>] have "s \<in> set ?alt" by (simp only:)
    with p show False by simp
  qed
  then have "set av \<subseteq> {s}" using p by (auto simp: filter_empty_conv)
  moreover from chosen have "av \<noteq> []" by (auto simp: chooseRepairSource_def)
  ultimately show "set av = {s}" by (cases av) auto
qed

text \<open>
  A repair plan names every corrupt piece once, in the order reported. The source chosen
  is one of those available, there is one unless none is available, and it is the source that
  served the bad bytes only when no other source is left.
\<close>

lemma planRepair_avoids_previous:
  "map achunkIndex (planRepair rep cs av) = corruptChunks rep
   \<and> list_all (\<lambda>a. (asourceServiceId a = None \<longleftrightarrow> av = [])
        \<and> (\<forall>s. asourceServiceId a = Some s \<longrightarrow> s \<in> set av
             \<and> (previousSourceServiceId a = Some s \<longrightarrow> set av = {s})))
       (planRepair rep cs av)"
proof -
  have "map achunkIndex (planRepair rep cs av) = map snd (enumerate 0 (corruptChunks rep))"
    by (simp add: planRepair_def Let_def comp_def case_prod_beta)
  moreover have "(asourceServiceId a = None \<longleftrightarrow> av = [])
      \<and> (\<forall>s. asourceServiceId a = Some s \<longrightarrow> s \<in> set av
             \<and> (previousSourceServiceId a = Some s \<longrightarrow> set av = {s}))"
    if "a \<in> set (planRepair rep cs av)" for a
  proof -
    from that obtain k where k: "asourceServiceId a = chooseRepairSource av (previousSourceServiceId a) k"
      by (auto simp: planRepair_def Let_def)
    show ?thesis
      unfolding k using chooseRepairSource_cases [of av "previousSourceServiceId a" k] by blast
  qed
  ultimately show ?thesis by (simp add: list_all_iff)
qed

lemma planRepair_avoids_previous_witness:
  "\<exists>rep cs. map asourceServiceId (planRepair rep cs [''a'', ''b'', ''c'']) = [Some ''b'', Some ''c'']
     \<and> map achunkIndex (planRepair rep cs [''a'', ''b'', ''c'']) = [0, 2]"
proof -
  let ?c = "\<lambda>i. \<lparr>pindex = i, pstart = i, pend = i, psize = 1, pstate = ChunkDone, pbytesDone = 1,
      psourceServiceId = Some ''a'', pattempts = 1, pchecksum = None\<rparr>"
  let ?rep = "report \<lparr>vtransferId = ''t'', vchunks = [?c 0, ?c 2], expectedSize = None,
      expectedChecksum = None\<rparr> [0, 2] None"
  have "map achunkIndex (planRepair ?rep [?c 0, ?c 2] [''a'', ''b'', ''c'']) = corruptChunks ?rep"
    using planRepair_avoids_previous by blast
  then show ?thesis
    by (intro exI [of _ ?rep] exI [of _ "[?c 0, ?c 2]"])
      (simp add: report_def planRepair_def chunkMap_def js_map_of_def chooseRepairSource_def
        enumerate_eq_zip)
qed

end
