(* ===== verification/Transfer_Worker.thy ===== *)
theory Transfer_Worker
  imports Chunk_Planner "HOL-Library.Product_Lexorder"
begin

text \<open>
  The download loop of one transfer: the connections of
  \<open>packages/api/src/services/transfer-engine.service.ts\<close> from \<open>_download\<close> down.

  \<open>_download\<close> starts a number of \<open>_worker\<close> loops over one shared \<open>RunningTransfer\<close>. JavaScript
  interleaves them at every \<open>await\<close>, so the model is event driven: the state holds the fetches
  in flight and the number of workers at the top of their loop, and one event is what happens
  between two awaits: a worker takes a turn, a transport answers, a piece of a stream arrives, a
  stream ends, something throws, somebody pauses or cancels. \<open>dl_step\<close> gives the state after
  an event, \<open>None\<close> when the event cannot happen. The working file is its bytes; a positional
  write past its end leaves a hole of zeroes, as a sparse file has. The chunk rows are written
  by \<open>_saveChunk\<close> at the end of every fetch. Waiting for the rate limiter moves no state of
  this component and is not an event; the clock is an argument of the piece that arrives.
\<close>

subsection \<open>Data\<close>

definition RATE_WINDOW_MS :: int where "RATE_WINDOW_MS = 5000"

definition MAX_CHUNK_ATTEMPTS :: int where "MAX_CHUNK_ATTEMPTS = 5"

definition PROGRESS_INTERVAL_BYTES :: int where "PROGRESS_INTERVAL_BYTES = 4 * 1024 * 1024"

record RuntimeSource =
  serviceId :: string
  maxConnections :: int
  resumable :: bool
  capTotalBytes :: "int option"
  pieceChecksums :: "(int \<rightharpoonup> string) option"
  pieceSize :: "int option"
  rate :: rat
  srcBytesDone :: int
  connections :: int
  failures :: int
  healthy :: bool
  srcWindowBytes :: int
  srcWindowStart :: int

text \<open>A fetch in flight: which chunk, which source, what the transport answered, and how far.\<close>

record Fetch =
  fchunk :: nat
  fsource :: nat
  fwhole :: "bool option"
  fposition :: int

record RunningTransfer =
  plan :: ChunkPlan
  sources :: "RuntimeSource list"
  workFile :: "byte list"
  rows :: "ExistingChunk list"
  rowBytesDone :: int
  bytesSinceReport :: int
  windowBytes :: int
  windowStart :: int
  runRate :: rat
  pausing :: bool
  cancelling :: bool
  draining :: bool
  idle :: nat
  inflight :: "Fetch list"
  threw :: bool

subsection \<open>Small operations\<close>

definition chunkOf :: "RunningTransfer \<Rightarrow> nat \<Rightarrow> PlannedChunk" where
  "chunkOf r i = chunks (plan r) ! i"

definition updChunk :: "nat \<Rightarrow> (PlannedChunk \<Rightarrow> PlannedChunk) \<Rightarrow> RunningTransfer \<Rightarrow> RunningTransfer" where
  "updChunk i f r =
     r\<lparr>plan := (plan r)\<lparr>chunks := (chunks (plan r))[i := f (chunks (plan r) ! i)]\<rparr>\<rparr>"

definition updSource :: "nat \<Rightarrow> (RuntimeSource \<Rightarrow> RuntimeSource) \<Rightarrow> RunningTransfer \<Rightarrow> RunningTransfer" where
  "updSource j f r = r\<lparr>sources := (sources r)[j := f (sources r ! j)]\<rparr>"

definition writeAt :: "nat \<Rightarrow> byte list \<Rightarrow> byte list \<Rightarrow> byte list" where
  "writeAt p bs f =
     (let padded = f @ replicate (p - length f) 0 in
      take p padded @ bs @ drop (p + length bs) padded)"

text \<open>The next piece to fetch: the first pending one, marked active.\<close>

fun firstPending :: "PlannedChunk list \<Rightarrow> nat option" where
  "firstPending [] = None"
| "firstPending (c # cs) =
     (if pstate c = ChunkPending then Some 0 else map_option Suc (firstPending cs))"

definition nextChunk :: "RunningTransfer \<Rightarrow> RunningTransfer \<times> nat option" where
  "nextChunk r =
     (case firstPending (chunks (plan r)) of
        None \<Rightarrow> (r, None)
      | Some i \<Rightarrow> (updChunk i (\<lambda>c. c\<lparr>pstate := ChunkActive\<rparr>) r, Some i))"

text \<open>
  Which source feeds the next chunk: among the healthy sources with a free connection, an
  unmeasured one first, then the fastest, then the one with fewest connections; the sort of
  the source is stable, as \<^const>\<open>sort_key\<close> is.
\<close>

definition available :: "int \<Rightarrow> RuntimeSource \<Rightarrow> bool" where
  "available perSource s = (healthy s \<and> connections s < min perSource (maxConnections s))"

definition pickSource :: "int \<Rightarrow> RunningTransfer \<Rightarrow> nat option" where
  "pickSource perSource r =
     (let candidates = filter (\<lambda>j. available perSource (sources r ! j)) [0..<length (sources r)] in
      case sort_key (\<lambda>j. (rate (sources r ! j) \<noteq> 0, - rate (sources r ! j),
                          connections (sources r ! j))) candidates of
        [] \<Rightarrow> None
      | j # _ \<Rightarrow> Some j)"

text \<open>The number of connections \<open>_download\<close> opens.\<close>

definition workerCount :: "int \<Rightarrow> RunningTransfer \<Rightarrow> int" where
  "workerCount perSource r =
     (let capacity = sum_list (map (\<lambda>s. min perSource (maxConnections s)) (sources r));
          ranged = list_ex resumable (sources r) in
      max 1 (min (if ranged then capacity else 1) (int (length (chunks (plan r))))))"

text \<open>Accounting for bytes written: the plan, the two rate windows and the progress report.\<close>

definition accountSource :: "int \<Rightarrow> int \<Rightarrow> RuntimeSource \<Rightarrow> RuntimeSource" where
  "accountSource now n s =
     (let s1 = s\<lparr>srcBytesDone := srcBytesDone s + n, srcWindowBytes := srcWindowBytes s + n\<rparr>;
          elapsed = now - srcWindowStart s in
      if RATE_WINDOW_MS \<le> elapsed
      then s1\<lparr>rate := of_int (srcWindowBytes s1) / of_int elapsed * 1000,
              srcWindowBytes := 0, srcWindowStart := now\<rparr>
      else s1)"

definition account :: "int \<Rightarrow> nat \<Rightarrow> int \<Rightarrow> RunningTransfer \<Rightarrow> RunningTransfer" where
  "account now j n r =
     (let r1 = r\<lparr>plan := (plan r)\<lparr>bytesDone := bytesDone (plan r) + n\<rparr>,
                 bytesSinceReport := bytesSinceReport r + n,
                 windowBytes := windowBytes r + n\<rparr>;
          elapsed = now - windowStart r1;
          r2 = (if RATE_WINDOW_MS \<le> elapsed
                then r1\<lparr>runRate := of_int (windowBytes r1) / of_int elapsed * 1000,
                        windowBytes := 0, windowStart := now\<rparr>
                else r1);
          r3 = updSource j (accountSource now n) r2 in
      if PROGRESS_INTERVAL_BYTES \<le> bytesSinceReport r3
      then r3\<lparr>bytesSinceReport := 0, rowBytesDone := bytesDone (plan r3)\<rparr>
      else r3)"

definition saveChunk :: "nat \<Rightarrow> RunningTransfer \<Rightarrow> RunningTransfer" where
  "saveChunk i r = r\<lparr>rows := updateState (chunkOf r i) (rows r)\<rparr>"

subsection \<open>One fetch, from its first line to its \<open>finally\<close>\<close>

definition beginFetch :: "nat \<Rightarrow> nat \<Rightarrow> RunningTransfer \<Rightarrow> RunningTransfer" where
  "beginFetch i j r =
     (let r1 = updSource j (\<lambda>s. s\<lparr>connections := connections s + 1\<rparr>) r;
          r2 = updChunk i (\<lambda>c. c\<lparr>pattempts := pattempts c + 1,
                                 psourceServiceId := Some (serviceId (sources r ! j))\<rparr>) r1 in
      r2\<lparr>inflight := inflight r2 @ [\<lparr>fchunk = i, fsource = j, fwhole = None,
                                      fposition = pstart (chunkOf r i)\<rparr>]\<rparr>)"

text \<open>The \<open>finally\<close> block: the connection is given back.\<close>

definition endFetch :: "nat \<Rightarrow> RunningTransfer \<Rightarrow> RunningTransfer" where
  "endFetch k r =
     (let f = inflight r ! k in
      (updSource (fsource f) (\<lambda>s. s\<lparr>connections := max 0 (connections s - 1)\<rparr>) r)
        \<lparr>inflight := removeAt k (inflight r)\<rparr>)"

text \<open>
  The \<open>catch\<close> block. The chunk goes back to the queue, or is given up on after five attempts,
  in which case the error is thrown again and the worker that ran it is gone.
\<close>

definition failFetch :: "nat \<Rightarrow> RunningTransfer \<Rightarrow> RunningTransfer" where
  "failFetch k r =
     (let f = inflight r ! k; i = fchunk f;
          gaveUp = (MAX_CHUNK_ATTEMPTS \<le> pattempts (chunkOf r i));
          r1 = updChunk i (\<lambda>c. c\<lparr>pstate := (if gaveUp then ChunkFailed else ChunkPending),
                                 pbytesDone := 0\<rparr>) r;
          r2 = updSource (fsource f)
                 (\<lambda>s. s\<lparr>failures := failures s + 1,
                        healthy := (if 3 \<le> failures s + 1 then False else healthy s)\<rparr>) r1;
          r3 = endFetch k (saveChunk i r2) in
      if gaveUp then r3\<lparr>threw := True\<rparr> else r3\<lparr>idle := idle r3 + 1\<rparr>)"

text \<open>After the stream: too short is an error, otherwise the chunk is done.\<close>

definition finishFetch :: "nat \<Rightarrow> RunningTransfer \<Rightarrow> RunningTransfer" where
  "finishFetch k r =
     (let f = inflight r ! k; i = fchunk f; c = chunkOf r i;
          received = fposition f - pstart c in
      if fwhole f \<noteq> Some True \<and> received < psize c then failFetch k r
      else
        let done = (\<lambda>c. c\<lparr>pstate := ChunkDone, pbytesDone := psize c\<rparr>);
            r1 = (if fwhole f = Some True
                  then r\<lparr>plan := (plan r)\<lparr>chunks := map done (chunks (plan r))\<rparr>\<rparr>
                  else updChunk i done r);
            r2 = updSource (fsource f) (\<lambda>s. s\<lparr>failures := 0\<rparr>) r1;
            r3 = endFetch k (saveChunk i r2) in
        r3\<lparr>idle := idle r3 + 1\<rparr>)"

text \<open>A whole-file answer is only usable by the chunk that starts at byte 0.\<close>

definition respondFetch :: "nat \<Rightarrow> bool \<Rightarrow> RunningTransfer \<Rightarrow> RunningTransfer" where
  "respondFetch k whole r =
     (let f = inflight r ! k in
      if whole \<and> pstart (chunkOf r (fchunk f)) \<noteq> 0 then failFetch k r
      else r\<lparr>inflight := (inflight r)[k := f\<lparr>fwhole := Some whole\<rparr>]\<rparr>)"

text \<open>
  A piece of the stream. A pause or a cancellation ends the loop; so does a piece past the
  limit. Otherwise the part that fits is written at the position reached.
\<close>

definition pieceArrives :: "int \<Rightarrow> nat \<Rightarrow> byte list \<Rightarrow> RunningTransfer \<Rightarrow> RunningTransfer" where
  "pieceArrives now k buffer r =
     (let f = inflight r ! k; c = chunkOf r (fchunk f);
          limit = (if fwhole f = Some True then bytesTotal (plan r) - 1 else pend c);
          writable = min (int (length buffer)) (limit - fposition f + 1) in
      if cancelling r \<or> pausing r \<or> writable \<le> 0 then finishFetch k r
      else account now (fsource f) writable
             (r\<lparr>workFile := writeAt (nat (fposition f)) (take (nat writable) buffer) (workFile r),
                inflight := (inflight r)[k := f\<lparr>fposition := fposition f + writable\<rparr>]\<rparr>))"

subsection \<open>Workers and events\<close>

text \<open>One turn of a \<open>_worker\<close> loop, up to the fetch it starts or the wait it goes into.\<close>

definition workerTurn :: "int \<Rightarrow> RunningTransfer \<Rightarrow> RunningTransfer" where
  "workerTurn perSource r =
     (if pausing r \<or> cancelling r \<or> draining r then r\<lparr>idle := idle r - 1\<rparr>
      else case nextChunk r of
        (r1, None) \<Rightarrow> r1\<lparr>idle := idle r1 - 1\<rparr>
      | (r1, Some i) \<Rightarrow>
          (case pickSource perSource r1 of
             None \<Rightarrow>
               (let r2 = updChunk i (\<lambda>c. c\<lparr>pstate := ChunkPending\<rparr>) r1 in
                if list_all (\<lambda>s. \<not> healthy s) (sources r2)
                then r2\<lparr>idle := idle r2 - 1, threw := True\<rparr>
                else r2)
           | Some j \<Rightarrow> (beginFetch i j r1)\<lparr>idle := idle r1 - 1\<rparr>))"

datatype dl_event =
    WorkerTurn
  | Respond nat bool
  | Piece int nat "byte list"
  | StreamEnds nat
  | FetchThrows nat
  | AskPause
  | AskCancel
  | Drain

fun dl_step :: "int \<Rightarrow> dl_event \<Rightarrow> RunningTransfer \<Rightarrow> RunningTransfer option" where
  "dl_step perSource WorkerTurn r = (if 0 < idle r then Some (workerTurn perSource r) else None)"
| "dl_step perSource (Respond k whole) r =
     (if k < length (inflight r) \<and> fwhole (inflight r ! k) = None
      then Some (respondFetch k whole r) else None)"
| "dl_step perSource (Piece now k buffer) r =
     (if k < length (inflight r) \<and> fwhole (inflight r ! k) \<noteq> None
      then Some (pieceArrives now k buffer r) else None)"
| "dl_step perSource (StreamEnds k) r =
     (if k < length (inflight r) \<and> fwhole (inflight r ! k) \<noteq> None
      then Some (finishFetch k r) else None)"
| "dl_step perSource (FetchThrows k) r =
     (if k < length (inflight r) then Some (failFetch k r) else None)"
| "dl_step perSource AskPause r = Some (r\<lparr>pausing := True\<rparr>)"
| "dl_step perSource AskCancel r = Some (r\<lparr>cancelling := True\<rparr>)"
| "dl_step perSource Drain r = Some (r\<lparr>draining := True, pausing := True\<rparr>)"

fun dl_run :: "int \<Rightarrow> dl_event list \<Rightarrow> RunningTransfer \<Rightarrow> RunningTransfer option" where
  "dl_run perSource [] r = Some r"
| "dl_run perSource (e # es) r =
     (case dl_step perSource e r of None \<Rightarrow> None | Some r' \<Rightarrow> dl_run perSource es r')"

text \<open>\<open>_download\<close> starts the workers; it has returned once none of them is left.\<close>

interpretation dl: event_run "dl_step perSource" "dl_run perSource" for perSource
  by unfold_locales simp_all

definition startDownload :: "int \<Rightarrow> RunningTransfer \<Rightarrow> RunningTransfer" where
  "startDownload perSource r = r\<lparr>idle := nat (workerCount perSource r), inflight := []\<rparr>"

definition downloadReturned :: "RunningTransfer \<Rightarrow> bool" where
  "downloadReturned r = (idle r = 0 \<and> inflight r = [] \<and> \<not> threw r)"

subsection \<open>The bookkeeping, as lists\<close>

definition st :: "RunningTransfer \<Rightarrow> ChunkState list" where
  "st r = map pstate (chunks (plan r))"

definition held :: "RunningTransfer \<Rightarrow> nat list" where
  "held r = map fchunk (inflight r)"

definition srcs :: "RunningTransfer \<Rightarrow> nat list" where
  "srcs r = map fsource (inflight r)"

definition conn :: "RunningTransfer \<Rightarrow> int list" where
  "conn r = map connections (sources r)"

definition stopped :: "RunningTransfer \<Rightarrow> bool" where
  "stopped r = (pausing r \<or> cancelling r \<or> draining r)"

lemmas views = st_def held_def srcs_def conn_def stopped_def

lemma views_frame [simp]:
  "st (r\<lparr>idle := n\<rparr>) = st r" "held (r\<lparr>idle := n\<rparr>) = held r" "srcs (r\<lparr>idle := n\<rparr>) = srcs r"
  "conn (r\<lparr>idle := n\<rparr>) = conn r" "stopped (r\<lparr>idle := n\<rparr>) = stopped r"
  "st (r\<lparr>threw := b\<rparr>) = st r" "held (r\<lparr>threw := b\<rparr>) = held r" "srcs (r\<lparr>threw := b\<rparr>) = srcs r"
  "conn (r\<lparr>threw := b\<rparr>) = conn r" "stopped (r\<lparr>threw := b\<rparr>) = stopped r"
  "st (r\<lparr>pausing := b\<rparr>) = st r" "held (r\<lparr>pausing := b\<rparr>) = held r" "srcs (r\<lparr>pausing := b\<rparr>) = srcs r"
  "conn (r\<lparr>pausing := b\<rparr>) = conn r"
  "st (r\<lparr>cancelling := b\<rparr>) = st r" "held (r\<lparr>cancelling := b\<rparr>) = held r"
  "srcs (r\<lparr>cancelling := b\<rparr>) = srcs r" "conn (r\<lparr>cancelling := b\<rparr>) = conn r"
  "st (r\<lparr>draining := b\<rparr>) = st r" "held (r\<lparr>draining := b\<rparr>) = held r"
  "srcs (r\<lparr>draining := b\<rparr>) = srcs r" "conn (r\<lparr>draining := b\<rparr>) = conn r"
  by (simp_all add: views)

lemmas worker_defs = updChunk_def updSource_def chunkOf_def saveChunk_def endFetch_def Let_def

lemma map_list_update_nth: "map f (xs[i := g (xs ! i)]) = (map f xs)[i := f (g (xs ! i))]"
  by (simp add: map_update)

lemma map_list_update_id: "f (g (xs ! i)) = f (xs ! i) \<Longrightarrow> map f (xs[i := g (xs ! i)]) = map f xs"
  by (metis map_update list_update_id list_update_beyond map_list_update_nth length_map nth_map not_le)

lemma account_views [engine_simps]:
  "st (account now j n r) = st r" "held (account now j n r) = held r"
  "srcs (account now j n r) = srcs r" "conn (account now j n r) = conn r"
  "idle (account now j n r) = idle r" "threw (account now j n r) = threw r"
  "stopped (account now j n r) = stopped r" "inflight (account now j n r) = inflight r"
  "chunks (plan (account now j n r)) = chunks (plan r)"
  "bytesTotal (plan (account now j n r)) = bytesTotal (plan r)"
  "workFile (account now j n r) = workFile r" "rows (account now j n r) = rows r"
  "length (sources (account now j n r)) = length (sources r)"
  by (auto simp: account_def accountSource_def views worker_defs intro!: map_list_update_id)

lemma failFetch_views:
  assumes "k < length (inflight r)"
  defines "i \<equiv> held r ! k" and "j \<equiv> srcs r ! k"
  defines "gaveUp \<equiv> MAX_CHUNK_ATTEMPTS \<le> pattempts (chunkOf r (held r ! k))"
  shows "st (failFetch k r) = (st r)[i := if gaveUp then ChunkFailed else ChunkPending]"
    and "held (failFetch k r) = removeAt k (held r)" "srcs (failFetch k r) = removeAt k (srcs r)"
    and "j < length (conn r) \<Longrightarrow> conn (failFetch k r) = (conn r)[j := max 0 (conn r ! j - 1)]"
    and "idle (failFetch k r) = (if gaveUp then idle r else idle r + 1)"
    and "threw (failFetch k r) = (threw r \<or> gaveUp)" "stopped (failFetch k r) = stopped r"
  using assms(1) unfolding i_def j_def gaveUp_def
  by (auto simp: failFetch_def views worker_defs map_removeAt map_update)

lemma finishFetch_done_views:
  assumes "k < length (inflight r)"
    and "\<not> (fwhole (inflight r ! k) \<noteq> Some True
            \<and> fposition (inflight r ! k) - pstart (chunkOf r (held r ! k)) < psize (chunkOf r (held r ! k)))"
  defines "i \<equiv> held r ! k" and "j \<equiv> srcs r ! k"
  shows "st (finishFetch k r) = (if fwhole (inflight r ! k) = Some True
            then replicate (length (st r)) ChunkDone else (st r)[i := ChunkDone])"
    and "held (finishFetch k r) = removeAt k (held r)" "srcs (finishFetch k r) = removeAt k (srcs r)"
    and "j < length (conn r) \<Longrightarrow> conn (finishFetch k r) = (conn r)[j := max 0 (conn r ! j - 1)]"
    and "idle (finishFetch k r) = idle r + 1"
    and "threw (finishFetch k r) = threw r" "stopped (finishFetch k r) = stopped r"
  using assms(1,2) unfolding i_def j_def
  by (auto simp: finishFetch_def views worker_defs map_removeAt map_update comp_def map_replicate_const)

lemma finishFetch_short:
  assumes "k < length (inflight r)"
    and "fwhole (inflight r ! k) \<noteq> Some True
            \<and> fposition (inflight r ! k) - pstart (chunkOf r (held r ! k)) < psize (chunkOf r (held r ! k))"
  shows "finishFetch k r = failFetch k r"
  using assms by (simp add: finishFetch_def Let_def held_def)

lemma respondFetch_views:
  assumes "k < length (inflight r)" "\<not> (whole \<and> pstart (chunkOf r (held r ! k)) \<noteq> 0)"
  shows "st (respondFetch k whole r) = st r" "held (respondFetch k whole r) = held r"
    "srcs (respondFetch k whole r) = srcs r" "conn (respondFetch k whole r) = conn r"
    "idle (respondFetch k whole r) = idle r" "threw (respondFetch k whole r) = threw r"
    "stopped (respondFetch k whole r) = stopped r"
  using assms by (auto simp: respondFetch_def views worker_defs intro!: map_list_update_id [where g = "\<lambda>x. x\<lparr>fwhole := _\<rparr>"])

lemma pieceArrives_views:
  assumes "k < length (inflight r)"
    and "\<not> (cancelling r \<or> pausing r
          \<or> min (int (length buffer)) ((if fwhole (inflight r ! k) = Some True then bytesTotal (plan r) - 1
              else pend (chunkOf r (held r ! k))) - fposition (inflight r ! k) + 1) \<le> 0)"
  shows "st (pieceArrives now k buffer r) = st r" "held (pieceArrives now k buffer r) = held r"
    "srcs (pieceArrives now k buffer r) = srcs r" "conn (pieceArrives now k buffer r) = conn r"
    "idle (pieceArrives now k buffer r) = idle r" "threw (pieceArrives now k buffer r) = threw r"
    "stopped (pieceArrives now k buffer r) = stopped r"
proof -
  let ?f = "inflight r ! k"
  let ?w = "min (int (length buffer)) ((if fwhole ?f = Some True then bytesTotal (plan r) - 1
      else pend (chunkOf r (held r ! k))) - fposition ?f + 1)"
  let ?r = "r\<lparr>workFile := writeAt (nat (fposition ?f)) (take (nat ?w) buffer) (workFile r),
      inflight := (inflight r)[k := ?f\<lparr>fposition := fposition ?f + ?w\<rparr>]\<rparr>"
  have step: "pieceArrives now k buffer r = account now (fsource ?f) ?w ?r"
    unfolding pieceArrives_def Let_def using assms by (simp only: held_def nth_map if_False)
  have fetches: "held ?r = held r" "srcs ?r = srcs r"
    using assms(1) by (auto simp: views map_update)
  show "st (pieceArrives now k buffer r) = st r" "held (pieceArrives now k buffer r) = held r"
    "srcs (pieceArrives now k buffer r) = srcs r" "conn (pieceArrives now k buffer r) = conn r"
    "idle (pieceArrives now k buffer r) = idle r" "threw (pieceArrives now k buffer r) = threw r"
    "stopped (pieceArrives now k buffer r) = stopped r"
    unfolding step account_views fetches by (simp_all add: st_def conn_def stopped_def)
qed

lemma firstPending_Some:
  "firstPending cs = Some i \<Longrightarrow> i < length cs \<and> pstate (cs ! i) = ChunkPending"
  by (induction cs arbitrary: i) (auto split: if_splits)

lemma firstPending_None: "firstPending cs = None \<longleftrightarrow> ChunkPending \<notin> set (map pstate cs)"
  by (induction cs) auto

lemma pickSource_Some:
  assumes "pickSource perSource r = Some j"
  shows "j < length (sources r)" "available perSource (sources r ! j)"
proof -
  let ?cand = "filter (\<lambda>j. available perSource (sources r ! j)) [0..<length (sources r)]"
  let ?key = "\<lambda>j. (rate (sources r ! j) \<noteq> 0, - rate (sources r ! j), connections (sources r ! j))"
  obtain js where "sort_key ?key ?cand = j # js"
    using assms by (auto simp: pickSource_def Let_def split: list.splits)
  then have "j \<in> set (sort_key ?key ?cand)" by simp
  then have "j \<in> set ?cand" by (simp only: set_sort)
  then show "j < length (sources r)" "available perSource (sources r ! j)" by auto
qed

subsection \<open>The invariant of the download loop\<close>

text \<open>
  No chunk is fetched by two connections at once; a chunk is marked active only while one
  holds it; a chunk given up on means a worker threw; every source's connection count is the
  number of its fetches; and while nothing was stopped and nothing threw, either somebody is
  still working or nothing is pending.
\<close>

definition dl_inv :: "RunningTransfer \<Rightarrow> bool" where
  "dl_inv r \<longleftrightarrow> distinct (held r)
     \<and> (\<forall>i \<in> set (held r). i < length (st r) \<and> st r ! i \<in> {ChunkActive, ChunkDone})
     \<and> (\<forall>i < length (st r). (st r ! i = ChunkActive \<longrightarrow> i \<in> set (held r)) \<and> st r ! i \<noteq> ChunkCorrupt
           \<and> (st r ! i = ChunkFailed \<longrightarrow> threw r))
     \<and> (\<forall>j \<in> set (srcs r). j < length (conn r))
     \<and> (\<forall>j < length (conn r). conn r ! j = int (count_list (srcs r) j))
     \<and> (stopped r \<or> threw r \<or> 0 < idle r \<or> held r \<noteq> [] \<or> ChunkPending \<notin> set (st r))"

lemma dl_inv_cong:
  assumes "st r' = st r" "held r' = held r" "srcs r' = srcs r" "conn r' = conn r"
    "idle r' = idle r" "threw r' = threw r" "stopped r' = stopped r"
  shows "dl_inv r' = dl_inv r"
  by (simp add: dl_inv_def assms)

lemma conn_release:
  assumes "\<forall>j < length cn. cn ! j = int (count_list xs j)" "k < length xs" "xs ! k < length cn"
  shows "\<forall>j < length cn. cn[xs ! k := max 0 (cn ! (xs ! k) - 1)] ! j = int (count_list (removeAt k xs) j)"
  using assms count_removeAt [OF assms(2)] count_list_pos [OF assms(2)]
  by (auto simp: nth_list_update of_nat_diff)

lemma held_lengths [simp]: "length (held r) = length (inflight r)" "length (srcs r) = length (inflight r)"
  by (simp_all add: views)

text \<open>Giving a fetch up, or completing it, keeps the invariant.\<close>

lemma dl_inv_release:
  assumes inv: "dl_inv r" and k: "k < length (inflight r)"
    and st': "\<And>i. i < length (st r) \<Longrightarrow> i \<noteq> held r ! k \<Longrightarrow> st r' ! i = st r ! i \<or> st r' ! i = ChunkDone"
    and len: "length (st r') = length (st r)"
    and own: "st r' ! (held r ! k) \<in> {ChunkPending, ChunkDone}
              \<or> st r' ! (held r ! k) = ChunkFailed \<and> threw r'"
    and "held r' = removeAt k (held r)" "srcs r' = removeAt k (srcs r)"
    and "conn r' = (conn r)[srcs r ! k := max 0 (conn r ! (srcs r ! k) - 1)]"
    and "threw r \<longrightarrow> threw r'" and "0 < idle r' \<or> threw r'"
  shows "dl_inv r'"
proof -
  note I = inv [unfolded dl_inv_def]
  have dist: "distinct (held r)" using I by blast
  have rest: "set (held r') = set (held r) - {held r ! k}"
    using set_removeAt_distinct [OF dist] k assms(6) by simp
  have mem: "held r ! k \<in> set (held r)" "srcs r ! k \<in> set (srcs r)" using k by simp_all
  have "distinct (held r')" using dist assms(6) by (simp add: distinct_removeAt)
  moreover have "\<forall>i \<in> set (held r'). i < length (st r') \<and> st r' ! i \<in> {ChunkActive, ChunkDone}"
    using I st' unfolding rest len by (metis DiffE insertCI insertE singletonD)
  moreover have "\<forall>i < length (st r'). (st r' ! i = ChunkActive \<longrightarrow> i \<in> set (held r'))
      \<and> st r' ! i \<noteq> ChunkCorrupt \<and> (st r' ! i = ChunkFailed \<longrightarrow> threw r')"
  proof (intro allI impI)
    fix i assume i: "i < length (st r')"
    show "(st r' ! i = ChunkActive \<longrightarrow> i \<in> set (held r'))
      \<and> st r' ! i \<noteq> ChunkCorrupt \<and> (st r' ! i = ChunkFailed \<longrightarrow> threw r')"
    proof (cases "i = held r ! k")
      case True then show ?thesis using own by auto
    next
      case False
      with st' [of i] i len I assms(9) show ?thesis unfolding rest by auto
    qed
  qed
  moreover have "\<forall>j \<in> set (srcs r'). j < length (conn r')"
    using I set_removeAt_subset [of k "srcs r"] assms(7,8) by auto
  moreover have "\<forall>j < length (conn r'). conn r' ! j = int (count_list (srcs r') j)"
    using conn_release [of "conn r" "srcs r" k] I mem k assms(7,8) by simp
  ultimately show ?thesis using assms(10) by (auto simp: dl_inv_def)
qed

lemma dl_inv_failFetch: "dl_inv r \<Longrightarrow> k < length (inflight r) \<Longrightarrow> dl_inv (failFetch k r)"
proof -
  assume inv: "dl_inv r" and k: "k < length (inflight r)"
  have mem: "held r ! k \<in> set (held r)" "srcs r ! k \<in> set (srcs r)" using k by simp_all
  then have b: "held r ! k < length (st r)" "srcs r ! k < length (conn r)"
    using inv unfolding dl_inv_def by blast+
  note v = failFetch_views [OF k]
  show ?thesis
    by (rule dl_inv_release [OF inv k]) (use b v in \<open>auto simp: nth_list_update\<close>)
qed

lemma dl_inv_finishFetch: "dl_inv r \<Longrightarrow> k < length (inflight r) \<Longrightarrow> dl_inv (finishFetch k r)"
proof -
  assume inv: "dl_inv r" and k: "k < length (inflight r)"
  let ?short = "fwhole (inflight r ! k) \<noteq> Some True
      \<and> fposition (inflight r ! k) - pstart (chunkOf r (held r ! k)) < psize (chunkOf r (held r ! k))"
  have mem: "held r ! k \<in> set (held r)" "srcs r ! k \<in> set (srcs r)" using k by simp_all
  then have b: "held r ! k < length (st r)" "srcs r ! k < length (conn r)"
    using inv unfolding dl_inv_def by blast+
  show ?thesis
  proof (cases ?short)
    case True
    then show ?thesis using finishFetch_short [OF k True] dl_inv_failFetch [OF inv k] by simp
  next
    case False
    note v = finishFetch_done_views [OF k False]
    show ?thesis
      by (rule dl_inv_release [OF inv k]) (use b v in \<open>auto simp: nth_list_update split: if_splits\<close>)
  qed
qed

lemma dl_inv_respondFetch:
  "dl_inv r \<Longrightarrow> k < length (inflight r) \<Longrightarrow> dl_inv (respondFetch k whole r)"
proof -
  assume inv: "dl_inv r" and k: "k < length (inflight r)"
  show ?thesis
  proof (cases "whole \<and> pstart (chunkOf r (held r ! k)) \<noteq> 0")
    case True
    then have "respondFetch k whole r = failFetch k r"
      using k by (simp add: respondFetch_def Let_def held_def)
    then show ?thesis using dl_inv_failFetch [OF inv k] by simp
  next
    case False
    from dl_inv_cong [OF respondFetch_views [OF k False]] inv show ?thesis by blast
  qed
qed

lemma dl_inv_pieceArrives:
  "dl_inv r \<Longrightarrow> k < length (inflight r) \<Longrightarrow> dl_inv (pieceArrives now k buffer r)"
proof -
  assume inv: "dl_inv r" and k: "k < length (inflight r)"
  let ?stop = "cancelling r \<or> pausing r
      \<or> min (int (length buffer)) ((if fwhole (inflight r ! k) = Some True then bytesTotal (plan r) - 1
          else pend (chunkOf r (held r ! k))) - fposition (inflight r ! k) + 1) \<le> 0"
  show ?thesis
  proof (cases ?stop)
    case True
    then have "pieceArrives now k buffer r = finishFetch k r"
      unfolding pieceArrives_def Let_def held_def using k by (simp only: nth_map if_True)
    then show ?thesis using dl_inv_finishFetch [OF inv k] by simp
  next
    case False
    from dl_inv_cong [OF pieceArrives_views [OF k False]] inv show ?thesis by blast
  qed
qed

text \<open>Taking a chunk from a source that has room.\<close>

lemma beginFetch_views:
  assumes "i < length (st r)" "j < length (sources r)"
  shows "st (beginFetch i j r) = st r" "held (beginFetch i j r) = held r @ [i]"
    "srcs (beginFetch i j r) = srcs r @ [j]" "conn (beginFetch i j r) = (conn r)[j := conn r ! j + 1]"
    "threw (beginFetch i j r) = threw r" "stopped (beginFetch i j r) = stopped r"
  using assms by (auto simp: beginFetch_def views worker_defs map_update)

lemma dl_inv_take:
  assumes inv: "dl_inv r" and i: "i < length (st r)" "st r ! i = ChunkPending" and j: "j < length (conn r)"
    and "st r' = (st r)[i := ChunkActive]" "held r' = held r @ [i]" "srcs r' = srcs r @ [j]"
    and "conn r' = (conn r)[j := conn r ! j + 1]" "threw r' = threw r"
  shows "dl_inv r'"
proof -
  note I = inv [unfolded dl_inv_def]
  have new: "i \<notin> set (held r)" using I i by force
  have "\<forall>m < length (conn r'). conn r' ! m = int (count_list (srcs r') m)"
    using I j assms(7,8) by (auto simp: nth_list_update)
  moreover have "\<forall>m < length (st r'). (st r' ! m = ChunkActive \<longrightarrow> m \<in> set (held r'))
      \<and> st r' ! m \<noteq> ChunkCorrupt \<and> (st r' ! m = ChunkFailed \<longrightarrow> threw r')"
    using I i assms(5,6,9) by (auto simp: nth_list_update)
  moreover have "\<forall>m \<in> set (held r'). m < length (st r') \<and> st r' ! m \<in> {ChunkActive, ChunkDone}"
    using I i assms(5,6) by (auto simp: nth_list_update)
  ultimately show ?thesis
    using I new j assms(6,7,8) by (auto simp: dl_inv_def)
qed

lemma dl_inv_workerTurn:
  assumes inv: "dl_inv r" and idle: "0 < idle r"
  shows "dl_inv (workerTurn perSource r)"
proof (cases "stopped r")
  case True
  then have "workerTurn perSource r = r\<lparr>idle := idle r - 1\<rparr>"
    by (simp add: workerTurn_def stopped_def)
  with True inv show ?thesis by (simp add: dl_inv_def)
next
  case False
  note I = inv [unfolded dl_inv_def]
  show ?thesis
  proof (cases "firstPending (chunks (plan r))")
    case None
    then have "workerTurn perSource r = r\<lparr>idle := idle r - 1\<rparr>"
      using False by (simp add: workerTurn_def nextChunk_def stopped_def)
    moreover have "ChunkPending \<notin> set (st r)" using None by (simp add: firstPending_None st_def)
    ultimately show ?thesis using inv by (simp add: dl_inv_def)
  next
    case (Some i)
    let ?r1 = "updChunk i (\<lambda>c. c\<lparr>pstate := ChunkActive\<rparr>) r"
    from firstPending_Some [OF Some] have i: "i < length (st r)" "st r ! i = ChunkPending"
      by (simp_all add: st_def)
    have st1: "st ?r1 = (st r)[i := ChunkActive]" "held ?r1 = held r" "srcs ?r1 = srcs r"
      "conn ?r1 = conn r" "idle ?r1 = idle r" "threw ?r1 = threw r" "sources ?r1 = sources r"
      by (simp_all add: views worker_defs map_update)
    show ?thesis
    proof (cases "pickSource perSource ?r1")
      case None
      let ?r2 = "updChunk i (\<lambda>c. c\<lparr>pstate := ChunkPending\<rparr>) ?r1"
      have v: "st ?r2 = st r" "held ?r2 = held r" "srcs ?r2 = srcs r" "conn ?r2 = conn r"
        "idle ?r2 = idle r" "threw ?r2 = threw r" "stopped ?r2 = stopped r"
        using i by (simp_all add: views worker_defs map_update)
           (metis list_update_id map_update st_def nth_map length_map)
      have "workerTurn perSource r = (if list_all (\<lambda>s. \<not> healthy s) (sources ?r2)
          then ?r2\<lparr>idle := idle ?r2 - 1, threw := True\<rparr> else ?r2)"
        using False Some None by (simp add: workerTurn_def nextChunk_def stopped_def Let_def)
      moreover have "dl_inv ?r2" using inv dl_inv_cong [OF v] by blast
      moreover from this have "dl_inv (?r2\<lparr>idle := idle ?r2 - 1, threw := True\<rparr>)"
        by (simp add: dl_inv_def)
      ultimately show ?thesis by presburger
    next
      case (Some j)
      have turn: "workerTurn perSource r = (beginFetch i j ?r1)\<lparr>idle := idle ?r1 - 1\<rparr>"
        using False Some \<open>firstPending (chunks (plan r)) = Some i\<close>
        by (simp add: workerTurn_def nextChunk_def stopped_def)
      from pickSource_Some(1) [OF Some] st1 have j: "j < length (sources ?r1)" "j < length (conn r)"
        by (simp_all add: conn_def)
      note b = beginFetch_views [of i ?r1 j, OF _ j(1)]
      show ?thesis
        unfolding turn
        by (rule dl_inv_take [OF inv i j(2)]) (use i b st1 in simp_all)
    qed
  qed
qed

lemma dl_inv_step:
  assumes "dl_inv r" "dl_step perSource e r = Some r'"
  shows "dl_inv r'"
proof (cases e)
  case WorkerTurn
  with assms show ?thesis by (auto intro: dl_inv_workerTurn split: if_splits)
next
  case (Respond k whole)
  with assms show ?thesis by (auto intro: dl_inv_respondFetch split: if_splits)
next
  case (Piece now k buffer)
  with assms show ?thesis by (auto intro: dl_inv_pieceArrives split: if_splits)
next
  case (StreamEnds k)
  with assms show ?thesis by (auto intro: dl_inv_finishFetch split: if_splits)
next
  case (FetchThrows k)
  with assms show ?thesis by (auto intro: dl_inv_failFetch split: if_splits)
qed (use assms in \<open>auto simp: dl_inv_def stopped_def\<close>)

lemma dl_inv_run: "dl_inv r \<Longrightarrow> dl_run perSource es r = Some r' \<Longrightarrow> dl_inv r'"
  by (rule dl.run_invariant [of es dl_inv perSource]) (auto intro: dl_inv_step)

subsection \<open>What the working file holds\<close>

text \<open>The working file agrees with the source from byte \<open>s\<close> up to, not including, byte \<open>e\<close>.\<close>

definition agree :: "byte list \<Rightarrow> byte list \<Rightarrow> int \<Rightarrow> int \<Rightarrow> bool" where
  "agree src f s e = (\<forall>b. s \<le> b \<and> b < e \<longrightarrow> nat b < length f \<and> f ! nat b = src ! nat b)"

text \<open>
  What is asked of a transport: the bytes it streams are those of the file from the position
  reached (\<open>fromSource\<close>), and a stream that carries the whole file does not end, nor is
  stopped, before the last byte (\<open>wholeStream\<close>).
\<close>

definition fromSource :: "byte list \<Rightarrow> RunningTransfer \<Rightarrow> dl_event \<Rightarrow> bool" where
  "fromSource src r e =
     (case e of
        Piece now k buffer \<Rightarrow>
          buffer = take (length buffer) (drop (nat (fposition (inflight r ! k))) src)
      | _ \<Rightarrow> True)"

definition wholeStream :: "RunningTransfer \<Rightarrow> dl_event \<Rightarrow> bool" where
  "wholeStream r e =
     (case e of
        Piece now k buffer \<Rightarrow>
          (fwhole (inflight r ! k) = Some True \<and> (pausing r \<or> cancelling r \<or> buffer = []) \<longrightarrow>
             fposition (inflight r ! k) = bytesTotal (plan r))
      | StreamEnds k \<Rightarrow>
          (fwhole (inflight r ! k) = Some True \<longrightarrow> fposition (inflight r ! k) = bytesTotal (plan r))
      | _ \<Rightarrow> True)"

fun faithful :: "byte list \<Rightarrow> int \<Rightarrow> dl_event list \<Rightarrow> RunningTransfer \<Rightarrow> bool" where
  "faithful src perSource [] r = True"
| "faithful src perSource (e # es) r =
     (fromSource src r e \<and> wholeStream r e
      \<and> (case dl_step perSource e r of None \<Rightarrow> True | Some r' \<Rightarrow> faithful src perSource es r'))"

lemma length_writeAt: "length (writeAt p bs f) = max (length f) (p + length bs)"
  by (auto simp: writeAt_def Let_def)

lemma nth_writeAt:
  assumes "i < length (writeAt p bs f)"
  shows "writeAt p bs f ! i =
    (if p \<le> i \<and> i < p + length bs then bs ! (i - p) else if i < length f then f ! i else 0)"
  using assms by (auto simp: writeAt_def Let_def nth_append min_def)

lemma prefix_length:
  assumes "bs = take (length bs) (drop p src)" "bs \<noteq> []"
  shows "p + length bs \<le> length src"
proof -
  have "length bs = min (length bs) (length src - p)" using arg_cong [OF assms(1), of length] by simp
  then have "length bs \<le> length src - p" by linarith
  with assms(2) show ?thesis by (cases bs) auto
qed

lemma prefix_nth:
  assumes "bs = take (length bs) (drop p src)" "p \<le> i" "i < p + length bs"
  shows "bs ! (i - p) = src ! i"
proof -
  have "bs \<noteq> []" using assms(2,3) by auto
  with prefix_length [OF assms(1)] have "p \<le> length src" by linarith
  then have "take (length bs) (drop p src) ! (i - p) = src ! i" using assms(2,3) by simp
  with assms(1) show ?thesis by metis
qed

lemma agree_writeAt:
  assumes "bs = take (length bs) (drop p src)" "agree src f s e" "0 \<le> s"
  shows "agree src (writeAt p bs f) s e"
proof -
  have "writeAt p bs f ! i = src ! i" if "i < length f" "f ! i = src ! i" for i
  proof (cases "p \<le> i \<and> i < p + length bs")
    case True
    then have "bs ! (i - p) = src ! i" using prefix_nth [OF assms(1)] by simp
    with True that show ?thesis by (simp add: nth_writeAt length_writeAt)
  next
    case False
    with that show ?thesis by (auto simp: nth_writeAt length_writeAt)
  qed
  with assms(2) show ?thesis by (auto simp: agree_def length_writeAt)
qed

lemma agree_extend:
  assumes "bs = take (length bs) (drop (nat p) src)" "agree src f s p" "0 \<le> s" "0 \<le> p"
  shows "agree src (writeAt (nat p) bs f) s (p + int (length bs))"
  unfolding agree_def
proof (intro allI impI)
  fix b assume b: "s \<le> b \<and> b < p + int (length bs)"
  show "nat b < length (writeAt (nat p) bs f) \<and> writeAt (nat p) bs f ! nat b = src ! nat b"
  proof (cases "b < p")
    case True
    with agree_writeAt [OF assms(1-3)] b show ?thesis by (simp add: agree_def)
  next
    case False
    with b assms(4) have i: "nat p \<le> nat b" "nat b < nat p + length bs" by linarith+
    then have "bs ! (nat b - nat p) = src ! nat b" using prefix_nth [OF assms(1)] by simp
    with i show ?thesis by (simp add: nth_writeAt length_writeAt)
  qed
qed

lemma agree_mono: "agree src f s e \<Longrightarrow> s \<le> s' \<Longrightarrow> e' \<le> e \<Longrightarrow> agree src f s' e'"
  by (auto simp: agree_def)

definition chunk_ok :: "byte list \<Rightarrow> int \<Rightarrow> byte list \<Rightarrow> PlannedChunk \<Rightarrow> bool" where
  "chunk_ok src n f c =
     (0 \<le> pstart c \<and> pstart c \<le> pend c \<and> psize c = pend c - pstart c + 1 \<and> pend c < n
      \<and> (pstate c = ChunkDone \<longrightarrow> agree src f (pstart c) (pend c + 1)))"

definition fetch_ok :: "byte list \<Rightarrow> int \<Rightarrow> byte list \<Rightarrow> PlannedChunk list \<Rightarrow> Fetch \<Rightarrow> bool" where
  "fetch_ok src n f cs ft =
     (fchunk ft < length cs \<and> 0 \<le> pstart (cs ! fchunk ft) \<and> pstart (cs ! fchunk ft) \<le> fposition ft
      \<and> agree src f (pstart (cs ! fchunk ft)) (fposition ft)
      \<and> fposition ft \<le> n
      \<and> (fwhole ft = Some True \<longrightarrow> pstart (cs ! fchunk ft) = 0))"

definition data_inv :: "byte list \<Rightarrow> RunningTransfer \<Rightarrow> bool" where
  "data_inv src r =
     (list_all (chunk_ok src (bytesTotal (plan r)) (workFile r)) (chunks (plan r))
      \<and> list_all (fetch_ok src (bytesTotal (plan r)) (workFile r) (chunks (plan r))) (inflight r)
      \<and> int (length (workFile r)) \<le> bytesTotal (plan r))"

lemma list_all_update: "list_all P xs \<Longrightarrow> P y \<Longrightarrow> list_all P (xs[i := y])"
  by (auto simp: list_all_iff dest: set_update_subset_insert [THEN subsetD])

lemma list_all_nth: "list_all P xs \<Longrightarrow> i < length xs \<Longrightarrow> P (xs ! i)"
  by (simp add: list_all_length)

lemma list_all_removeAt: "list_all P xs \<Longrightarrow> list_all P (removeAt k xs)"
  using set_removeAt_subset by (fastforce simp: list_all_iff)

text \<open>Changing the state of chunks without touching their ranges keeps every fetch as it was.\<close>

lemma fetch_ok_ranges:
  "map pstart cs' = map pstart cs \<Longrightarrow> fetch_ok src n f cs' = fetch_ok src n f cs"
proof (rule ext)
  assume same: "map pstart cs' = map pstart cs"
  then have len: "length cs' = length cs" by (rule map_eq_imp_length_eq)
  have "pstart (cs' ! i) = pstart (cs ! i)" if "i < length cs" for i
    using that len arg_cong [OF same, of "\<lambda>xs. xs ! i"] by simp
  with len show "fetch_ok src n f cs' ft = fetch_ok src n f cs ft" for ft
    by (auto simp: fetch_ok_def)
qed

lemma data_inv_change:
  assumes "data_inv src r"
    and "bytesTotal (plan r') = bytesTotal (plan r)" "workFile r' = workFile r"
    and "map pstart (chunks (plan r')) = map pstart (chunks (plan r))"
    and "list_all (chunk_ok src (bytesTotal (plan r)) (workFile r)) (chunks (plan r'))"
    and "list_all (fetch_ok src (bytesTotal (plan r)) (workFile r) (chunks (plan r))) (inflight r')"
  shows "data_inv src r'"
  using assms fetch_ok_ranges [OF assms(4)] by (simp add: data_inv_def)

lemma chunk_ok_undone:
  "chunk_ok src n f c \<Longrightarrow> s \<noteq> ChunkDone \<Longrightarrow> chunk_ok src n f (c\<lparr>pstate := s, pbytesDone := b\<rparr>)"
  "chunk_ok src n f c \<Longrightarrow> s \<noteq> ChunkDone \<Longrightarrow> chunk_ok src n f (c\<lparr>pstate := s\<rparr>)"
  "chunk_ok src n f c \<Longrightarrow> chunk_ok src n f (c\<lparr>pattempts := a, psourceServiceId := i\<rparr>)"
  by (simp_all add: chunk_ok_def)

lemma map_pstart_update:
  "pstart (g (cs ! i)) = pstart (cs ! i) \<Longrightarrow> map pstart (cs[i := g (cs ! i)]) = map pstart cs"
  by (simp add: map_update)

lemma data_inv_updChunk:
  assumes "data_inv src r" "i < length (chunks (plan r))"
    and "\<And>c. pstart (g c) = pstart c"
    and "chunk_ok src (bytesTotal (plan r)) (workFile r) (g (chunkOf r i))"
  shows "data_inv src (updChunk i g r)"
  by (rule data_inv_change [OF assms(1)])
    (use assms in \<open>auto simp: updChunk_def chunkOf_def data_inv_def map_update intro!: list_all_update\<close>)

lemma data_inv_frame:
  assumes "data_inv src r" "chunks (plan r') = chunks (plan r)" "bytesTotal (plan r') = bytesTotal (plan r)"
    and "workFile r' = workFile r" "inflight r' = inflight r"
  shows "data_inv src r'"
  using assms by (simp add: data_inv_def)

lemma data_inv_endFetch:
  assumes "data_inv src r"
  shows "data_inv src (endFetch k r)"
  using assms by (auto simp: data_inv_def endFetch_def updSource_def Let_def intro: list_all_removeAt)

lemma data_inv_chunkOf:
  "data_inv src r \<Longrightarrow> i < length (chunks (plan r)) \<Longrightarrow>
     chunk_ok src (bytesTotal (plan r)) (workFile r) (chunkOf r i)"
  by (simp add: data_inv_def chunkOf_def list_all_nth)

lemma data_inv_fetch:
  "data_inv src r \<Longrightarrow> k < length (inflight r) \<Longrightarrow>
     fetch_ok src (bytesTotal (plan r)) (workFile r) (chunks (plan r)) (inflight r ! k)"
  by (simp add: data_inv_def list_all_nth)

lemma updSource_frame [simp]:
  "chunks (plan (updSource j g r)) = chunks (plan r)" "plan (updSource j g r) = plan r"
  "workFile (updSource j g r) = workFile r" "inflight (updSource j g r) = inflight r"
  by (simp_all add: updSource_def)

lemma data_inv_failFetch:
  assumes inv: "data_inv src r" and k: "k < length (inflight r)"
  shows "data_inv src (failFetch k r)"
proof -
  define f where "f = inflight r ! k"
  define g where "g = (\<lambda>c :: PlannedChunk. c\<lparr>pstate := (if MAX_CHUNK_ATTEMPTS \<le> pattempts (chunkOf r (fchunk f))
      then ChunkFailed else ChunkPending), pbytesDone := 0\<rparr>)"
  let ?r1 = "updChunk (fchunk f) g r"
  have i: "fchunk f < length (chunks (plan r))"
    using data_inv_fetch [OF inv k] by (simp add: fetch_ok_def f_def)
  have "data_inv src ?r1"
    using data_inv_chunkOf [OF inv i]
    by (intro data_inv_updChunk [OF inv i]) (auto simp: g_def intro: chunk_ok_undone)
  then have "data_inv src (saveChunk (fchunk f) (updSource (fsource f)
      (\<lambda>s. s\<lparr>failures := failures s + 1, healthy := (if 3 \<le> failures s + 1 then False else healthy s)\<rparr>) ?r1))"
    by (rule data_inv_frame) (simp_all add: saveChunk_def)
  from data_inv_endFetch [OF this, of k] show ?thesis
    unfolding failFetch_def Let_def f_def g_def by (auto intro: data_inv_frame)
qed

lemma data_inv_finishFetch:
  assumes inv: "data_inv src r" and k: "k < length (inflight r)"
    and complete: "fwhole (inflight r ! k) = Some True \<Longrightarrow> fposition (inflight r ! k) = bytesTotal (plan r)"
  shows "data_inv src (finishFetch k r)"
proof -
  define f where "f = inflight r ! k"
  let ?c = "chunkOf r (fchunk f)"
  let ?n = "bytesTotal (plan r)"
  let ?done = "\<lambda>c. c\<lparr>pstate := ChunkDone, pbytesDone := psize c\<rparr>"
  have ft: "fetch_ok src ?n (workFile r) (chunks (plan r)) f"
    using data_inv_fetch [OF inv k] by (simp add: f_def)
  then have i: "fchunk f < length (chunks (plan r))" by (simp add: fetch_ok_def)
  note c = data_inv_chunkOf [OF inv i]
  show ?thesis
  proof (cases "fwhole f \<noteq> Some True \<and> fposition f - pstart ?c < psize ?c")
    case True
    then have "finishFetch k r = failFetch k r" by (simp add: finishFetch_def Let_def f_def)
    then show ?thesis using data_inv_failFetch [OF inv k] by simp
  next
    case False
    define r1 where "r1 = (if fwhole f = Some True
        then r\<lparr>plan := (plan r)\<lparr>chunks := map ?done (chunks (plan r))\<rparr>\<rparr> else updChunk (fchunk f) ?done r)"
    have "data_inv src r1"
    proof (cases "fwhole f = Some True")
      case True
      then have whole: "agree src (workFile r) 0 ?n" using ft complete by (auto simp: fetch_ok_def f_def)
      have "chunk_ok src ?n (workFile r) (?done c)" if "chunk_ok src ?n (workFile r) c" for c
        using that agree_mono [OF whole, of "pstart c" "pend c + 1"] by (simp add: chunk_ok_def)
      with inv True show ?thesis
        by (intro data_inv_change [OF inv]) (auto simp: r1_def data_inv_def comp_def list_all_iff)
    next
      case nw: False
      with False c ft have "agree src (workFile r) (pstart ?c) (pend ?c + 1)"
        by (auto simp: chunk_ok_def fetch_ok_def chunkOf_def intro: agree_mono)
      with c have "chunk_ok src ?n (workFile r) (?done ?c)" by (simp add: chunk_ok_def)
      then show ?thesis using nw by (auto simp: r1_def intro!: data_inv_updChunk [OF inv i])
    qed
    then have "data_inv src (saveChunk (fchunk f) (updSource (fsource f) (\<lambda>s. s\<lparr>failures := 0\<rparr>) r1))"
      by (rule data_inv_frame) (simp_all add: saveChunk_def)
    from data_inv_endFetch [OF this, of k] have "data_inv src
        ((endFetch k (saveChunk (fchunk f) (updSource (fsource f) (\<lambda>s. s\<lparr>failures := 0\<rparr>) r1)))\<lparr>idle := m\<rparr>)" for m
      by (rule data_inv_frame) simp_all
    moreover have "finishFetch k r = (let r3 = endFetch k (saveChunk (fchunk f)
        (updSource (fsource f) (\<lambda>s. s\<lparr>failures := 0\<rparr>) r1)) in r3\<lparr>idle := idle r3 + 1\<rparr>)"
      using False unfolding finishFetch_def Let_def f_def [symmetric] r1_def by (simp only: if_False)
    ultimately show ?thesis by (simp add: Let_def)
  qed
qed

lemma prefix_take:
  assumes "bs = take (length bs) xs"
  shows "take m bs = take (length (take m bs)) xs"
proof -
  have "take m bs = take m (take (length bs) xs)" using assms by (rule arg_cong)
  moreover have "length (take m bs) = min m (length bs)" by (simp add: min.commute)
  ultimately show ?thesis by (simp only: take_take)
qed

lemma data_inv_write:
  assumes inv: "data_inv src r" and k: "k < length (inflight r)"
    and bs: "bs = take (length bs) (drop (nat (fposition (inflight r ! k))) src)"
    and fits: "fposition (inflight r ! k) + int (length bs) \<le> bytesTotal (plan r)"
  shows "data_inv src (r\<lparr>workFile := writeAt (nat (fposition (inflight r ! k))) bs (workFile r),
           inflight := (inflight r)[k := (inflight r ! k)
             \<lparr>fposition := fposition (inflight r ! k) + int (length bs)\<rparr>]\<rparr>)"
proof -
  let ?f = "inflight r ! k"
  let ?n = "bytesTotal (plan r)"
  let ?w = "writeAt (nat (fposition ?f)) bs (workFile r)"
  have own: "fetch_ok src ?n (workFile r) (chunks (plan r)) ?f" by (rule data_inv_fetch [OF inv k])
  have cs: "chunk_ok src ?n ?w c" if "chunk_ok src ?n (workFile r) c" for c
    using that agree_writeAt [OF bs] by (simp add: chunk_ok_def)
  have fs: "fetch_ok src ?n ?w (chunks (plan r)) g" if "fetch_ok src ?n (workFile r) (chunks (plan r)) g" for g
    using that agree_writeAt [OF bs] by (simp add: fetch_ok_def)
  have "fetch_ok src ?n ?w (chunks (plan r)) (?f\<lparr>fposition := fposition ?f + int (length bs)\<rparr>)"
    using own fits agree_extend [OF bs, of "workFile r"] by (simp add: fetch_ok_def)
  moreover have "int (length ?w) \<le> ?n"
    using inv own fits by (simp add: length_writeAt data_inv_def fetch_ok_def) linarith
  moreover have "list_all (chunk_ok src ?n ?w) (chunks (plan r))"
    using inv cs by (auto simp: data_inv_def list_all_iff)
  moreover have "list_all (fetch_ok src ?n ?w (chunks (plan r))) (inflight r)"
    using inv fs by (auto simp: data_inv_def list_all_iff)
  ultimately show ?thesis by (auto simp: data_inv_def intro: list_all_update)
qed

lemma data_inv_pieceArrives:
  assumes inv: "data_inv src r" and k: "k < length (inflight r)"
    and "fromSource src r (Piece now k buffer)" "wholeStream r (Piece now k buffer)"
  shows "data_inv src (pieceArrives now k buffer r)"
proof -
  let ?f = "inflight r ! k"
  let ?c = "chunkOf r (fchunk ?f)"
  let ?limit = "if fwhole ?f = Some True then bytesTotal (plan r) - 1 else pend ?c"
  let ?w = "min (int (length buffer)) (?limit - fposition ?f + 1)"
  have ft: "fetch_ok src (bytesTotal (plan r)) (workFile r) (chunks (plan r)) ?f"
    by (rule data_inv_fetch [OF inv k])
  then have below: "?limit < bytesTotal (plan r)"
    using data_inv_chunkOf [OF inv, of "fchunk ?f"] by (auto simp: fetch_ok_def chunk_ok_def)
  show ?thesis
  proof (cases "cancelling r \<or> pausing r \<or> ?w \<le> 0")
    case True
    have "fposition ?f = bytesTotal (plan r)" if "fwhole ?f = Some True"
      using True that assms(4) ft by (cases "buffer = []") (auto simp: wholeStream_def fetch_ok_def min_def split: if_splits)
    then have "data_inv src (finishFetch k r)" by (rule data_inv_finishFetch [OF inv k])
    then show ?thesis unfolding pieceArrives_def Let_def using True by (simp only: if_True)
  next
    case False
    let ?bs = "take (nat ?w) buffer"
    have "?w \<le> int (length buffer)" "0 < ?w" using False by linarith+
    then have len: "int (length ?bs) = ?w" by simp
    have "?bs = take (length ?bs) (drop (nat (fposition ?f)) src)"
      using assms(3) unfolding fromSource_def dl_event.case by (rule prefix_take)
    from data_inv_write [OF inv k this] len below have
      "data_inv src (r\<lparr>workFile := writeAt (nat (fposition ?f)) ?bs (workFile r),
         inflight := (inflight r)[k := ?f\<lparr>fposition := fposition ?f + ?w\<rparr>]\<rparr>)"
      by (simp only: len)
    then have "data_inv src (account now (fsource ?f) ?w
        (r\<lparr>workFile := writeAt (nat (fposition ?f)) ?bs (workFile r),
           inflight := (inflight r)[k := ?f\<lparr>fposition := fposition ?f + ?w\<rparr>]\<rparr>))"
      by (rule data_inv_frame) (simp_all only: account_views)
    then show ?thesis unfolding pieceArrives_def Let_def using False by (simp only: if_False)
  qed
qed

lemma data_inv_respondFetch:
  assumes inv: "data_inv src r" and k: "k < length (inflight r)"
  shows "data_inv src (respondFetch k whole r)"
proof (cases "whole \<and> pstart (chunkOf r (fchunk (inflight r ! k))) \<noteq> 0")
  case True
  then show ?thesis using data_inv_failFetch [OF inv k] by (simp add: respondFetch_def Let_def)
next
  case False
  with data_inv_fetch [OF inv k] have
    "fetch_ok src (bytesTotal (plan r)) (workFile r) (chunks (plan r)) ((inflight r ! k)\<lparr>fwhole := Some whole\<rparr>)"
    by (auto simp: fetch_ok_def chunkOf_def)
  with False inv show ?thesis
    by (auto simp: respondFetch_def Let_def data_inv_def intro: list_all_update)
qed

lemma data_inv_beginFetch:
  assumes inv: "data_inv src r" and i: "i < length (chunks (plan r))"
  shows "data_inv src (beginFetch i j r)"
proof -
  let ?r1 = "updSource j (\<lambda>s. s\<lparr>connections := connections s + 1\<rparr>) r"
  let ?g = "\<lambda>c. c\<lparr>pattempts := pattempts c + 1, psourceServiceId := Some (serviceId (sources r ! j))\<rparr>"
  have inv1: "data_inv src ?r1" by (rule data_inv_frame [OF inv]) simp_all
  then have inv2: "data_inv src (updChunk i ?g ?r1)"
    using i data_inv_chunkOf [OF inv1, of i]
    by (intro data_inv_updChunk) (auto intro: chunk_ok_undone)
  have start: "pstart (chunks (plan (updChunk i ?g ?r1)) ! i) = pstart (chunkOf r i)"
    using i by (simp add: updChunk_def chunkOf_def)
  have "chunk_ok src (bytesTotal (plan r)) (workFile r) (chunkOf r i)"
    by (rule data_inv_chunkOf [OF inv i])
  then have "fetch_ok src (bytesTotal (plan r)) (workFile r) (chunks (plan (updChunk i ?g ?r1)))
      \<lparr>fchunk = i, fsource = j, fwhole = None, fposition = pstart (chunkOf r i)\<rparr>"
    using i start inv by (auto simp: fetch_ok_def agree_def chunk_ok_def updChunk_def data_inv_def)
  with inv2 show ?thesis
    by (auto simp: beginFetch_def Let_def data_inv_def updChunk_def)
qed

lemma data_inv_workerTurn:
  assumes inv: "data_inv src r"
  shows "data_inv src (workerTurn perSource r)"
proof -
  have frame: "data_inv src (q\<lparr>idle := m\<rparr>)" "data_inv src (q\<lparr>idle := m, threw := b\<rparr>)"
    if "data_inv src q" for q m b
    by (rule data_inv_frame [OF that]; simp)+
  show ?thesis
  proof (cases "firstPending (chunks (plan r))")
    case None
    with frame(1) [OF inv] show ?thesis by (simp add: workerTurn_def nextChunk_def)
  next
    case (Some i)
    note i = firstPending_Some [OF Some]
    let ?r1 = "updChunk i (\<lambda>c. c\<lparr>pstate := ChunkActive\<rparr>) r"
    have inv1: "data_inv src ?r1"
      using i data_inv_chunkOf [OF inv]
      by (intro data_inv_updChunk [OF inv]) (auto intro: chunk_ok_undone)
    have i1: "i < length (chunks (plan ?r1))" using i by (simp add: updChunk_def)
    have inv2: "data_inv src (updChunk i (\<lambda>c. c\<lparr>pstate := ChunkPending\<rparr>) ?r1)"
      using i1 data_inv_chunkOf [OF inv1]
      by (intro data_inv_updChunk [OF inv1]) (auto intro: chunk_ok_undone)
    show ?thesis
      using Some frame(1) [OF inv] frame(2) [OF inv2] inv2 frame(1) [OF data_inv_beginFetch [OF inv1 i1]]
      by (simp add: workerTurn_def nextChunk_def Let_def split: option.splits)
  qed
qed

lemma data_inv_step:
  assumes "data_inv src r" "fromSource src r e" "wholeStream r e" "dl_step perSource e r = Some r'"
  shows "data_inv src r'"
proof (cases e)
  case WorkerTurn
  with assms show ?thesis by (auto intro: data_inv_workerTurn split: if_splits)
next
  case (Respond k whole)
  with assms show ?thesis by (auto intro: data_inv_respondFetch split: if_splits)
next
  case (Piece now k buffer)
  with assms show ?thesis using data_inv_pieceArrives by (auto split: if_splits)
next
  case (StreamEnds k)
  with assms show ?thesis by (auto simp: wholeStream_def intro!: data_inv_finishFetch split: if_splits)
next
  case (FetchThrows k)
  with assms show ?thesis by (auto intro: data_inv_failFetch split: if_splits)
qed (use assms in \<open>auto simp: data_inv_def\<close>)

lemma data_inv_run:
  "data_inv src r \<Longrightarrow> faithful src perSource es r \<Longrightarrow> dl_run perSource es r = Some r' \<Longrightarrow> data_inv src r'"
  by (induction es arbitrary: r) (auto split: option.splits intro: data_inv_step)

text \<open>The geometry of the plan and its total never change while it runs.\<close>

text \<open>What a download never changes: the ranges, their hashes and the size of the file.\<close>

definition shape :: "RunningTransfer \<Rightarrow> (int \<times> int) list \<times> string option list \<times> int" where
  "shape r = (ranges (chunks (plan r)), map pchecksum (chunks (plan r)), bytesTotal (plan r))"

lemma shape_frame [simp]:
  "shape (updSource j g r) = shape r" "shape (r\<lparr>idle := m\<rparr>) = shape r" "shape (r\<lparr>threw := b\<rparr>) = shape r"
  "shape (saveChunk i r) = shape r" "shape (endFetch k r) = shape r" "shape (r\<lparr>inflight := fs\<rparr>) = shape r"
  "shape (account now j n r) = shape r" "shape (r\<lparr>workFile := f\<rparr>) = shape r"
  by (simp_all add: shape_def updSource_def saveChunk_def endFetch_def Let_def account_views)

lemma shape_updChunk [simp]:
  "(\<And>c. pstart (g c) = pstart c) \<Longrightarrow> (\<And>c. pend (g c) = pend c) \<Longrightarrow> (\<And>c. pchecksum (g c) = pchecksum c)
   \<Longrightarrow> shape (updChunk i g r) = shape r"
  using map_update_same [of "\<lambda>c. (pstart c, pend c)"] map_update_same [of pchecksum]
  by (simp add: shape_def updChunk_def ranges_def map_update)

lemma shape_mapDone [simp]:
  "shape (r\<lparr>plan := (plan r)\<lparr>chunks := map (\<lambda>c. c\<lparr>pstate := s c, pbytesDone := b c\<rparr>) (chunks (plan r))\<rparr>\<rparr>) = shape r"
  by (simp add: shape_def ranges_def comp_def)

lemma shape_ops [simp]:
  "shape (failFetch k r) = shape r" "shape (finishFetch k r) = shape r"
  "shape (respondFetch k w r) = shape r" "shape (beginFetch i j r) = shape r"
  "shape (pieceArrives now k buf r) = shape r" "shape (workerTurn p r) = shape r"
proof -
  show f: "shape (failFetch k r) = shape r" for k r by (simp add: failFetch_def Let_def)
  show g: "shape (finishFetch k r) = shape r" for k r by (simp add: finishFetch_def Let_def f)
  show "shape (respondFetch k w r) = shape r" by (simp add: respondFetch_def Let_def f)
  show b: "shape (beginFetch i j r) = shape r" for i j r by (simp add: beginFetch_def Let_def)
  show "shape (pieceArrives now k buf r) = shape r" by (simp add: pieceArrives_def Let_def g)
  show "shape (workerTurn p r) = shape r"
    by (simp add: workerTurn_def nextChunk_def Let_def b split: option.splits)
qed

lemma shape_step: "dl_step perSource e r = Some r' \<Longrightarrow> shape r' = shape r"
  by (cases e) (auto simp: split: if_splits, auto simp: shape_def)

lemma shape_run: "dl_run perSource es r = Some r' \<Longrightarrow> shape r' = shape r"
  by (rule dl.run_frame [of es perSource shape]) (auto dest: shape_step)

subsection \<open>Connection limits\<close>

definition within_cap :: "int \<Rightarrow> RuntimeSource \<Rightarrow> bool" where
  "within_cap perSource s = (connections s \<le> max 0 (min perSource (maxConnections s)))"

lemma within_cap_updSource:
  assumes "list_all (within_cap p) (sources r)"
    and "j < length (sources r) \<Longrightarrow> within_cap p (sources r ! j) \<Longrightarrow> within_cap p (g (sources r ! j))"
  shows "list_all (within_cap p) (sources (updSource j g r))"
  using assms by (cases "j < length (sources r)") (auto simp: updSource_def list_all_length nth_list_update)

lemma sources_frame [simp]:
  "sources (updChunk i g r) = sources r" "sources (saveChunk i r) = sources r"
  by (simp_all add: updChunk_def saveChunk_def)

lemma within_cap_endFetch:
  "list_all (within_cap p) (sources r) \<Longrightarrow> list_all (within_cap p) (sources (endFetch k r))"
  using within_cap_updSource [of p r "fsource (inflight r ! k)"]
  by (simp add: endFetch_def Let_def within_cap_def)

lemma within_cap_failFetch:
  "list_all (within_cap p) (sources r) \<Longrightarrow> list_all (within_cap p) (sources (failFetch k r))"
  by (auto simp: failFetch_def Let_def within_cap_def intro!: within_cap_endFetch within_cap_updSource)

lemma within_cap_finishFetch:
  "list_all (within_cap p) (sources r) \<Longrightarrow> list_all (within_cap p) (sources (finishFetch k r))"
  by (auto simp: finishFetch_def Let_def within_cap_def
      intro!: within_cap_endFetch within_cap_failFetch within_cap_updSource)

lemma within_cap_account:
  "list_all (within_cap p) (sources r) \<Longrightarrow> list_all (within_cap p) (sources (account now j n r))"
  by (auto simp: account_def accountSource_def Let_def within_cap_def intro!: within_cap_updSource)

lemma within_cap_beginFetch:
  "list_all (within_cap p) (sources r) \<Longrightarrow> available p (sources r ! j) \<Longrightarrow>
     list_all (within_cap p) (sources (beginFetch i j r))"
  by (auto simp: beginFetch_def Let_def within_cap_def available_def intro!: within_cap_updSource)

lemma within_cap_step:
  assumes cap: "list_all (within_cap p) (sources r)" and "dl_step p e r = Some r'"
  shows "list_all (within_cap p) (sources r')"
proof (cases e)
  case WorkerTurn
  with assms pickSource_Some(2) show ?thesis
    by (auto simp: workerTurn_def nextChunk_def Let_def intro!: within_cap_beginFetch
        split: if_splits option.splits) fastforce
next
  case (Respond k whole)
  with assms show ?thesis
    by (auto simp: respondFetch_def Let_def intro: within_cap_failFetch split: if_splits)
next
  case (Piece now k buffer)
  with assms show ?thesis
    by (auto simp: pieceArrives_def Let_def intro!: within_cap_finishFetch within_cap_account split: if_splits)
next
  case (StreamEnds k)
  with assms show ?thesis by (auto intro: within_cap_finishFetch split: if_splits)
next
  case (FetchThrows k)
  with assms show ?thesis by (auto intro: within_cap_failFetch split: if_splits)
qed (use assms in auto)

lemma within_cap_run:
  "list_all (within_cap p) (sources r) \<Longrightarrow> dl_run p es r = Some r' \<Longrightarrow> list_all (within_cap p) (sources r')"
  by (rule dl.run_invariant [of es "\<lambda>r. list_all (within_cap p) (sources r)" p]) (auto intro: within_cap_step)

subsection \<open>Properties of a download\<close>

text \<open>A transfer about to download: its plan is laid out or resumed, nothing is connected yet.\<close>

definition ready :: "RunningTransfer \<Rightarrow> bool" where
  "ready r = (list_all (\<lambda>c. pstate c = ChunkPending \<or> pstate c = ChunkDone) (chunks (plan r))
     \<and> list_all (\<lambda>s. connections s = 0) (sources r) \<and> \<not> threw r)"

lemma ready_inv: "ready r \<Longrightarrow> dl_inv (startDownload p r)"
proof -
  assume r: "ready r"
  have "1 \<le> workerCount p r" by (simp add: workerCount_def Let_def)
  moreover have "st r ! i \<noteq> ChunkActive \<and> st r ! i \<noteq> ChunkCorrupt \<and> st r ! i \<noteq> ChunkFailed"
    if "i < length (st r)" for i
    using r that by (auto simp: ready_def st_def list_all_length)
  moreover have "conn r ! j = 0" if "j < length (conn r)" for j
    using r that by (auto simp: ready_def conn_def list_all_length)
  ultimately show ?thesis
    by (auto simp: dl_inv_def startDownload_def views)
qed

lemma ready_cap: "ready r \<Longrightarrow> list_all (within_cap p) (sources (startDownload p r))"
  by (auto simp: ready_def startDownload_def within_cap_def list_all_iff)


lemma download_content:
  assumes "ready r0" "chunk_layout (ranges (chunks (plan r0))) (int (length src))"
    and "bytesTotal (plan r0) = int (length src)" "length (workFile r0) \<le> length src"
    and "list_all (\<lambda>c. psize c = pend c - pstart c + 1) (chunks (plan r0))"
    and "list_all (\<lambda>c. pstate c = ChunkDone \<longrightarrow> agree src (workFile r0) (pstart c) (pend c + 1))
           (chunks (plan r0))"
    and "dl_run perSource es (startDownload perSource r0) = Some r"
    and "faithful src perSource es (startDownload perSource r0)"
    and "downloadReturned r" "\<not> stopped r"
  shows "list_all (\<lambda>c. pstate c = ChunkDone) (chunks (plan r)) \<and> workFile r = src"
proof -
  let ?s = "startDownload perSource r0"
  have "chunk_ok src (int (length src)) (workFile r0) c" if "c \<in> set (chunks (plan r0))" for c
    using that assms(5,6) chunk_layout.range_bounds [OF assms(2), of "(pstart c, pend c)"]
    by (auto simp: chunk_ok_def list_all_iff ranges_def)
  then have "data_inv src ?s"
    using assms(3,4) by (auto simp: data_inv_def startDownload_def list_all_iff)
  from data_inv_run [OF this assms(8,7)] have data: "data_inv src r" .
  from ready_inv [OF assms(1)] have inv: "dl_inv r" using assms(7) by (rule dl_inv_run)
  have same: "ranges (chunks (plan r)) = ranges (chunks (plan r0))" "bytesTotal (plan r) = int (length src)"
    using shape_run [OF assms(7)] assms(3) by (simp_all add: shape_def startDownload_def)
  have "st r ! i = ChunkDone" if i: "i < length (st r)" for i
  proof -
    have ended: "held r = []" "\<not> threw r" "idle r = 0"
      using assms(9) by (simp_all add: downloadReturned_def held_def)
    with inv assms(10) have "ChunkPending \<notin> set (st r)" by (auto simp: dl_inv_def)
    with i have "st r ! i \<noteq> ChunkPending" by (metis nth_mem)
    moreover have "st r ! i \<noteq> ChunkActive" "st r ! i \<noteq> ChunkCorrupt" "st r ! i \<noteq> ChunkFailed"
      using inv i ended by (auto simp: dl_inv_def)
    ultimately show ?thesis by (cases "st r ! i") auto
  qed
  then have all: "list_all (\<lambda>c. pstate c = ChunkDone) (chunks (plan r))"
    by (simp add: st_def list_all_length)
  have "nat b < length (workFile r) \<and> workFile r ! nat b = src ! nat b" if "0 \<le> b" "b < int (length src)" for b
  proof -
    from chunk_layout.byte_in_exactly_one [OF assms(2) that] obtain i
      where i: "i < length (ranges (chunks (plan r)))" "in_range b (ranges (chunks (plan r)) ! i)"
      unfolding same by blast
    then have "chunk_ok src (int (length src)) (workFile r) (chunks (plan r) ! i)"
      using data same(2) by (simp add: data_inv_def ranges_def list_all_length)
    with all i show ?thesis
      by (auto simp: chunk_ok_def agree_def in_range_def ranges_def list_all_length)
  qed
  note byte = this
  have "length (workFile r) = length src"
  proof (rule antisym)
    show "length (workFile r) \<le> length src" using data same(2) by (simp add: data_inv_def)
    show "length src \<le> length (workFile r)" using byte [of "int (length src) - 1"] by (cases src) auto
  qed
  with byte have "workFile r = src" by (metis nat_int nth_equalityI of_nat_less_iff of_nat_0_le_iff)
  with all show ?thesis by blast
qed


text \<open>A two-chunk transfer from one source, with a stream that breaks once on the way.\<close>

definition demoChunk :: "int \<Rightarrow> PlannedChunk" where
  "demoChunk i = \<lparr>pindex = i, pstart = i, pend = i, psize = 1, pstate = ChunkPending, pbytesDone = 0,
     psourceServiceId = None, pattempts = 0, pchecksum = None\<rparr>"

definition demoTransfer :: RunningTransfer where
  "demoTransfer =
     \<lparr>plan = \<lparr>chunkSize = 1, chunksTotal = 2, chunks = [demoChunk 0, demoChunk 1], bytesTotal = 2,
              bytesDone = 0, resumed = False\<rparr>,
      sources = [\<lparr>serviceId = ''s'', maxConnections = 1, resumable = True, capTotalBytes = Some 2,
                  pieceChecksums = None, pieceSize = None, rate = 0, srcBytesDone = 0, connections = 0,
                  failures = 0, healthy = True, srcWindowBytes = 0, srcWindowStart = 0\<rparr>],
      workFile = [], rows = map insertPlanRow [demoChunk 0, demoChunk 1], rowBytesDone = 0,
      bytesSinceReport = 0, windowBytes = 0, windowStart = 0, runRate = 0, pausing = False,
      cancelling = False, draining = False, idle = 0, inflight = [], threw = False\<rparr>"

definition demoEvents :: "dl_event list" where
  "demoEvents = [WorkerTurn, FetchThrows 0, WorkerTurn, Respond 0 False, Piece 1 0 [7], StreamEnds 0,
     WorkerTurn, Respond 0 False, Piece 2 0 [8], StreamEnds 0, WorkerTurn]"

lemmas demo_defs = demoTransfer_def demoChunk_def demoEvents_def startDownload_def workerCount_def
  workerTurn_def nextChunk_def pickSource_def available_def beginFetch_def failFetch_def finishFetch_def
  respondFetch_def pieceArrives_def account_def accountSource_def worker_defs removeAt_def writeAt_def
  MAX_CHUNK_ATTEMPTS_def RATE_WINDOW_MS_def PROGRESS_INTERVAL_BYTES_def updateState_def insertPlanRow_def

lemma demo_run:
  "\<exists>r. dl_run 4 demoEvents (startDownload 4 demoTransfer) = Some r \<and> downloadReturned r \<and> \<not> stopped r"
  by (simp add: demo_defs downloadReturned_def stopped_def)

definition demoPrefix :: "dl_event list" where
  "demoPrefix = take 3 demoEvents"

lemma demo_half:
  "\<exists>r. dl_run 4 demoPrefix (startDownload 4 demoTransfer) = Some r \<and> map connections (sources r) = [1]"
  by (simp add: demo_defs demoPrefix_def)

lemma demo_faithful: "faithful [7, 8] 4 demoEvents (startDownload 4 demoTransfer)"
  by (simp add: demo_defs fromSource_def wholeStream_def)



text \<open>
  A pause is not free. When a piece of a ranged answer arrives after the flag is set, the
  loop stops and what was received of the chunk counts as a short chunk: the attempt is
  spent, and on the fifth attempt the chunk is given up on and the download throws instead
  of pausing.
\<close>

lemma pause_on_last_attempt_throws:
  assumes "k < length (inflight r)" "pausing r" "fwhole (inflight r ! k) = Some False"
    and "fposition (inflight r ! k) - pstart (chunkOf r (fchunk (inflight r ! k)))
         < psize (chunkOf r (fchunk (inflight r ! k)))"
    and "MAX_CHUNK_ATTEMPTS \<le> pattempts (chunkOf r (fchunk (inflight r ! k)))"
  shows "threw (pieceArrives now k buffer r)"
proof -
  have "pieceArrives now k buffer r = finishFetch k r"
    using assms(2) by (simp add: pieceArrives_def Let_def)
  also have "\<dots> = failFetch k r" using assms(3,4) by (simp add: finishFetch_def Let_def)
  finally show ?thesis using assms(5) by (simp add: failFetch_def Let_def)
qed

text \<open>The chunk in flight of the example above, on its fifth attempt, paused.\<close>

definition demoPaused :: RunningTransfer where
  "demoPaused = demoTransfer\<lparr>pausing := True,
     plan := (plan demoTransfer)\<lparr>chunks := [(demoChunk 0)\<lparr>pattempts := 5\<rparr>, demoChunk 1]\<rparr>,
     inflight := [\<lparr>fchunk = 0, fsource = 0, fwhole = Some False, fposition = 0\<rparr>]\<rparr>"

lemma pause_on_last_attempt_throws_witness:
  "pausing demoPaused \<and> threw (pieceArrives 3 0 [7] demoPaused)"
proof -
  have "pausing demoPaused" by (simp add: demoPaused_def)
  moreover have "threw (pieceArrives 3 0 [7] demoPaused)"
    by (rule pause_on_last_attempt_throws)
      (simp_all add: demoPaused_def demoTransfer_def demoChunk_def chunkOf_def MAX_CHUNK_ATTEMPTS_def)
  ultimately show ?thesis by blast
qed

text \<open>
  A source that answers with the whole file is not checked for length: pausing in the
  middle of such a stream, or the stream ending early, marks every chunk of the plan done,
  whatever was received, and writes the chunk's row as done.
\<close>

lemma paused_whole_stream_marks_all_done:
  assumes "k < length (inflight r)" "pausing r" "fwhole (inflight r ! k) = Some True"
    and "fchunk (inflight r ! k) < length (chunks (plan r))"
  shows "list_all (\<lambda>c. pstate c = ChunkDone) (chunks (plan (pieceArrives now k buffer r)))
     \<and> workFile (pieceArrives now k buffer r) = workFile r
     \<and> list_all (\<lambda>x. xindex x = pindex (chunkOf r (fchunk (inflight r ! k))) \<longrightarrow> xstate x = ChunkDone)
         (rows (pieceArrives now k buffer r))"
proof -
  have "pieceArrives now k buffer r = finishFetch k r"
    using assms(2) by (simp add: pieceArrives_def Let_def)
  then show ?thesis
    using assms(1,3,4)
    by (auto simp: finishFetch_def worker_defs list_all_iff updateState_def)
qed

lemma paused_whole_stream_marks_all_done_witness:
  "\<exists>r. pausing r \<and> workFile r = []
     \<and> list_all (\<lambda>c. pstate c = ChunkDone) (chunks (plan (pieceArrives 3 0 [7] r)))
     \<and> length (chunks (plan (pieceArrives 3 0 [7] r))) = 2"
proof -
  let ?r = "demoPaused\<lparr>inflight := [\<lparr>fchunk = 0, fsource = 0, fwhole = Some True, fposition = 0\<rparr>]\<rparr>"
  have "list_all (\<lambda>c. pstate c = ChunkDone) (chunks (plan (pieceArrives 3 0 [7] ?r)))"
    using paused_whole_stream_marks_all_done [of 0 ?r 3 "[7]"]
    by (simp add: demoPaused_def demoTransfer_def)
  moreover have "length (chunks (plan (pieceArrives 3 0 [7] ?r))) = 2"
    using arg_cong [OF shape_ops(5) [of 3 0 "[7]" ?r], of "\<lambda>x. length (fst x)"]
    by (simp add: shape_def ranges_def demoPaused_def)
  ultimately show ?thesis
    by (intro exI [of _ ?r]) (simp add: demoPaused_def demoTransfer_def)
qed

end
