(* ===== verification/Space.thy ===== *)
theory Space
  imports Mcs_Prelude
begin

text \<open>
  The two pure decisions taken before a run writes anything:
  \<open>packages/api/src/services/space.ts\<close> (does it fit on the disk, and who has to agree) and
  \<open>packages/api/src/services/run-ceiling.ts\<close> (how much of a plan one run may take).
  Byte counts are integers; a probe that fails answers \<open>None\<close>.
\<close>

subsection \<open>Free space\<close>

datatype SpaceVerdict = Fits | Tight | Insufficient | Unknown

record SpaceQuestion =
  libraryId :: string
  libraryName :: string
  localPath :: "string option"
  freeBytes :: "int option"
  requiredBytes :: int
  reserveBytes :: int

record TargetSpace = SpaceQuestion +
  remainingBytes :: "int option"
  verdict :: SpaceVerdict

text \<open>\<open>statfs\<close> answers the available blocks and their size, or throws.\<close>

definition freeBytesAt :: "(string \<Rightarrow> (int \<times> int) option) \<Rightarrow> string \<Rightarrow> int option" where
  "freeBytesAt probe path = (case probe path of None \<Rightarrow> None | Some (bavail, bsize) \<Rightarrow> Some (bavail * bsize))"

definition spaceVerdict :: "int option \<Rightarrow> int \<Rightarrow> int \<Rightarrow> SpaceVerdict" where
  "spaceVerdict free required reserve =
     (if required \<le> 0 then Fits
      else case free of
        None \<Rightarrow> Unknown
      | Some f \<Rightarrow>
          let remaining = f - required in
          if remaining < 0 then Insufficient else if remaining < reserve then Tight else Fits)"

definition targetSpace :: "SpaceQuestion \<Rightarrow> TargetSpace" where
  "targetSpace q =
     \<lparr>libraryId = libraryId q, libraryName = libraryName q, localPath = localPath q,
      freeBytes = freeBytes q, requiredBytes = requiredBytes q, reserveBytes = reserveBytes q,
      remainingBytes = (case freeBytes q of None \<Rightarrow> None | Some f \<Rightarrow> Some (f - requiredBytes q)),
      verdict = spaceVerdict (freeBytes q) (requiredBytes q) (reserveBytes q)\<rparr>"

definition refusesRun :: "TargetSpace list \<Rightarrow> bool" where
  "refusesRun targets = list_ex (\<lambda>target. verdict target = Insufficient) targets"

definition needsAcknowledgement :: "TargetSpace list \<Rightarrow> bool" where
  "needsAcknowledgement targets =
     list_ex (\<lambda>target. verdict target = Tight \<or> verdict target = Unknown) targets"

definition tooSmall :: "SpaceQuestion \<Rightarrow> bool" where
  "tooSmall q \<longleftrightarrow> 0 < requiredBytes q \<and> (case freeBytes q of None \<Rightarrow> False | Some f \<Rightarrow> f < requiredBytes q)"

definition roomy :: "SpaceQuestion \<Rightarrow> bool" where
  "roomy q \<longleftrightarrow> requiredBytes q \<le> 0 \<or>
     (case freeBytes q of None \<Rightarrow> False
      | Some f \<Rightarrow> requiredBytes q \<le> f \<and> reserveBytes q \<le> f - requiredBytes q)"

lemma verdict_cases:
  "verdict (targetSpace q) = Insufficient \<longleftrightarrow> tooSmall q"
  "verdict (targetSpace q) = Fits \<longleftrightarrow> roomy q"
  by (auto simp: targetSpace_def spaceVerdict_def tooSmall_def roomy_def Let_def split: option.splits if_splits)

text \<open>
  A run that is neither refused nor asked about leaves every destination it writes to with a
  measured free space, room for what it plans, and its reserve untouched (\<open>roomy\<close>); a run is
  refused exactly when some measured destination is smaller than what it has to take.
\<close>

lemma silent_run_keeps_reserve:
  "(\<not> refusesRun (map targetSpace qs) \<and> \<not> needsAcknowledgement (map targetSpace qs)) = list_all roomy qs
   \<and> refusesRun (map targetSpace qs) = list_ex tooSmall qs"
proof -
  have "verdict t = Fits \<longleftrightarrow> verdict t \<noteq> Insufficient \<and> \<not> (verdict t = Tight \<or> verdict t = Unknown)" for t
    by (cases "verdict t") auto
  then have "roomy q \<longleftrightarrow> \<not> tooSmall q \<and> \<not> (verdict (targetSpace q) = Tight \<or> verdict (targetSpace q) = Unknown)" for q
    using verdict_cases by blast
  then show ?thesis
    unfolding refusesRun_def needsAcknowledgement_def list_ex_iff list_all_iff set_map bex_simps
    using verdict_cases(1) by blast
qed

subsection \<open>Run ceilings\<close>

datatype SyncStopReason = MaxItems | MaxBytes | NotEnoughSpace | RunCancelled

record RunCeilings =
  maxItems :: "int option"
  maxBytes :: "int option"

record 'a CeilingResult =
  kept :: "'a list"
  dropped :: "'a list"
  stoppedBy :: "SyncStopReason option"

text \<open>The loop, with what it has kept so far and their bytes.\<close>

fun ceilingLoop ::
  "('a \<Rightarrow> int) \<Rightarrow> RunCeilings \<Rightarrow> 'a list \<Rightarrow> int \<Rightarrow> 'a list \<Rightarrow> 'a list \<times> SyncStopReason option" where
  "ceilingLoop bytesOf c keptSoFar bytes [] = (keptSoFar, None)"
| "ceilingLoop bytesOf c keptSoFar bytes (item # items) =
     (if (case maxItems c of None \<Rightarrow> False | Some m \<Rightarrow> m \<le> int (length keptSoFar)) then (keptSoFar, Some MaxItems)
      else if (case maxBytes c of None \<Rightarrow> False | Some m \<Rightarrow> m < bytes + bytesOf item) then (keptSoFar, Some MaxBytes)
      else ceilingLoop bytesOf c (keptSoFar @ [item]) (bytes + bytesOf item) items)"

definition applyCeilings :: "('a \<Rightarrow> int) \<Rightarrow> 'a list \<Rightarrow> RunCeilings \<Rightarrow> 'a CeilingResult" where
  "applyCeilings bytesOf items c =
     (case ceilingLoop bytesOf c [] 0 items of
        (k, reason) \<Rightarrow> \<lparr>kept = k, dropped = drop (length k) items, stoppedBy = reason\<rparr>)"

text \<open>The reference: whether the item at position \<open>i\<close> may still be taken, given those before it.\<close>

definition fits :: "('a \<Rightarrow> int) \<Rightarrow> RunCeilings \<Rightarrow> 'a list \<Rightarrow> nat \<Rightarrow> SyncStopReason option" where
  "fits bytesOf c items i =
     (if (case maxItems c of None \<Rightarrow> False | Some m \<Rightarrow> m \<le> int i) then Some MaxItems
      else if (case maxBytes c of None \<Rightarrow> False | Some m \<Rightarrow> m < sum_list (map bytesOf (take (Suc i) items)))
      then Some MaxBytes else None)"

lemma ceilingLoop_spec:
  assumes "ceilingLoop bytesOf c kept0 (sum_list (map bytesOf kept0)) items = (k, reason)"
    and "\<forall>i<length kept0. fits bytesOf c (kept0 @ items) i = None"
  shows "\<exists>n\<le>length (kept0 @ items). k = take n (kept0 @ items)
     \<and> (\<forall>i<n. fits bytesOf c (kept0 @ items) i = None)
     \<and> reason = (if n = length (kept0 @ items) then None else fits bytesOf c (kept0 @ items) n)
     \<and> (n < length (kept0 @ items) \<longrightarrow> reason \<noteq> None)"
  using assms
proof (induction items arbitrary: kept0)
  case Nil
  then show ?case by (intro exI [of _ "length kept0"]) auto
next
  case (Cons x xs)
  let ?all = "kept0 @ x # xs"
  have here: "take (Suc (length kept0)) ?all = kept0 @ [x]" by simp
  show ?case
  proof (cases "fits bytesOf c ?all (length kept0)")
    case None
    then have "ceilingLoop bytesOf c (kept0 @ [x]) (sum_list (map bytesOf (kept0 @ [x]))) xs = (k, reason)"
      using Cons.prems(1) unfolding fits_def here by (auto split: if_splits option.splits)
    moreover have "\<forall>i<length (kept0 @ [x]). fits bytesOf c ?all i = None"
      using Cons.prems(2) None by (auto simp: less_Suc_eq)
    moreover have "(kept0 @ [x]) @ xs = ?all" by simp
    ultimately show ?thesis using Cons.IH [of "kept0 @ [x]"] by (simp only:)
  next
    case (Some r)
    then have "k = kept0 \<and> reason = Some r"
      using Cons.prems(1) unfolding fits_def here by (auto split: if_splits option.splits)
    with Some Cons.prems(2) show ?thesis by (intro exI [of _ "length kept0"]) auto
  qed
qed

text \<open>
  A run takes the plan in order up to the first item a ceiling refuses, and nothing after
  it: what is kept and what is dropped together are the plan, every kept item was within both
  ceilings when it was taken, the first dropped one was not, and the reason given is the ceiling
  that refused it, the count before the bytes.
\<close>

lemma applyCeilings_longest_prefix:
  "\<exists>n\<le>length items.
     applyCeilings bytesOf items c =
       \<lparr>kept = take n items, dropped = drop n items,
        stoppedBy = (if n = length items then None else fits bytesOf c items n)\<rparr>
     \<and> list_all (\<lambda>i. fits bytesOf c items i = None) [0..<n]
     \<and> (n = length items) = (stoppedBy (applyCeilings bytesOf items c) = None)"
proof -
  obtain k reason where loop: "ceilingLoop bytesOf c [] 0 items = (k, reason)" by (cases "ceilingLoop bytesOf c [] 0 items")
  have spec: "\<exists>n\<le>length items. k = take n items \<and> (\<forall>i<n. fits bytesOf c items i = None)
     \<and> reason = (if n = length items then None else fits bytesOf c items n)
     \<and> (n < length items \<longrightarrow> reason \<noteq> None)"
    using ceilingLoop_spec [of bytesOf c "[]" items k reason, unfolded append_Nil] loop by simp
  then obtain n where n: "n \<le> length items" "k = take n items" "\<forall>i<n. fits bytesOf c items i = None"
    "reason = (if n = length items then None else fits bytesOf c items n)"
    "n < length items \<longrightarrow> reason \<noteq> None"
    by (elim exE conjE) (rule that)
  have app: "applyCeilings bytesOf items c = \<lparr>kept = take n items, dropped = drop n items, stoppedBy = reason\<rparr>"
    using loop n(1,2) by (simp add: applyCeilings_def min_def)
  show ?thesis
  proof (intro exI [of _ n] conjI)
    show "list_all (\<lambda>i. fits bytesOf c items i = None) [0..<n]" using n(3) by (simp add: list_all_iff)
    show "(n = length items) = (stoppedBy (applyCeilings bytesOf items c) = None)"
      using n(1,4,5) by (cases "n = length items") (simp_all add: app)
  qed (use n(1,4) app in simp_all)
qed

end
