(* ===== verification/File_Move.thy ===== *)
theory File_Move
  imports Space "HOL-Library.Sublist"
begin

text \<open>
  Moving a finished file into the library:
  \<open>packages/api/src/services/file-move.service.ts\<close>.

  The filesystem is a map from paths to nodes. What the operating system answers during one
  call is a record (\<open>MoveEnv\<close>): every call of the service that can fail may fail with any errno,
  the abort signal may fire before the move, during the hold or between two pieces of the copy,
  the read stream delivers pieces of any sizes, and a write error may leave any prefix of the
  accepted bytes on the disk. The result is the service's own: an outcome, or the exception.
  Rates, progress callbacks and log lines are left out.
\<close>

subsection \<open>Data\<close>

text \<open>A link keeps the path it was made for and whether it is spelled absolute or relative to its directory.\<close>

datatype LinkTarget = Absolute string | RelativeTo string string

datatype Node = File "byte list" | Text string | Link LinkTarget

type_synonym FS = "string \<rightharpoonup> Node"

type_synonym errno = string

datatype FileMoveOutcome = Renamed | Copied | MovePaused | MoveCancelled

datatype MoveKey = DestinationFull | General

datatype MoveError = FileMoveError MoveKey | Errno errno

datatype MoveResult =
    Moved (outcome: FileMoveOutcome) (bytesCopied: nat) (partialPath: "string option")
  | Raised MoveError

record FileMoveRequest =
  source :: string
  destination :: string
  reserve :: int
  keepSource :: bool
  linkSource :: bool
  absoluteLink :: bool

datatype StopReason = PauseReason | CancelReason

datatype CopyEvent =
    Piece "byte list" bool
  | WriteFailed errno
  | ReadFailed errno

record MoveEnv =
  stopReason :: StopReason
  stopStart :: bool
  placingHold :: bool
  stopHold :: bool
  mkdirError :: "errno option"
  renameError :: "errno option"
  sourceStatError :: "errno option"
  resumeStatFails :: bool
  unlinkPartialFails :: bool
  probe :: "(int \<times> int) option"
  openError :: "errno option"
  script :: "CopyEvent list"
  flushError :: "errno option"
  landed :: nat
  commitStatFails :: bool
  commitRenameError :: "errno option"
  unlinkSourceFails :: bool
  lstatFails :: bool
  symlinkFails :: bool
  linkRenameFails :: bool
  unlinkLinkFails :: bool
  readNoteFails :: bool
  writeNoteFails :: bool

definition PARTIAL_SUFFIX :: string where "PARTIAL_SUFFIX = ''.mcs-part''"
definition LINK_SUFFIX :: string where "LINK_SUFFIX = ''.mcs-link''"
definition WITNESS_SUFFIX :: string where "WITNESS_SUFFIX = ''.src''"
definition WITNESS_HEADER :: string where "WITNESS_HEADER = ''# mcs: paths that link to this file''"

definition partialOf :: "FileMoveRequest \<Rightarrow> string" where
  "partialOf r = destination r @ PARTIAL_SUFFIX"

subsection \<open>The filesystem calls\<close>

fun pointsAt :: "LinkTarget \<Rightarrow> string" where
  "pointsAt (Absolute p) = p"
| "pointsAt (RelativeTo dir p) = p"

text \<open>The bytes read through a path: a link is followed.\<close>

definition content :: "FS \<Rightarrow> string \<Rightarrow> byte list option" where
  "content fs p =
     (case fs p of
        Some (File b) \<Rightarrow> Some b
      | Some (Link t) \<Rightarrow> (case fs (pointsAt t) of Some (File b) \<Rightarrow> Some b | _ \<Rightarrow> None)
      | _ \<Rightarrow> None)"

definition rename :: "errno option \<Rightarrow> string \<Rightarrow> string \<Rightarrow> FS \<Rightarrow> errno + FS" where
  "rename err from to fs =
     (case err of
        Some e \<Rightarrow> Inl e
      | None \<Rightarrow> if fs from = None then Inl ''ENOENT''
                else Inr (if from = to then fs else (fs(to := fs from))(from := None)))"

definition unlink :: "bool \<Rightarrow> string \<Rightarrow> FS \<Rightarrow> FS" where
  "unlink fails p fs = (if fails then fs else fs(p := None))"

definition sizeOf :: "FS \<Rightarrow> string \<Rightarrow> nat option" where
  "sizeOf fs p = map_option length (content fs p)"

subsection \<open>Stopping\<close>

definition aborted :: "MoveEnv \<Rightarrow> string \<Rightarrow> nat \<Rightarrow> FS \<Rightarrow> MoveResult \<times> FS" where
  "aborted env part copied fs =
     (if stopReason env \<noteq> CancelReason then (Moved MovePaused copied (Some part), fs)
      else (Moved MoveCancelled copied None, unlink (unlinkPartialFails env) part fs))"

subsection \<open>The note beside a linked file\<close>

definition dirname :: "string \<Rightarrow> string" where
  "dirname p =
     (let cut = dropWhile (\<lambda>c. c \<noteq> CHR ''/'') (dropWhile (\<lambda>c. c = CHR ''/'') (rev p)) in
      if cut = [] then (if take 1 p = ''/'' then ''/'' else ''.'')
      else if tl cut = [] then ''/'' else rev (tl cut))"

definition basename :: "string \<Rightarrow> string" where
  "basename p = rev (takeWhile (\<lambda>c. c \<noteq> CHR ''/'') (dropWhile (\<lambda>c. c = CHR ''/'') (rev p)))"

definition joinPath :: "string \<Rightarrow> string \<Rightarrow> string" where
  "joinPath dir name = (if dir = ''/'' then dir @ name else dir @ ''/'' @ name)"

definition witnessPath :: "string \<Rightarrow> string" where
  "witnessPath dest = joinPath (dirname dest) (''.'' @ basename dest @ WITNESS_SUFFIX)"

definition noteLines :: "string \<Rightarrow> string list" where
  "noteLines existing = filter (\<lambda>line. line \<noteq> []) (map js_trim (splitOn (CHR 0x0A) existing))"

definition noteText :: "string \<Rightarrow> string \<Rightarrow> string" where
  "noteText existing link =
     joinWith [CHR 0x0A] (WITNESS_HEADER # filter (\<lambda>line. line \<noteq> WITNESS_HEADER) (noteLines existing) @ [link])
       @ [CHR 0x0A]"

definition witness :: "MoveEnv \<Rightarrow> string \<Rightarrow> string \<Rightarrow> FS \<Rightarrow> FS" where
  "witness env dest link fs =
     (let path = witnessPath dest;
          existing = (if readNoteFails env then [] else case fs path of Some (Text s) \<Rightarrow> s | _ \<Rightarrow> []) in
      if link \<in> set (noteLines existing) \<or> writeNoteFails env then fs
      else fs(path \<mapsto> Text (noteText existing link)))"

subsection \<open>The link\<close>

definition linkTarget :: "FileMoveRequest \<Rightarrow> LinkTarget" where
  "linkTarget r = (if absoluteLink r then Absolute (destination r)
                   else RelativeTo (dirname (source r)) (destination r))"

definition isLink :: "FS \<Rightarrow> string \<Rightarrow> bool" where
  "isLink fs p = (case fs p of Some (Link t) \<Rightarrow> True | _ \<Rightarrow> False)"

definition link :: "MoveEnv \<Rightarrow> FileMoveRequest \<Rightarrow> FS \<Rightarrow> FS" where
  "link env r fs =
     (let tmp = source r @ LINK_SUFFIX; swept = unlink (unlinkLinkFails env) tmp in
      if lstatFails env \<or> fs (source r) = None then swept fs
      else if isLink fs (source r) then fs
      else if symlinkFails env \<or> fs tmp \<noteq> None then swept fs
      else let fs1 = fs(tmp \<mapsto> Link (linkTarget r)) in
        case rename (if linkRenameFails env then Some ''EIO'' else None) tmp (source r) fs1 of
          Inl e \<Rightarrow> swept fs1
        | Inr fs2 \<Rightarrow> witness env (destination r) (source r) fs2)"

subsection \<open>Commit\<close>

definition commit :: "MoveEnv \<Rightarrow> FileMoveRequest \<Rightarrow> nat \<Rightarrow> nat \<Rightarrow> FS \<Rightarrow> MoveResult \<times> FS" where
  "commit env r whole copied fs =
     (let part = partialOf r;
          written = (if commitStatFails env then None else sizeOf fs part) in
      if written \<noteq> Some whole
      then (Raised (FileMoveError General),
            if (case written of None \<Rightarrow> False | Some w \<Rightarrow> whole < w)
            then unlink (unlinkPartialFails env) part fs else fs)
      else case rename (commitRenameError env) part (destination r) fs of
             Inl e \<Rightarrow> (Raised (Errno e), fs)
           | Inr fs1 \<Rightarrow>
               (Moved Copied copied None,
                if \<not> keepSource r then unlink (unlinkSourceFails env) (source r) fs1
                else if linkSource r then link env r fs1
                else fs1))"

subsection \<open>The copy\<close>

text \<open>The accepted bytes, whether the loop was stopped, and the failure it saw.\<close>

fun copyLoop :: "CopyEvent list \<Rightarrow> byte list \<Rightarrow> byte list \<times> bool \<times> errno option" where
  "copyLoop [] acc = (acc, False, None)"
| "copyLoop (Piece chunk stopped # es) acc = (if stopped then (acc, True, None) else copyLoop es (acc @ chunk))"
| "copyLoop (WriteFailed e # es) acc = (acc, False, Some e)"
| "copyLoop (ReadFailed e # es) acc = (acc, False, Some e)"

fun writeFailed :: "CopyEvent list \<Rightarrow> bool" where
  "writeFailed [] = False"
| "writeFailed (Piece chunk stopped # es) = (\<not> stopped \<and> writeFailed es)"
| "writeFailed (WriteFailed e # es) = True"
| "writeFailed (ReadFailed e # es) = False"

definition translate :: "errno \<Rightarrow> MoveError" where
  "translate e = (if e = ''ENOSPC'' then FileMoveError DestinationFull else Errno e)"

text \<open>
  The end of \<open>_copy\<close>: what reached the disk (the partial is opened for append), and the failure,
  if any. A stream that could not be opened writes nothing.
\<close>

definition copy ::
  "MoveEnv \<Rightarrow> FileMoveRequest \<Rightarrow> FS \<Rightarrow> (MoveError + bool \<times> nat) \<times> FS" where
  "copy env r fs =
     (case copyLoop (script env) [] of
        (acc, stopped, seen) \<Rightarrow>
          let failure = (case openError env of Some e \<Rightarrow> Some e | None \<Rightarrow>
                           case seen of Some e \<Rightarrow> Some e | None \<Rightarrow> flushError env);
              onDisk = (if writeFailed (script env) \<or> flushError env \<noteq> None then take (landed env) acc else acc);
              old = (case fs (partialOf r) of Some (File b) \<Rightarrow> b | _ \<Rightarrow> []);
              fs1 = (if openError env \<noteq> None then fs else fs(partialOf r \<mapsto> File (old @ onDisk)))
          in (case failure of Some e \<Rightarrow> Inl (translate e) | None \<Rightarrow> Inr (stopped, length acc), fs1))"

subsection \<open>The cross-device path\<close>

definition resumeOffset :: "MoveEnv \<Rightarrow> string \<Rightarrow> nat \<Rightarrow> FS \<Rightarrow> nat \<times> FS" where
  "resumeOffset env part whole fs =
     (let have = (if resumeStatFails env then 0 else case sizeOf fs part of None \<Rightarrow> 0 | Some n \<Rightarrow> n) in
      if whole < have then (0, unlink (unlinkPartialFails env) part fs) else (have, fs))"

definition cannotFit :: "MoveEnv \<Rightarrow> FileMoveRequest \<Rightarrow> nat \<Rightarrow> bool" where
  "cannotFit env r required =
     (spaceVerdict (freeBytesAt (\<lambda>path. probe env) (dirname (destination r))) (int required) (reserve r) = Insufficient)"

definition stream :: "MoveEnv \<Rightarrow> FileMoveRequest \<Rightarrow> FS \<Rightarrow> MoveResult \<times> FS" where
  "stream env r fs =
     (case (sourceStatError env, sizeOf fs (source r)) of
        (Some e, _) \<Rightarrow> (Raised (Errno e), fs)
      | (None, None) \<Rightarrow> (Raised (Errno ''ENOENT''), fs)
      | (None, Some whole) \<Rightarrow>
          case resumeOffset env (partialOf r) whole fs of
            (offset, fs1) \<Rightarrow>
              if whole \<le> offset \<and> 0 < whole then commit env r whole 0 fs1
              else if cannotFit env r (whole - offset) then (Raised (FileMoveError DestinationFull), fs1)
              else case copy env r fs1 of
                (Inl e, fs2) \<Rightarrow> (Raised e, fs2)
              | (Inr (stopped, copied), fs2) \<Rightarrow>
                  if stopped then aborted env (partialOf r) copied fs2
                  else commit env r whole copied fs2)"

definition move :: "MoveEnv \<Rightarrow> FileMoveRequest \<Rightarrow> FS \<Rightarrow> MoveResult \<times> FS" where
  "move env r fs =
     (if stopStart env \<or> (placingHold env \<and> stopHold env) then aborted env (partialOf r) 0 fs
      else case mkdirError env of
        Some e \<Rightarrow> (Raised (Errno e), fs)
      | None \<Rightarrow>
          if keepSource r then stream env r fs
          else case rename (renameError env) (source r) (destination r) fs of
            Inr fs1 \<Rightarrow> (Moved Renamed 0 None, fs1)
          | Inl e \<Rightarrow> if e \<noteq> ''EXDEV'' then (Raised (Errno e), fs) else stream env r fs)"

subsection \<open>What a move relies on, and what it keeps\<close>

text \<open>
  The read stream of the source, from the offset it was opened at: the pieces it delivers are
  consecutive, and it ends by itself only at the end of the file.
\<close>

fun delivers :: "byte list \<Rightarrow> CopyEvent list \<Rightarrow> bool" where
  "delivers rest [] \<longleftrightarrow> rest = []"
| "delivers rest (Piece chunk stopped # es) \<longleftrightarrow>
     prefix chunk rest \<and> (stopped \<or> delivers (drop (length chunk) rest) es)"
| "delivers rest (WriteFailed e # es) \<longleftrightarrow> True"
| "delivers rest (ReadFailed e # es) \<longleftrightarrow> True"

definition readOffset :: "MoveEnv \<Rightarrow> FileMoveRequest \<Rightarrow> byte list \<Rightarrow> FS \<Rightarrow> nat" where
  "readOffset env r src fs = fst (resumeOffset env (partialOf r) (length src) fs)"

text \<open>The paths a move touches are different paths.\<close>

definition separate :: "FileMoveRequest \<Rightarrow> bool" where
  "separate r = distinct [source r, destination r, partialOf r, source r @ LINK_SUFFIX, witnessPath (destination r)]"

text \<open>A partial this service can resume from: absent, a prefix of the source, or too long to be one.\<close>

definition resumable :: "byte list \<Rightarrow> Node option \<Rightarrow> bool" where
  "resumable src node \<longleftrightarrow>
     (case node of None \<Rightarrow> True | Some (File b) \<Rightarrow> prefix b src \<or> length src < length b | _ \<Rightarrow> False)"

lemma copyLoop_prefix:
  "delivers rest es \<Longrightarrow> copyLoop es acc = (out, stopped, seen) \<Longrightarrow>
     \<exists>more. out = acc @ more \<and> prefix more rest \<and> (\<not> stopped \<and> seen = None \<longrightarrow> more = rest)"
proof (induction es arbitrary: rest acc)
  case (Cons e es)
  show ?case
  proof (cases e)
    case (Piece c st)
    show ?thesis
    proof (cases st)
      case True
      with Piece Cons.prems show ?thesis by auto
    next
      case False
      then obtain more where more: "out = (acc @ c) @ more" "prefix more (drop (length c) rest)"
        "\<not> stopped \<and> seen = None \<longrightarrow> more = drop (length c) rest"
        using Cons.IH [of "drop (length c) rest" "acc @ c"] Cons.prems Piece by auto
      have "rest = c @ drop (length c) rest" using Cons.prems(1) Piece by (auto simp: prefix_def)
      then show ?thesis using more by (intro exI [of _ "c @ more"]) (metis append.assoc same_prefix_prefix)
    qed
  qed (use Cons.prems in auto)
qed auto

lemma writeFailed_seen: "copyLoop es acc = (out, stopped, None) \<Longrightarrow> \<not> writeFailed es"
  by (induction es acc rule: copyLoop.induct) (auto split: if_splits)

lemma separate_facts:
  assumes "separate r"
  shows "source r \<noteq> destination r" "source r \<noteq> partialOf r" "destination r \<noteq> partialOf r"
    "source r \<noteq> source r @ LINK_SUFFIX" "destination r \<noteq> source r @ LINK_SUFFIX"
    "partialOf r \<noteq> source r @ LINK_SUFFIX" "source r \<noteq> witnessPath (destination r)"
    "destination r \<noteq> witnessPath (destination r)" "partialOf r \<noteq> witnessPath (destination r)"
    "source r @ LINK_SUFFIX \<noteq> witnessPath (destination r)"
  using assms by (auto simp: separate_def)

text \<open>The link step keeps the source readable, the destination and the partial as they are.\<close>

lemma link_safe:
  assumes "separate r" and "fs (source r) = Some (File src)" and "fs (destination r) = Some (File src)"
  shows "content (link env r fs) (source r) = Some src"
    and "link env r fs (destination r) = Some (File src)"
    and "link env r fs (partialOf r) = fs (partialOf r)"
  using assms(2,3) separate_facts [OF assms(1)]
  by (auto simp: link_def witness_def rename_def unlink_def linkTarget_def content_def isLink_def Let_def
      split: option.split)

definition safe :: "byte list \<Rightarrow> FileMoveRequest \<Rightarrow> FS \<Rightarrow> FS \<Rightarrow> bool" where
  "safe src r fs fs' \<longleftrightarrow>
     (content fs' (source r) = Some src \<or> fs' (destination r) = Some (File src))
     \<and> (keepSource r \<longrightarrow> content fs' (source r) = Some src)
     \<and> (fs' (destination r) = fs (destination r) \<or> fs' (destination r) = Some (File src))
     \<and> resumable src (fs' (partialOf r))"

definition arrived :: "MoveResult \<Rightarrow> bool" where
  "arrived res = (case res of Moved out n p \<Rightarrow> out = Renamed \<or> out = Copied | Raised e \<Rightarrow> False)"

text \<open>
  What every stage of a move satisfies: it is safe, a file that arrived is the whole source,
  and unless it arrived the source is still where it was.
\<close>

definition stage_ok :: "byte list \<Rightarrow> FileMoveRequest \<Rightarrow> FS \<Rightarrow> MoveResult \<times> FS \<Rightarrow> bool" where
  "stage_ok src r fs p \<longleftrightarrow>
     safe src r fs (snd p)
     \<and> (if arrived (fst p) then snd p (destination r) = Some (File src)
        else snd p (source r) = Some (File src) \<and> snd p (destination r) = fs (destination r))"

lemma resumable_None [simp]: "resumable src None" by (simp add: resumable_def)

lemma resumable_whole:
  "resumable src node \<Longrightarrow> node = Some n \<Longrightarrow> (case n of File b \<Rightarrow> length b = length src | _ \<Rightarrow> False) \<Longrightarrow> n = File src"
  by (auto simp: resumable_def prefix_def split: Node.splits)

lemma stage_ok_unchanged:
  assumes "\<not> arrived res" "fs' (source r) = Some (File src)" "fs' (destination r) = fs (destination r)"
    "resumable src (fs' (partialOf r))"
  shows "stage_ok src r fs (res, fs')"
  using assms by (simp add: stage_ok_def safe_def content_def)

lemma aborted_ok:
  assumes "separate r" "fs (source r) = Some (File src)" "resumable src (fs (partialOf r))" "fs (destination r) = d"
  shows "stage_ok src r (fs0(destination r := d)) (aborted env (partialOf r) n fs)"
  using assms separate_facts [OF assms(1)]
  by (auto simp: aborted_def arrived_def unlink_def intro!: stage_ok_unchanged)

lemma sizeOf_partial:
  assumes "resumable src (fs p)" and "sizeOf fs p = Some (length src)"
  shows "fs p = Some (File src)"
  using assms by (auto simp: sizeOf_def content_def resumable_def prefix_def split: option.splits Node.splits)

lemma commit_ok:
  assumes sep: "separate r" and s: "fs (source r) = Some (File src)" and p: "resumable src (fs (partialOf r))"
    and d: "fs (destination r) = fs0 (destination r)"
  shows "stage_ok src r fs0 (commit env r (length src) n fs)"
proof (cases "(if commitStatFails env then None else sizeOf fs (partialOf r)) = Some (length src)")
  case False
  then show ?thesis
    using assms separate_facts [OF sep]
    by (auto simp: commit_def Let_def unlink_def arrived_def intro!: stage_ok_unchanged)
next
  case True
  then have part: "fs (partialOf r) = Some (File src)" using sizeOf_partial [of src fs "partialOf r"] p by (auto split: if_splits)
  show ?thesis
  proof (cases "commitRenameError env")
    case (Some e)
    then show ?thesis using True assms
      by (auto simp: commit_def rename_def arrived_def intro!: stage_ok_unchanged)
  next
    case None
    define fs1 where "fs1 = (fs(destination r := fs (partialOf r)))(partialOf r := None)"
    have fs1: "fs1 (source r) = Some (File src)" "fs1 (destination r) = Some (File src)" "fs1 (partialOf r) = None"
      using s part separate_facts [OF sep] by (auto simp: fs1_def)
    have "commit env r (length src) n fs = (Moved Copied n None,
        if \<not> keepSource r then unlink (unlinkSourceFails env) (source r) fs1
        else if linkSource r then link env r fs1 else fs1)"
      using True None part separate_facts [OF sep] by (simp add: commit_def rename_def fs1_def)
    then show ?thesis
      using fs1 link_safe [OF sep fs1(1,2), of env] separate_facts [OF sep]
      by (auto simp: stage_ok_def safe_def arrived_def unlink_def content_def)
  qed
qed

lemma copy_keeps:
  assumes "separate r"
  shows "snd (copy env r fs) (source r) = fs (source r)" "snd (copy env r fs) (destination r) = fs (destination r)"
  using separate_facts [OF assms] by (auto simp: copy_def Let_def split: prod.split)

lemma take_of_prefix: "prefix ys zs \<Longrightarrow> prefix (take n ys) zs"
  by (metis prefix_order.trans take_is_prefix)

lemma copy_partial:
  assumes p: "fs (partialOf r) = None \<and> old = [] \<or> fs (partialOf r) = Some (File old)"
    and old: "prefix old src \<and> delivers (drop (length old) src) (script env) \<or> length src < length old"
  shows "resumable src (snd (copy env r fs) (partialOf r))"
proof -
  obtain acc stopped seen where loop: "copyLoop (script env) [] = (acc, stopped, seen)" by (metis prod_cases3)
  let ?onDisk = "if writeFailed (script env) \<or> flushError env \<noteq> None then take (landed env) acc else acc"
  have "prefix (old @ ?onDisk) src \<or> length src < length (old @ ?onDisk)"
    using old
  proof
    assume o: "prefix old src \<and> delivers (drop (length old) src) (script env)"
    then have "prefix acc (drop (length old) src)" using copyLoop_prefix [of _ "script env" "[]"] loop by fastforce
    then have "prefix ?onDisk (drop (length old) src)" using take_of_prefix by auto
    moreover have "src = old @ drop (length old) src" using o by (auto simp: prefix_def)
    ultimately show ?thesis by (metis same_prefix_prefix)
  qed auto
  moreover have "resumable src (fs (partialOf r))" using p old by (auto simp: resumable_def)
  ultimately show ?thesis using p loop by (auto simp: copy_def Let_def resumable_def)
qed

lemma resumeOffset_spec:
  assumes "resumable src (fs (partialOf r))" "\<not> resumeStatFails env" "separate r"
    and "resumeOffset env (partialOf r) (length src) fs = (offset, fs1)"
  shows "fs1 (source r) = fs (source r)" "fs1 (destination r) = fs (destination r)" "resumable src (fs1 (partialOf r))"
    "\<exists>old. (fs1 (partialOf r) = None \<and> old = [] \<or> fs1 (partialOf r) = Some (File old))
       \<and> (prefix old src \<and> offset = length old \<or> length src < length old)"
  using assms separate_facts [OF assms(3)]
  by (auto simp: resumeOffset_def Let_def sizeOf_def content_def resumable_def unlink_def
      split: option.splits Node.splits if_splits dest: prefix_length_le)

lemma stream_ok:
  assumes sep: "separate r" and s: "fs (source r) = Some (File src)" and p: "resumable src (fs (partialOf r))"
    and stat: "\<not> resumeStatFails env" and reads: "delivers (drop (readOffset env r src fs) src) (script env)"
  shows "stage_ok src r fs (stream env r fs)"
proof -
  obtain offset fs1 where off: "resumeOffset env (partialOf r) (length src) fs = (offset, fs1)" by fastforce
  note ro = resumeOffset_spec [OF p stat sep off]
  have len: "sizeOf fs (source r) = Some (length src)" using s by (simp add: sizeOf_def content_def)
  obtain old where old: "fs1 (partialOf r) = None \<and> old = [] \<or> fs1 (partialOf r) = Some (File old)"
    "prefix old src \<and> offset = length old \<or> length src < length old"
    using ro(4) by blast
  obtain out fs2 where c: "copy env r fs1 = (out, fs2)" by fastforce
  have keeps: "fs2 (source r) = Some (File src)" "fs2 (destination r) = fs (destination r)"
    using copy_keeps [OF sep, of env fs1] c ro(1,2) s by auto
  have part: "resumable src (fs2 (partialOf r))"
    using copy_partial [of fs1 r old src env] old reads off c by (auto simp: readOffset_def)
  have ab: "stage_ok src r fs (aborted env (partialOf r) n fs2)" for n
    using aborted_ok [of r fs2 src "fs (destination r)" fs env n, OF sep keeps(1) part keeps(2)] by simp
  show ?thesis
    using ro(1-3) s p keeps part ab commit_ok [of r fs2 src fs env, OF sep keeps(1) part keeps(2)]
      commit_ok [of r fs1 src fs env 0, OF sep]
    by (auto simp: stream_def len off c arrived_def split: option.split sum.split prod.split
        intro!: stage_ok_unchanged)
qed

lemma move_ok:
  assumes sep: "separate r" and s: "fs (source r) = Some (File src)" and p: "resumable src (fs (partialOf r))"
    and stat: "\<not> resumeStatFails env" and reads: "delivers (drop (readOffset env r src fs) src) (script env)"
  shows "stage_ok src r fs (move env r fs)"
proof -
  have rn: "stage_ok src r fs (Moved Renamed 0 None, fs1)"
    if "rename (renameError env) (source r) (destination r) fs = Inr fs1" "\<not> keepSource r" for fs1
    using that s p separate_facts [OF sep]
    by (auto simp: rename_def stage_ok_def safe_def arrived_def split: option.splits if_splits)
  show ?thesis
    using stream_ok [OF assms] aborted_ok [of r fs src "fs (destination r)" fs env 0, OF sep s p refl] rn s p
    by (auto simp: move_def arrived_def split: option.split sum.split intro!: stage_ok_unchanged)
qed

subsection \<open>Properties\<close>


definition calmEnv :: MoveEnv where
  "calmEnv = \<lparr>stopReason = PauseReason, stopStart = False, placingHold = False, stopHold = False,
     mkdirError = None, renameError = Some ''EXDEV'', sourceStatError = None, resumeStatFails = False,
     unlinkPartialFails = False, probe = None, openError = None, script = [], flushError = None, landed = 0,
     commitStatFails = False, commitRenameError = None, unlinkSourceFails = False, lstatFails = False,
     symlinkFails = False, linkRenameFails = False, unlinkLinkFails = False, readNoteFails = False,
     writeNoteFails = False\<rparr>"

definition demoRequest :: FileMoveRequest where
  "demoRequest = \<lparr>source = ''/work/a'', destination = ''/lib/a'', reserve = 0, keepSource = True,
     linkSource = True, absoluteLink = True\<rparr>"


text \<open>Calls that did not get there, one after the other, each reading the source honestly.\<close>

definition honest :: "MoveEnv \<Rightarrow> FileMoveRequest \<Rightarrow> byte list \<Rightarrow> FS \<Rightarrow> bool" where
  "honest env r src fs \<longleftrightarrow>
     \<not> resumeStatFails env \<and> delivers (drop (readOffset env r src fs) src) (script env)"

fun interrupted :: "byte list \<Rightarrow> FileMoveRequest \<Rightarrow> MoveEnv list \<Rightarrow> FS \<Rightarrow> FS option" where
  "interrupted src r [] fs = Some fs"
| "interrupted src r (env # envs) fs =
     (case move env r fs of (res, fs') \<Rightarrow>
        if honest env r src fs \<and> \<not> arrived res then interrupted src r envs fs' else None)"

lemma interrupted_ok:
  assumes "interrupted src r envs fs = Some fs'" "separate r" "fs (source r) = Some (File src)"
    "resumable src (fs (partialOf r))"
  shows "fs' (source r) = Some (File src) \<and> resumable src (fs' (partialOf r)) \<and> fs' (destination r) = fs (destination r)"
  using assms
proof (induction envs arbitrary: fs)
  case (Cons env envs)
  obtain res fs1 where m: "move env r fs = (res, fs1)" by fastforce
  then have "honest env r src fs" "\<not> arrived res" "interrupted src r envs fs1 = Some fs'"
    using Cons.prems(1) by (auto split: if_splits)
  moreover from this have "stage_ok src r fs (res, fs1)"
    using move_ok [of r fs src env] Cons.prems m by (simp add: honest_def)
  ultimately show ?case using Cons.IH [of fs1] Cons.prems(2) by (simp add: stage_ok_def safe_def)
qed simp

text \<open>A call in which nothing fails and nobody interrupts, across devices.\<close>

fun isPiece :: "CopyEvent \<Rightarrow> bool" where
  "isPiece (Piece chunk stopped) = (\<not> stopped)"
| "isPiece e = False"

definition smooth :: "MoveEnv \<Rightarrow> bool" where
  "smooth env \<longleftrightarrow> \<not> stopStart env \<and> \<not> stopHold env \<and> mkdirError env = None \<and> renameError env = Some ''EXDEV''
     \<and> sourceStatError env = None \<and> \<not> unlinkPartialFails env \<and> openError env = None \<and> list_all isPiece (script env)
     \<and> flushError env = None \<and> \<not> commitStatFails env \<and> commitRenameError env = None"

lemma copyLoop_pieces: "list_all isPiece es \<Longrightarrow> \<exists>out. copyLoop es acc = (out, False, None) \<and> \<not> writeFailed es"
proof (induction es arbitrary: acc)
  case (Cons e es)
  then show ?case by (cases e) auto
qed simp

lemma commit_completes:
  assumes "separate r" "fs (partialOf r) = Some (File src)" "smooth env" "n = length src"
  shows "fst (commit env r n k fs) = Moved Copied k None"
  using assms separate_facts [OF assms(1)] by (simp add: commit_def rename_def sizeOf_def content_def smooth_def Let_def)

lemma copy_completes:
  assumes "smooth env" "prefix old src" "delivers (drop (length old) src) (script env)"
    and "fs (partialOf r) = None \<and> old = [] \<or> fs (partialOf r) = Some (File old)"
  shows "fst (copy env r fs) = Inr (False, length src - length old)"
    and "snd (copy env r fs) (partialOf r) = Some (File src)"
proof -
  obtain out where loop: "copyLoop (script env) [] = (out, False, None)" and nw: "\<not> writeFailed (script env)"
    using copyLoop_pieces [of "script env" "[]"] assms(1) by (auto simp: smooth_def)
  have out: "out = drop (length old) src" using copyLoop_prefix [OF assms(3) loop] by simp
  have "old @ out = src" using assms(2) out by (auto simp: prefix_def)
  then show "fst (copy env r fs) = Inr (False, length src - length old)"
    "snd (copy env r fs) (partialOf r) = Some (File src)"
    using loop nw out assms(1,4) by (auto simp: copy_def smooth_def)
qed

lemma move_completes:
  assumes sep: "separate r" and s: "fs (source r) = Some (File src)" and p: "resumable src (fs (partialOf r))"
    and env: "smooth env" and h: "honest env r src fs" and room: "\<not> cannotFit env r (length src - readOffset env r src fs)"
  shows "fst (move env r fs) = Moved Copied (length src - readOffset env r src fs) None"
proof -
  obtain offset fs1 where off: "resumeOffset env (partialOf r) (length src) fs = (offset, fs1)" by fastforce
  have stat: "\<not> resumeStatFails env" using h by (simp add: honest_def)
  obtain old where old: "fs1 (partialOf r) = None \<and> old = [] \<or> fs1 (partialOf r) = Some (File old)" "prefix old src" "offset = length old"
    using off p env stat
    by (auto simp: resumeOffset_def Let_def sizeOf_def content_def resumable_def unlink_def smooth_def
        split: option.splits Node.splits if_splits dest: prefix_length_le)
  have ro: "readOffset env r src fs = length old" using off old(3) by (simp add: readOffset_def)
  have whole: "length src \<le> length old \<Longrightarrow> old = src" using old(2) by (auto simp: prefix_def)
  obtain out fs2 where c: "copy env r fs1 = (out, fs2)" by fastforce
  have cc: "out = Inr (False, length src - length old)" "fs2 (partialOf r) = Some (File src)"
    using copy_completes [of env old src fs1 r] env old h c ro by (auto simp: honest_def)
  have "fst (stream env r fs) = Moved Copied (length src - length old) None"
  proof (cases "length src \<le> length old \<and> 0 < length src")
    case True
    then have "fs1 (partialOf r) = Some (File src)" using old(1) whole by auto
    then show ?thesis using True s env off old(3) commit_completes [of r fs1 src env "length src" 0, OF sep _ env refl]
      by (simp add: stream_def smooth_def sizeOf_def content_def)
  next
    case False
    then show ?thesis using s env off old(3) c cc room ro commit_completes [of r fs2 src env, OF sep cc(2) env refl]
      by (auto simp: stream_def smooth_def sizeOf_def content_def)
  qed
  then show ?thesis using env ro s by (simp add: move_def smooth_def rename_def)
qed



text \<open>
  A resume whose \<open>stat\<close> of the partial fails starts again at byte zero but still appends. A pause
  halfway through that call leaves a partial of the right length and the wrong bytes, which the
  next call commits: the copy replaces the source, which is deleted.
\<close>

lemma resume_stat_error_corrupts:
  "let r = demoRequest\<lparr>keepSource := False, linkSource := False\<rparr>;
       step1 = move (calmEnv\<lparr>resumeStatFails := True, script := [Piece [1, 2] False, Piece [3, 4] True]\<rparr>) r
         [''/work/a'' \<mapsto> File [1, 2, 3, 4], ''/lib/a.mcs-part'' \<mapsto> File [1, 2]];
       step2 = move calmEnv r (snd step1)
   in fst step1 = Moved MovePaused 2 (Some ''/lib/a.mcs-part'')
      \<and> fst step2 = Moved Copied 0 None \<and> snd step2 ''/lib/a'' = Some (File [1, 2, 1, 2])
      \<and> snd step2 ''/work/a'' = None"
  by (simp add: demoRequest_def partialOf_def PARTIAL_SUFFIX_def dirname_def move_def stream_def copy_def commit_def
      resumeOffset_def cannotFit_def spaceVerdict_def aborted_def freeBytesAt_def rename_def sizeOf_def content_def
      calmEnv_def unlink_def Let_def)

end
