(* ===== verification/Transfer_Engine.thy ===== *)
theory Transfer_Engine
  imports File_Move
begin

text \<open>
  The queue and the pool of \<open>packages/api/src/services/transfer-engine.service.ts\<close>: what is
  waiting, what is starting, what is running, and the state each transfer's row goes through.

  The service is one object whose methods interleave at their awaits. The state is a record of
  its fields plus the rows of the transfers table it writes (\<open>db\<close>), the working files present
  (\<open>partials\<close>), and the suspended calls: \<open>enqueuing\<close> holds the \<open>enqueue\<close> calls waiting for the
  settings, \<open>pumping\<close> is true while a \<open>_pump\<close> waits for them, and \<open>runs\<close> lists every \<open>_run\<close> that
  has not returned, with the point it has reached. \<open>engine_step\<close> is one resumption. What the
  engine learns from outside (how many sources answered, how the download ended, what
  verification and the move reported) arrives with the event.

  The database is used through TypeORM: \<open>findOneBy\<close> builds a new object from the row, and
  \<open>save\<close> writes the columns of the object it is given. \<open>_run\<close> keeps the object it loaded first
  (\<open>rheld\<close>; a run that has not loaded it yet holds \<open>unloaded\<close>) and saves it again with the plan and with every
  progress report, while \<open>_setState\<close> loads, changes and saves an object of its own.
  The flags of a run are kept with its entry of \<open>running\<close>, which is exact as long as an
  identifier has one run; the properties below say when that is.
\<close>

subsection \<open>Data\<close>

datatype TransferState =
    Queued | Connecting | Downloading | Paused | Verifying | Repairing | Placing
  | Done | Failed | Cancelled

datatype TransferErrorKind =
    SourceGone | SourceUnauthorized | Network | ChecksumMismatch | DiskFull | PermissionDenied
  | TargetMissing | CancelledByUser | ServiceRemoved | UnknownKind

record TransferRow =
  state :: TransferState
  errorKind :: "TransferErrorKind option"
  finishedAt :: bool

record Entry =
  epausing :: bool
  ecancelling :: bool
  ecancelKind :: TransferErrorKind

text \<open>Where a \<open>_run\<close> is suspended.\<close>

datatype Phase =
    AtLoad | AtConnecting | AtPrepare | AtDownloading | InDownload | AtVerifying
  | InVerify nat | InPlace

definition unloaded :: TransferRow where
  "unloaded = \<lparr>state = Queued, errorKind = None, finishedAt = False\<rparr>"

record RunState =
  rid :: string
  rphase :: Phase
  rheld :: TransferRow

datatype Outcome =
    Go
  | SourcesAnswered nat
  | Progress
  | DownloadReturned
  | Report bool
  | Placed FileMoveOutcome
  | Throws TransferErrorKind

record Engine =
  db :: "string \<rightharpoonup> TransferRow"
  partials :: "string set"
  queue :: "string list"
  starting :: "string list"
  running :: "(string \<times> Entry) list"
  enqueuing :: "string list"
  pumping :: bool
  draining :: bool
  runs :: "RunState list"
  maxParallelTransfers :: int
  queuePaused :: bool

definition MAX_REPAIR_PASSES :: nat where "MAX_REPAIR_PASSES = 3"

definition LIVE_STATES :: "TransferState list" where
  "LIVE_STATES = [Queued, Connecting, Downloading, Verifying, Repairing, Placing]"

subsection \<open>Row writes\<close>

text \<open>\<open>_load\<close> throws when the row does not exist; \<open>None\<close> stands for that exception.\<close>

definition setState :: "string \<Rightarrow> TransferState \<Rightarrow> Engine \<Rightarrow> Engine option" where
  "setState t s e =
     (case db e t of
        None \<Rightarrow> None
      | Some row \<Rightarrow> Some (e\<lparr>db := (db e)(t \<mapsto> row\<lparr>state := s\<rparr>)\<rparr>))"

definition failed :: "TransferErrorKind \<Rightarrow> TransferRow \<Rightarrow> TransferRow" where
  "failed kind row = row\<lparr>state := Failed, errorKind := Some kind, finishedAt := True\<rparr>"

text \<open>The \<open>catch\<close> of a run loads the row afresh before it fails it.\<close>

definition failRow :: "string \<Rightarrow> TransferErrorKind \<Rightarrow> Engine \<Rightarrow> Engine" where
  "failRow t kind e =
     (case db e t of
        None \<Rightarrow> e
      | Some row \<Rightarrow> e\<lparr>db := (db e)(t \<mapsto> failed kind row)\<rparr>)"

subsection \<open>The public calls\<close>

definition isRunning :: "string \<Rightarrow> Engine \<Rightarrow> bool" where
  "isRunning t e = (t \<in> fst ` set (running e))"

definition known :: "string \<Rightarrow> Engine \<Rightarrow> bool" where
  "known t e = (isRunning t e \<or> t \<in> set (starting e) \<or> t \<in> set (queue e))"

definition removeFromQueue :: "string \<Rightarrow> Engine \<Rightarrow> Engine" where
  "removeFromQueue t e = e\<lparr>queue := remove1 t (queue e)\<rparr>"

text \<open>\<open>_pump\<close> up to its first await.\<close>

definition pumpCall :: "Engine \<Rightarrow> Engine" where
  "pumpCall e = (if pumping e \<or> draining e then e else e\<lparr>pumping := True\<rparr>)"

text \<open>\<open>enqueue\<close> up to its await, and after it.\<close>

definition enqueueCall :: "string \<Rightarrow> Engine \<Rightarrow> Engine" where
  "enqueueCall t e = (if known t e then e else e\<lparr>enqueuing := enqueuing e @ [t]\<rparr>)"

definition enqueueResume :: "string \<Rightarrow> Engine \<Rightarrow> Engine" where
  "enqueueResume t e =
     (let e1 = e\<lparr>enqueuing := remove1 t (enqueuing e)\<rparr> in
      if queuePaused e1
      then (case setState t Paused e1 of None \<Rightarrow> e1 | Some e2 \<Rightarrow> e2)
      else pumpCall (e1\<lparr>queue := queue e1 @ [t]\<rparr>))"

definition updRunning :: "string \<Rightarrow> (Entry \<Rightarrow> Entry) \<Rightarrow> Engine \<Rightarrow> Engine" where
  "updRunning t f e = e\<lparr>running := map (\<lambda>(u, x). if u = t then (u, f x) else (u, x)) (running e)\<rparr>"

definition pause :: "string \<Rightarrow> Engine \<Rightarrow> Engine" where
  "pause t e =
     (if isRunning t e then updRunning t (\<lambda>x. x\<lparr>epausing := True\<rparr>) e
      else let e1 = removeFromQueue t e in
        case setState t Paused e1 of None \<Rightarrow> e1 | Some e2 \<Rightarrow> e2)"

definition resume :: "string \<Rightarrow> Engine \<Rightarrow> Engine" where
  "resume t e = (case setState t Queued e of None \<Rightarrow> e | Some e1 \<Rightarrow> enqueueCall t e1)"

definition cancelIdle :: "string \<Rightarrow> TransferErrorKind \<Rightarrow> Engine \<Rightarrow> Engine" where
  "cancelIdle t kind e =
     (let e1 = removeFromQueue t e in
      case db e1 t of
        None \<Rightarrow> e1
      | Some row \<Rightarrow> e1\<lparr>db := (db e1)(t \<mapsto>
            row\<lparr>state := Cancelled, errorKind := Some kind, finishedAt := True\<rparr>),
          partials := partials e1 - {t}\<rparr>)"

definition cancel :: "string \<Rightarrow> TransferErrorKind \<Rightarrow> Engine \<Rightarrow> Engine" where
  "cancel t kind e =
     (if isRunning t e
      then updRunning t (\<lambda>x. x\<lparr>ecancelling := True, ecancelKind := kind\<rparr>) e
      else cancelIdle t kind e)"

definition onModuleDestroy :: "Engine \<Rightarrow> Engine" where
  "onModuleDestroy e =
     e\<lparr>draining := True, running := map (\<lambda>(u, x). (u, x\<lparr>epausing := True\<rparr>)) (running e)\<rparr>"

text \<open>
  The start of the process: every live row, oldest first, goes back to the queue, or to
  paused when the queue is. \<open>rows\<close> is the answer of \<open>findResumable\<close>.
\<close>

fun bootstrapRows :: "string list \<Rightarrow> Engine \<Rightarrow> Engine" where
  "bootstrapRows [] e = e"
| "bootstrapRows (t # ts) e =
     bootstrapRows ts
       (if (case db e t of None \<Rightarrow> False | Some row \<Rightarrow> state row = Paused) then e
        else if queuePaused e then (case setState t Paused e of None \<Rightarrow> e | Some e1 \<Rightarrow> e1)
        else e\<lparr>queue := queue e @ [t]\<rparr>)"

definition findResumable :: "string list \<Rightarrow> Engine \<Rightarrow> string list" where
  "findResumable byCreation e =
     filter (\<lambda>t. case db e t of None \<Rightarrow> False | Some row \<Rightarrow> state row \<in> set LIVE_STATES) byCreation"

definition onApplicationBootstrap :: "string list \<Rightarrow> Engine \<Rightarrow> Engine" where
  "onApplicationBootstrap byCreation e = pumpCall (bootstrapRows (findResumable byCreation e) e)"

subsection \<open>The pump\<close>

function startLoop :: "Engine \<Rightarrow> Engine" where
  "startLoop e =
     (case queue e of
        [] \<Rightarrow> e
      | t # ts \<Rightarrow>
          if int (length (running e)) + int (length (starting e)) < maxParallelTransfers e
          then startLoop (e\<lparr>queue := ts, starting := List.insert t (starting e),
                             runs := runs e @ [\<lparr>rid = t, rphase = AtLoad, rheld = unloaded\<rparr>]\<rparr>)
          else e)"
  by pat_completeness auto
termination by (relation "measure (\<lambda>e. length (queue e))") auto

declare startLoop.simps [simp del]

definition pumpResume :: "Engine \<Rightarrow> Engine" where
  "pumpResume e =
     (if queuePaused e then e\<lparr>pumping := False\<rparr> else (startLoop e)\<lparr>pumping := False\<rparr>)"

subsection \<open>One run\<close>

text \<open>The \<open>finally\<close> of the pump: the run is over, whatever happened in it.\<close>

definition endRun :: "nat \<Rightarrow> Engine \<Rightarrow> Engine" where
  "endRun n e =
     (let t = rid (runs e ! n) in
      pumpCall (e\<lparr>runs := removeAt n (runs e), starting := remove1 t (starting e),
                  running := AList.delete t (running e)\<rparr>))"

definition toPhase :: "nat \<Rightarrow> Phase \<Rightarrow> Engine \<Rightarrow> Engine" where
  "toPhase n p e = e\<lparr>runs := (runs e)[n := (runs e ! n)\<lparr>rphase := p\<rparr>]\<rparr>"

text \<open>
  Saving the object the run loaded: the row takes every column that object carries. The two
  failures \<open>_run\<close> and \<open>_finish\<close> report themselves, and the completion, save that object too.
\<close>

definition saveHeldAs :: "nat \<Rightarrow> (TransferRow \<Rightarrow> TransferRow) \<Rightarrow> Engine \<Rightarrow> Engine" where
  "saveHeldAs n f e = e\<lparr>db := (db e)(rid (runs e ! n) \<mapsto> f (rheld (runs e ! n)))\<rparr>"

definition saveHeld :: "nat \<Rightarrow> Engine \<Rightarrow> Engine" where
  "saveHeld n e = saveHeldAs n (\<lambda>row. row) e"

definition completed :: "TransferRow \<Rightarrow> TransferRow" where
  "completed row = row\<lparr>state := Done, errorKind := None, finishedAt := True\<rparr>"

text \<open>Write a state, then go on; a row that has gone makes the run end in its \<open>catch\<close>.\<close>

definition setStateThen :: "nat \<Rightarrow> TransferState \<Rightarrow> Phase \<Rightarrow> Engine \<Rightarrow> Engine" where
  "setStateThen n s p e =
     (case setState (rid (runs e ! n)) s e of
        None \<Rightarrow> endRun n e
      | Some e1 \<Rightarrow> toPhase n p e1)"

definition setStateEnd :: "nat \<Rightarrow> TransferState \<Rightarrow> Engine \<Rightarrow> Engine" where
  "setStateEnd n s e =
     (case setState (rid (runs e ! n)) s e of None \<Rightarrow> endRun n e | Some e1 \<Rightarrow> endRun n e1)"

definition runStep :: "nat \<Rightarrow> Outcome \<Rightarrow> Engine \<Rightarrow> Engine option" where
  "runStep n out e =
     (let t = rid (runs e ! n) in
      case out of
        Throws kind \<Rightarrow> Some (endRun n (failRow t kind e))
      | _ \<Rightarrow>
      case (rphase (runs e ! n), out) of
        (AtLoad, Go) \<Rightarrow>
          Some (case db e t of
                  None \<Rightarrow> endRun n e
                | Some row \<Rightarrow> if state row = Cancelled \<or> state row = Done then endRun n e
                              else toPhase n AtConnecting
                                (e\<lparr>runs := (runs e)[n := (runs e ! n)\<lparr>rheld := row\<rparr>]\<rparr>))
      | (AtConnecting, Go) \<Rightarrow> Some (setStateThen n Connecting AtPrepare e)
      | (AtPrepare, SourcesAnswered k) \<Rightarrow>
          Some (if k = 0 then endRun n (saveHeldAs n (failed SourceGone) e)
                else toPhase n AtDownloading
                  ((saveHeld n e)\<lparr>running := AList.update t
                        \<lparr>epausing = False, ecancelling = False, ecancelKind = CancelledByUser\<rparr> (running e),
                     partials := insert t (partials e)\<rparr>))
      | (AtDownloading, Go) \<Rightarrow> Some (setStateThen n Downloading InDownload e)
      | (InDownload, Progress) \<Rightarrow> Some (saveHeld n e)
      | (InDownload, DownloadReturned) \<Rightarrow>
          Some (case map_of (running e) t of
                  None \<Rightarrow> toPhase n AtVerifying e
                | Some x \<Rightarrow>
                    if ecancelling x
                    then endRun n (cancel t (ecancelKind x) (e\<lparr>running := AList.delete t (running e)\<rparr>))
                    else if epausing x then setStateEnd n Paused e
                    else toPhase n AtVerifying e)
      | (AtVerifying, Go) \<Rightarrow> Some (setStateThen n Verifying (InVerify 0) e)
      | (InVerify pass, Report okay) \<Rightarrow>
          Some (if okay then setStateThen n Placing InPlace e
                else if pass < MAX_REPAIR_PASSES then setStateThen n Repairing (InVerify (Suc pass)) e
                else endRun n (saveHeldAs n (failed ChecksumMismatch) e))
      | (InVerify (Suc pass), Progress) \<Rightarrow> Some (saveHeld n e)
      | (InPlace, Placed moved) \<Rightarrow>
          Some (case moved of
                  MoveCancelled \<Rightarrow>
                    endRun n (cancel t CancelledByUser (e\<lparr>running := AList.delete t (running e)\<rparr>))
                | MovePaused \<Rightarrow> setStateEnd n Paused e
                | _ \<Rightarrow> endRun n ((saveHeldAs n completed e)\<lparr>partials := partials e - {t}\<rparr>))
      | _ \<Rightarrow> None)"

subsection \<open>Events\<close>

datatype Event =
    Enqueue string
  | EnqueueResumed string
  | PumpResumed
  | Pause string
  | Resume string
  | Cancel string TransferErrorKind
  | Run nat Outcome
  | PauseQueue bool
  | Destroy

fun engine_step :: "Event \<Rightarrow> Engine \<Rightarrow> Engine option" where
  "engine_step (Enqueue t) e = Some (enqueueCall t e)"
| "engine_step (EnqueueResumed t) e = (if t \<in> set (enqueuing e) then Some (enqueueResume t e) else None)"
| "engine_step PumpResumed e = (if pumping e then Some (pumpResume e) else None)"
| "engine_step (Pause t) e = Some (pause t e)"
| "engine_step (Resume t) e = Some (resume t e)"
| "engine_step (Cancel t kind) e = Some (cancel t kind e)"
| "engine_step (Run n out) e = (if n < length (runs e) then runStep n out e else None)"
| "engine_step (PauseQueue b) e = Some (e\<lparr>queuePaused := b\<rparr>)"
| "engine_step Destroy e = Some (onModuleDestroy e)"

fun engine_run :: "Event list \<Rightarrow> Engine \<Rightarrow> Engine option" where
  "engine_run [] e = Some e"
| "engine_run (ev # evs) e =
     (case engine_step ev e of None \<Rightarrow> None | Some e' \<Rightarrow> engine_run evs e')"

interpretation engine: event_run engine_step engine_run
  by unfold_locales simp_all

definition initEngine :: "(string \<rightharpoonup> TransferRow) \<Rightarrow> int \<Rightarrow> Engine" where
  "initEngine rows m =
     \<lparr>db = rows, partials = {}, queue = [], starting = [], running = [], enqueuing = [],
      pumping = False, draining = False, runs = [], maxParallelTransfers = m, queuePaused = False\<rparr>"

subsection \<open>What the bookkeeping looks at\<close>

type_synonym Core = "string list \<times> string list \<times> string list \<times> string list \<times> string list \<times> int"

definition core :: "Engine \<Rightarrow> Core" where
  "core e = (queue e, starting e, map fst (running e), enqueuing e, map rid (runs e), maxParallelTransfers e)"

lemma core_row_writes [engine_simps]:
  "setState t s e = Some e' \<Longrightarrow> core e' = core e"
  "core (failRow t k e) = core e" "core (saveHeldAs n g e) = core e" "core (saveHeld n e) = core e"
  "core (toPhase n p e) = core e" "core (updRunning t f e) = core e" "core (pumpCall e) = core e"
  "core (e\<lparr>partials := ps\<rparr>) = core e" "core (e\<lparr>queuePaused := b\<rparr>) = core e"
  "core (e\<lparr>pumping := b\<rparr>) = core e" "core (onModuleDestroy e) = core e"
  "core (e\<lparr>runs := (runs e)[n := (runs e ! n)\<lparr>rheld := h\<rparr>]\<rparr>) = core e"
  by (auto simp: core_def setState_def failRow_def saveHeldAs_def saveHeld_def toPhase_def updRunning_def
      pumpCall_def onModuleDestroy_def map_update Let_def comp_def case_prod_beta split: option.splits if_splits)

text \<open>
  At most one run per identifier, no identifier both waiting and running, every run counted in
  \<open>starting\<close> until it ends, and the pool within the setting.
\<close>

fun core_inv :: "Core \<Rightarrow> bool" where
  "core_inv (q, st, rn, enq, rs, m) \<longleftrightarrow>
     distinct q \<and> distinct rs \<and> distinct st \<and> distinct rn \<and> distinct enq
     \<and> set st = set rs \<and> set rn \<subseteq> set st
     \<and> set q \<inter> set st = {} \<and> set enq \<inter> (set q \<union> set st) = {}
     \<and> int (length st) \<le> max 0 m"

definition pool_inv :: "Engine \<Rightarrow> bool" where
  "pool_inv e = core_inv (core e)"

lemma pool_inv_core: "core e' = core e \<Longrightarrow> pool_inv e \<Longrightarrow> pool_inv e'"
  by (simp add: pool_inv_def)

lemmas pool_simps = pool_inv_def core_def

lemma pool_inv_removeFromQueue: "pool_inv e \<Longrightarrow> pool_inv (removeFromQueue t e)"
  by (auto simp: pool_simps removeFromQueue_def dest: notin_set_remove1 set_remove1_subset [THEN subsetD])

lemma pool_inv_enqueueCall: "pool_inv e \<Longrightarrow> t \<notin> set (enqueuing e) \<Longrightarrow> pool_inv (enqueueCall t e)"
  by (auto simp: pool_simps enqueueCall_def known_def)

lemma pool_inv_setState:
  "pool_inv e \<Longrightarrow> pool_inv (case setState t s e of None \<Rightarrow> e | Some e1 \<Rightarrow> e1)"
  by (auto split: option.split intro: pool_inv_core core_row_writes(1))

lemma pool_inv_enqueueResume:
  assumes "pool_inv e" "t \<in> set (enqueuing e)"
  shows "pool_inv (enqueueResume t e)"
proof -
  let ?e = "e\<lparr>enqueuing := remove1 t (enqueuing e)\<rparr>"
  have "pool_inv ?e" using assms(1) by (auto simp: pool_simps dest: notin_set_remove1 set_remove1_subset [THEN subsetD])
  moreover have "pool_inv (?e\<lparr>queue := queue ?e @ [t]\<rparr>)"
    using assms by (auto simp: pool_simps)
  ultimately show ?thesis
    using pool_inv_setState pool_inv_core [OF core_row_writes(7)]
    by (auto simp: enqueueResume_def Let_def)
qed

lemma pool_inv_startLoop: "pool_inv e \<Longrightarrow> pool_inv (startLoop e)"
proof (induction e rule: startLoop.induct)
  case (1 e)
  show ?case
  proof (cases "queue e")
    case Nil
    with "1.prems" show ?thesis by (simp add: startLoop.simps)
  next
    case (Cons t ts)
    let ?e = "e\<lparr>queue := ts, starting := List.insert t (starting e),
        runs := runs e @ [\<lparr>rid = t, rphase = AtLoad, rheld = unloaded\<rparr>]\<rparr>"
    show ?thesis
    proof (cases "int (length (running e)) + int (length (starting e)) < maxParallelTransfers e")
      case True
      have "pool_inv ?e" using "1.prems" Cons True by (auto simp: pool_simps)
      then have "pool_inv (startLoop ?e)" using "1.IH" [OF Cons True] by blast
      with Cons True show ?thesis by (subst startLoop.simps) simp
    next
      case False
      with Cons "1.prems" show ?thesis by (subst startLoop.simps) simp
    qed
  qed
qed

lemma pool_inv_dropRunning: "pool_inv e \<Longrightarrow> pool_inv (e\<lparr>running := AList.delete t (running e)\<rparr>)"
  by (auto simp: pool_simps delete_keys distinct_removeAll)

lemma pool_inv_cancelIdle: "pool_inv e \<Longrightarrow> pool_inv (cancelIdle t k e)"
proof -
  assume "pool_inv e"
  then have inv: "pool_inv (removeFromQueue t e)" by (rule pool_inv_removeFromQueue)
  show ?thesis unfolding cancelIdle_def Let_def
    by (auto split: option.split intro!: pool_inv_core [OF _ inv] simp: core_def)
qed

lemma pool_inv_cancel: "pool_inv e \<Longrightarrow> pool_inv (cancel t k e)"
  by (auto simp: cancel_def intro: pool_inv_cancelIdle pool_inv_core [OF core_row_writes(6)])

lemma pool_inv_pause: "pool_inv e \<Longrightarrow> pool_inv (pause t e)"
  unfolding pause_def Let_def
  by (auto intro: pool_inv_core [OF core_row_writes(6)] pool_inv_setState pool_inv_removeFromQueue)

lemma pool_inv_endRun:
  assumes inv: "pool_inv e" and n: "n < length (runs e)"
  shows "pool_inv (endRun n e)"
proof -
  let ?t = "rid (runs e ! n)"
  have d: "distinct (map rid (runs e))" using inv by (simp add: pool_simps)
  have "set (map rid (removeAt n (runs e))) = set (map rid (runs e)) - {?t}"
    using set_removeAt_distinct [OF d, of n] n by (simp add: map_removeAt)
  moreover have "distinct (map rid (removeAt n (runs e)))"
    using d by (simp only: map_removeAt distinct_removeAt)
  moreover have "length (remove1 ?t (starting e)) \<le> length (starting e)" by (simp add: length_remove1)
  ultimately have "pool_inv (e\<lparr>runs := removeAt n (runs e), starting := remove1 ?t (starting e),
      running := AList.delete ?t (running e)\<rparr>)"
    using inv by (auto simp: pool_simps delete_keys distinct_removeAll)
  then show ?thesis unfolding endRun_def Let_def by (rule pool_inv_core [OF core_row_writes(7)])
qed

lemma pool_inv_saveHeldAs: "pool_inv e \<Longrightarrow> pool_inv (saveHeldAs n f e)"
  by (rule pool_inv_core [OF core_row_writes(3)])

lemma pool_inv_toPhase: "pool_inv e \<Longrightarrow> pool_inv (toPhase n p e)"
  by (rule pool_inv_core [OF core_row_writes(5)])

lemma runs_row_writes [simp]:
  "runs (saveHeldAs n f e) = runs e" "runs (saveHeld n e) = runs e" "runs (failRow t k e) = runs e"
  "runs (cancel t k e) = runs e" "runs (pumpCall e) = runs e"
  by (auto simp: saveHeldAs_def saveHeld_def failRow_def cancel_def cancelIdle_def removeFromQueue_def
      updRunning_def pumpCall_def Let_def split: option.split)

lemma runs_setState: "setState t s e = Some e' \<Longrightarrow> runs e' = runs e"
  by (auto simp: setState_def split: option.splits)

lemma pool_inv_setStateThen:
  "pool_inv e \<Longrightarrow> n < length (runs e) \<Longrightarrow> pool_inv (setStateThen n s p e)"
  unfolding setStateThen_def
  by (auto split: option.split intro: pool_inv_endRun pool_inv_toPhase pool_inv_core [OF core_row_writes(1)])

lemma pool_inv_setStateEnd:
  "pool_inv e \<Longrightarrow> n < length (runs e) \<Longrightarrow> pool_inv (setStateEnd n s e)"
  unfolding setStateEnd_def
  by (auto split: option.split simp: runs_setState intro!: pool_inv_endRun
      intro: pool_inv_core [OF core_row_writes(1)])

lemma pool_inv_register:
  assumes "pool_inv e" "n < length (runs e)"
  shows "pool_inv (e\<lparr>running := AList.update (rid (runs e ! n)) x (running e)\<rparr>)"
  using assms by (auto simp: pool_simps update_keys)

lemma pool_inv_runStep:
  assumes inv: "pool_inv e" and n: "n < length (runs e)" and step: "runStep n out e = Some e'"
  shows "pool_inv e'"
proof -
  note basic = pool_inv_endRun pool_inv_toPhase pool_inv_setStateThen pool_inv_setStateEnd
    pool_inv_saveHeldAs pool_inv_cancel pool_inv_dropRunning
    pool_inv_core [OF core_row_writes(2)] pool_inv_core [OF core_row_writes(8)]
    pool_inv_core [OF core_row_writes(4)] pool_inv_core [OF core_row_writes(12)]
  have reg: "pool_inv ((saveHeld n e)\<lparr>running := AList.update (rid (runs e ! n)) x (running e)\<rparr>)" for x
    using pool_inv_register [OF pool_inv_core [OF core_row_writes(4) inv], of n n x] n
    by (auto simp: pool_simps saveHeld_def saveHeldAs_def)
  show ?thesis
    using step inv n reg unfolding runStep_def Let_def
    by (auto split: Outcome.splits Phase.splits nat.splits option.splits if_splits FileMoveOutcome.splits
        intro!: basic reg)
qed

text \<open>
  A trace is calm when no \<open>enqueue\<close> of an identifier is called while another one for it is
  suspended at its await.
\<close>

fun calm :: "Event list \<Rightarrow> Engine \<Rightarrow> bool" where
  "calm [] e = True"
| "calm (ev # evs) e =
     ((case ev of Enqueue t \<Rightarrow> t \<notin> set (enqueuing e) | Resume t \<Rightarrow> t \<notin> set (enqueuing e) | _ \<Rightarrow> True)
      \<and> (case engine_step ev e of None \<Rightarrow> True | Some e' \<Rightarrow> calm evs e'))"

lemma pool_inv_engine_step:
  assumes inv: "pool_inv e" and calm: "calm [ev] e" and step: "engine_step ev e = Some e'"
  shows "pool_inv e'"
proof (cases ev)
  case (Resume t)
  show ?thesis
  proof (cases "setState t Queued e")
    case None
    then show ?thesis using Resume step inv by (simp add: resume_def)
  next
    case (Some e1)
    have "core e1 = core e" using core_row_writes(1) [OF Some] .
    then have "pool_inv e1" "enqueuing e1 = enqueuing e" using pool_inv_core inv by (auto simp: core_def)
    then show ?thesis using Resume Some step calm pool_inv_enqueueCall by (auto simp: resume_def)
  qed
qed (use inv calm step in \<open>auto split: if_splits simp: pumpResume_def
       intro: pool_inv_enqueueCall pool_inv_enqueueResume pool_inv_pause pool_inv_cancel pool_inv_runStep
         pool_inv_startLoop pool_inv_core [OF core_row_writes(9)] pool_inv_core [OF core_row_writes(10)]
         pool_inv_core [OF core_row_writes(11)]\<close>)

lemma pool_inv_engine_run:
  "engine_run evs e = Some e' \<Longrightarrow> calm evs e \<Longrightarrow> pool_inv e \<Longrightarrow> pool_inv e'"
proof (induction evs arbitrary: e)
  case (Cons ev evs)
  then obtain e1 where "engine_step ev e = Some e1" "engine_run evs e1 = Some e'" by (auto split: option.splits)
  with Cons show ?case using pool_inv_engine_step [of e ev e1] by auto
qed simp

lemma pool_inv_init: "pool_inv (initEngine rows m)"
  by (simp add: pool_simps initEngine_def)

subsection \<open>Properties of the pool\<close>

lemma bootstrapRows_running_queue:
  assumes "\<not> queuePaused e"
    and "list_all (\<lambda>t. case db e t of None \<Rightarrow> False | Some row \<Rightarrow> state row \<noteq> Paused) ts"
  shows "bootstrapRows ts e = e\<lparr>queue := queue e @ ts\<rparr>"
  using assms by (induction ts arbitrary: e) (auto split: option.splits)

lemma bootstrapRows_paused_queue:
  assumes "queuePaused e"
  shows "bootstrapRows ts e
    = e\<lparr>db := (\<lambda>t. if t \<in> set ts then map_option (\<lambda>row. row\<lparr>state := Paused\<rparr>) (db e t) else db e t)\<rparr>"
  using assms
proof (induction ts arbitrary: e)
  case (Cons u ts)
  let ?e = "if (case db e u of None \<Rightarrow> False | Some row \<Rightarrow> state row = Paused) then e
        else (case setState u Paused e of None \<Rightarrow> e | Some e1 \<Rightarrow> e1)"
  have e: "?e = e\<lparr>db := (\<lambda>t. if t = u then map_option (\<lambda>row. row\<lparr>state := Paused\<rparr>) (db e t) else db e t)\<rparr>"
    by (cases "db e u") (auto simp: setState_def fun_eq_iff intro!: Engine.equality)
  have "bootstrapRows (u # ts) e = bootstrapRows ts ?e" using Cons.prems by simp
  then show ?case using Cons.prems unfolding e
    by (auto simp: Cons.IH fun_eq_iff option.map_comp comp_def intro!: Engine.equality)
qed simp

lemma findResumable_live:
  "list_all (\<lambda>t. case db e t of None \<Rightarrow> False | Some row \<Rightarrow> state row \<noteq> Paused) (findResumable ts e)"
  by (auto simp: findResumable_def LIVE_STATES_def list_all_iff split: option.split)


text \<open>The setting only changes through the settings service, never through a call of the engine.\<close>

lemma cap_frame [simp]:
  "maxParallelTransfers (saveHeldAs n g e) = maxParallelTransfers e"
  "maxParallelTransfers (saveHeld n e) = maxParallelTransfers e"
  "maxParallelTransfers (failRow t k e) = maxParallelTransfers e"
  "maxParallelTransfers (pumpCall e) = maxParallelTransfers e"
  "maxParallelTransfers (cancel t k e) = maxParallelTransfers e"
  "maxParallelTransfers (endRun n e) = maxParallelTransfers e"
  "maxParallelTransfers (toPhase n p e) = maxParallelTransfers e"
  by (auto simp: saveHeldAs_def saveHeld_def failRow_def pumpCall_def cancel_def cancelIdle_def removeFromQueue_def
      updRunning_def endRun_def toPhase_def Let_def split: option.split)

lemma cap_setState: "setState t s e = Some e' \<Longrightarrow> maxParallelTransfers e' = maxParallelTransfers e"
  by (auto simp: setState_def split: option.splits)

lemma cap_setStateThen [simp]:
  "maxParallelTransfers (setStateThen n s p e) = maxParallelTransfers e"
  "maxParallelTransfers (setStateEnd n s e) = maxParallelTransfers e"
  by (auto simp: setStateThen_def setStateEnd_def cap_setState split: option.split)

lemma cap_startLoop: "maxParallelTransfers (startLoop e) = maxParallelTransfers e"
  by (induction e rule: startLoop.induct) (subst startLoop.simps, auto split: list.split)

lemma cap_runStep: "runStep n out e = Some e' \<Longrightarrow> maxParallelTransfers e' = maxParallelTransfers e"
  unfolding runStep_def Let_def
  by (auto split: Outcome.splits Phase.splits nat.splits option.splits if_splits FileMoveOutcome.splits)

lemma cap_engine_step: "engine_step ev e = Some e' \<Longrightarrow> maxParallelTransfers e' = maxParallelTransfers e"
  by (cases ev) (auto simp: enqueueCall_def enqueueResume_def pumpResume_def pause_def resume_def removeFromQueue_def
      updRunning_def onModuleDestroy_def cap_startLoop cap_setState cap_runStep Let_def split: if_splits option.splits)

lemma cap_bootstrapRows: "maxParallelTransfers (bootstrapRows ts e) = maxParallelTransfers e"
  by (induction ts arbitrary: e) (auto simp: cap_setState split: option.split)

text \<open>An engine that has just started: the rows of the table, in order of creation, and the settings.\<close>

definition booted :: "(string \<rightharpoonup> TransferRow) \<Rightarrow> string list \<Rightarrow> int \<Rightarrow> bool \<Rightarrow> Engine" where
  "booted rows byCreation m paused =
     onApplicationBootstrap byCreation ((initEngine rows m)\<lparr>queuePaused := paused\<rparr>)"

lemma pool_inv_bootstrapRows:
  assumes "pool_inv e" "distinct ts" "set ts \<inter> (set (queue e) \<union> set (starting e) \<union> set (enqueuing e)) = {}"
  shows "pool_inv (bootstrapRows ts e)"
  using assms
proof (induction ts arbitrary: e)
  case (Cons t ts)
  let ?e = "if (case db e t of None \<Rightarrow> False | Some row \<Rightarrow> state row = Paused) then e
        else if queuePaused e then (case setState t Paused e of None \<Rightarrow> e | Some e1 \<Rightarrow> e1)
        else e\<lparr>queue := queue e @ [t]\<rparr>"
  have "pool_inv ?e" using Cons.prems by (auto simp: pool_simps setState_def split: option.splits)
  moreover have "set ts \<inter> (set (queue ?e) \<union> set (starting ?e) \<union> set (enqueuing ?e)) = {}"
    using Cons.prems by (auto simp: setState_def split: option.splits)
  ultimately have "pool_inv (bootstrapRows ts ?e)" using Cons.IH Cons.prems by simp
  then show ?case by simp
qed simp

lemma pool_inv_booted: "distinct ts \<Longrightarrow> pool_inv (booted rows ts m paused)"
  unfolding booted_def onApplicationBootstrap_def
  by (rule pool_inv_core [OF core_row_writes(7)], rule pool_inv_bootstrapRows)
    (auto simp: pool_simps initEngine_def findResumable_def)

text \<open>
  (C7) However the calls of the engine interleave from the start of the process, as long as no
  \<open>enqueue\<close> of an identifier arrives while another one for it is suspended: there is never more
  than one run of a transfer, no transfer waits in the queue while it runs, every run is counted
  until it ends, and the runs never exceed \<open>maxParallelTransfers\<close>.
\<close>

theorem pool_bounded_and_exclusive:
  assumes "engine_run evs (booted rows ts m paused) = Some e"
    and "calm evs (booted rows ts m paused)" and "distinct ts"
  shows "distinct (map rid (runs e)) \<and> set (queue e) \<inter> rid ` set (runs e) = {}
    \<and> fst ` set (running e) \<subseteq> rid ` set (runs e)
    \<and> int (length (runs e)) \<le> max 0 m"
proof -
  have "maxParallelTransfers e = m"
    using engine.run_frame [of evs maxParallelTransfers, OF cap_engine_step assms(1)]
    by (simp add: booted_def onApplicationBootstrap_def cap_bootstrapRows initEngine_def)
  moreover have inv: "pool_inv e" using pool_inv_engine_run [OF assms(1,2) pool_inv_booted [OF assms(3)]] .
  moreover have "length (starting e) = length (map rid (runs e))"
    using inv by (metis core_def core_inv.simps distinct_card list.set_map pool_inv_def)
  ultimately show ?thesis using inv by (auto simp: pool_simps)
qed

lemmas engine_eval = booted_def onApplicationBootstrap_def findResumable_def LIVE_STATES_def initEngine_def
  pumpCall_def pumpResume_def startLoop.simps runStep_def setState_def setStateThen_def setStateEnd_def
  toPhase_def endRun_def enqueueCall_def enqueueResume_def known_def isRunning_def unloaded_def
  saveHeld_def saveHeldAs_def completed_def failed_def cancel_def cancelIdle_def removeFromQueue_def updRunning_def
  pause_def resume_def removeAt_def MAX_REPAIR_PASSES_def Let_def

text \<open>Two transfers queued, one slot: the second waits while the first runs.\<close>

theorem pool_bounded_and_exclusive_witness:
  "\<exists>e. engine_run [PumpResumed, Run 0 Go, Run 0 Go, Run 0 (SourcesAnswered 1)]
          (booted [''a'' \<mapsto> unloaded, ''b'' \<mapsto> unloaded] [''a'', ''b''] 1 False) = Some e
       \<and> length (runs e) = 1 \<and> queue e = [''b''] \<and> set (queue e) \<inter> rid ` set (runs e) = {}"
proof -
  let ?b = "booted [''a'' \<mapsto> unloaded, ''b'' \<mapsto> unloaded] [''a'', ''b''] 1 False"
  let ?evs = "[PumpResumed, Run 0 Go, Run 0 Go, Run 0 (SourcesAnswered 1)]"
  obtain e where e: "engine_run ?evs ?b = Some e" "length (runs e) = 1" "queue e = [''b'']"
    by (simp add: engine_eval)
  moreover have "calm ?evs ?b" by (simp add: engine_eval)
  ultimately show ?thesis using pool_bounded_and_exclusive [OF e(1)] by simp
qed

text \<open>
  The pump counts a transfer twice from the moment it registers itself: the identifier stays
  in \<open>_starting\<close> until the run ends. So once half of the pool is downloading, the pump starts
  nothing more, whatever waits in the queue.
\<close>

lemma pump_counts_running_twice:
  assumes "pool_inv e" and "fst ` set (running e) = rid ` set (runs e)"
    and "maxParallelTransfers e \<le> 2 * int (length (runs e))"
  shows "pumpResume e = e\<lparr>pumping := False\<rparr>"
proof -
  have "length (starting e) = length (runs e)" "length (running e) = length (runs e)"
    using assms(1,2) by (metis core_def core_inv.simps distinct_card length_map list.set_map pool_inv_def)+
  then show ?thesis using assms(3)
    by (simp add: pumpResume_def, subst startLoop.simps) (simp split: list.split)
qed

text \<open>
  A pool of two with three transfers: once the first has finished, one transfer downloads and
  the third stays in the queue, with no pump left to start it.
\<close>

lemma pump_counts_running_twice_witness:
  "\<exists>e. engine_run [PumpResumed,
            Run 0 Go, Run 0 Go, Run 0 (SourcesAnswered 1), Run 0 Go, Run 1 Go, Run 1 Go,
            Run 1 (SourcesAnswered 1), Run 1 Go, Run 0 (Throws Network)]
          (booted [''a'' \<mapsto> unloaded, ''b'' \<mapsto> unloaded, ''c'' \<mapsto> unloaded] [''a'', ''b'', ''c''] 2 False) = Some e
       \<and> queue e = [''c''] \<and> map rid (runs e) = [''b''] \<and> maxParallelTransfers e = 2
       \<and> pumpResume e = e\<lparr>pumping := False\<rparr>"
proof -
  let ?b = "booted [''a'' \<mapsto> unloaded, ''b'' \<mapsto> unloaded, ''c'' \<mapsto> unloaded] [''a'', ''b'', ''c''] 2 False"
  let ?evs = "[PumpResumed,
            Run 0 Go, Run 0 Go, Run 0 (SourcesAnswered 1), Run 0 Go, Run 1 Go, Run 1 Go,
            Run 1 (SourcesAnswered 1), Run 1 Go, Run 0 (Throws Network)]"
  obtain e where e: "engine_run ?evs ?b = Some e" "queue e = [''c'']" "map rid (runs e) = [''b'']"
    "maxParallelTransfers e = 2" "fst ` set (running e) = rid ` set (runs e)"
    "length (runs e) = 1" "pool_inv e"
    by (simp add: engine_eval failRow_def pool_simps)
  then show ?thesis using pump_counts_running_twice [of e] by simp
qed

text \<open>
  Two calls to \<open>enqueue\<close> for the same transfer, the second before the first has read the
  settings, both pass the check and both push: the pump starts two runs of one transfer, which
  plan, connect and write the same working file.
\<close>

lemma overlapping_enqueues_run_twice:
  "map_option (\<lambda>e. map rid (runs e))
     (engine_run [Enqueue t, Enqueue t, EnqueueResumed t, EnqueueResumed t, PumpResumed]
        (initEngine [t \<mapsto> unloaded] 2)) = Some [t, t]"
  by (simp add: engine_eval)

text \<open>
  A cancellation that arrives while a transfer is connecting is lost. The row is marked
  cancelled and its working file removed, then the run carries on from the object it had loaded,
  downloads the file again and ends in \<open>Done\<close>, whatever reason the cancellation gave.
\<close>

lemma cancel_while_connecting_is_lost:
  "map_option (\<lambda>e. map_option state (db e t))
     (engine_run [Enqueue t, EnqueueResumed t, PumpResumed, Run 0 Go, Run 0 Go, Cancel t kind]
        (initEngine [t \<mapsto> unloaded] 1)) = Some (Some Cancelled)
   \<and> map_option (\<lambda>e. (map_option state (db e t), runs e))
     (engine_run [Enqueue t, EnqueueResumed t, PumpResumed, Run 0 Go, Run 0 Go, Cancel t kind,
         Run 0 (SourcesAnswered 1), Run 0 Go, Run 0 DownloadReturned, Run 0 Go, Run 0 (Report True),
         Run 0 (Placed Renamed)]
        (initEngine [t \<mapsto> unloaded] 1)) = Some (Some Done, [])"
  by (simp add: engine_eval)

text \<open>
  Every progress report saves the object the run loaded when it started, with the state it
  had then: while the bytes are coming in, the row of a transfer that was queued reads
  \<open>Queued\<close> again, and nothing writes \<open>Downloading\<close> back until the download is over.
\<close>

lemma progress_rewrites_loaded_row:
  assumes "n < length (runs e)" and "rphase (runs e ! n) = InDownload"
  shows "\<exists>e'. engine_step (Run n Progress) e = Some e'
     \<and> db e' (rid (runs e ! n)) = Some (rheld (runs e ! n)) \<and> rphase (runs e' ! n) = InDownload"
  using assms by (simp add: runStep_def saveHeld_def saveHeldAs_def)

lemma progress_rewrites_loaded_row_witness:
  "\<exists>e e'. engine_run [Enqueue ''a'', EnqueueResumed ''a'', PumpResumed, Run 0 Go, Run 0 Go,
             Run 0 (SourcesAnswered 1), Run 0 Go] (initEngine [''a'' \<mapsto> unloaded] 1) = Some e
     \<and> map_option state (db e ''a'') = Some Downloading
     \<and> engine_step (Run 0 Progress) e = Some e' \<and> map_option state (db e' ''a'') = Some Queued"
proof -
  obtain e where e: "engine_run [Enqueue ''a'', EnqueueResumed ''a'', PumpResumed, Run 0 Go, Run 0 Go,
             Run 0 (SourcesAnswered 1), Run 0 Go] (initEngine [''a'' \<mapsto> unloaded] 1) = Some e"
    "map_option state (db e ''a'') = Some Downloading" "0 < length (runs e)"
    "rphase (runs e ! 0) = InDownload" "rid (runs e ! 0) = ''a''" "state (rheld (runs e ! 0)) = Queued"
    by (simp add: engine_eval)
  then show ?thesis using progress_rewrites_loaded_row [of 0 e] by auto
qed

subsection \<open>Only a verified file is placed\<close>

text \<open>The transfers that had a clean verification report along a trace.\<close>

fun reported :: "Event list \<Rightarrow> Engine \<Rightarrow> string set" where
  "reported [] e = {}"
| "reported (ev # evs) e =
     (case ev of Run n (Report True) \<Rightarrow> {rid (runs e ! n)} | _ \<Rightarrow> {})
     \<union> (case engine_step ev e of None \<Rightarrow> {} | Some e' \<Rightarrow> reported evs e')"

text \<open>Every row that reads \<open>Done\<close>, and every run that is placing, belongs to \<open>V\<close>; no run holds a done row.\<close>

definition run_ok :: "string set \<Rightarrow> RunState \<Rightarrow> bool" where
  "run_ok V r \<longleftrightarrow> (rphase r = InPlace \<longrightarrow> rid r \<in> V) \<and> state (rheld r) \<noteq> Done"

definition placed_inv :: "string set \<Rightarrow> Engine \<Rightarrow> bool" where
  "placed_inv V e \<longleftrightarrow>
     (\<forall>t row. db e t = Some row \<longrightarrow> state row = Done \<longrightarrow> t \<in> V) \<and> (\<forall>r\<in>set (runs e). run_ok V r)"

lemma placed_inv_mono: "placed_inv V e \<Longrightarrow> V \<subseteq> W \<Longrightarrow> placed_inv W e"
  by (fastforce simp: placed_inv_def run_ok_def)

lemma placed_inv_setRow:
  "placed_inv V e \<Longrightarrow> state row \<noteq> Done \<or> t \<in> V \<Longrightarrow> placed_inv V (e\<lparr>db := (db e)(t \<mapsto> row)\<rparr>)"
  by (auto simp: placed_inv_def)

lemma placed_inv_frame [simp]:
  "placed_inv V (e\<lparr>pumping := b\<rparr>) = placed_inv V e" "placed_inv V (e\<lparr>enqueuing := xs\<rparr>) = placed_inv V e"
  "placed_inv V (e\<lparr>queue := xs\<rparr>) = placed_inv V e" "placed_inv V (e\<lparr>running := rs\<rparr>) = placed_inv V e"
  "placed_inv V (e\<lparr>partials := ps\<rparr>) = placed_inv V e" "placed_inv V (e\<lparr>queuePaused := b\<rparr>) = placed_inv V e"
  "placed_inv V (e\<lparr>draining := b\<rparr>) = placed_inv V e"
  by (simp_all add: placed_inv_def)

lemma placed_inv_setState: "placed_inv V e \<Longrightarrow> setState t s e = Some e' \<Longrightarrow> s \<noteq> Done \<Longrightarrow> placed_inv V e'"
  by (auto simp: setState_def split: option.splits intro: placed_inv_setRow)

lemma placed_inv_cancel: "placed_inv V e \<Longrightarrow> placed_inv V (cancel t k e)"
  by (auto simp: placed_inv_def cancel_def cancelIdle_def removeFromQueue_def updRunning_def Let_def split: option.splits)

lemma placed_inv_endRun: "placed_inv V e \<Longrightarrow> placed_inv V (endRun n e)"
  using set_removeAt_subset [of n "runs e"]
  by (auto simp: placed_inv_def endRun_def pumpCall_def Let_def)

lemma placed_inv_failRow: "placed_inv V e \<Longrightarrow> placed_inv V (failRow t k e)"
  by (auto simp: failRow_def failed_def split: option.split intro: placed_inv_setRow)

lemma placed_inv_saveHeldAs:
  "placed_inv V e \<Longrightarrow> n < length (runs e) \<Longrightarrow> state (f (rheld (runs e ! n))) \<noteq> Done \<or> rid (runs e ! n) \<in> V
    \<Longrightarrow> placed_inv V (saveHeldAs n f e)"
  unfolding saveHeldAs_def by (rule placed_inv_setRow)

lemma placed_inv_saveHeld: "placed_inv V e \<Longrightarrow> n < length (runs e) \<Longrightarrow> placed_inv V (saveHeld n e)"
  unfolding saveHeld_def by (rule placed_inv_saveHeldAs) (auto simp: placed_inv_def run_ok_def)

lemma placed_inv_setRun:
  "placed_inv V e \<Longrightarrow> run_ok V r \<Longrightarrow> placed_inv V (e\<lparr>runs := (runs e)[n := r]\<rparr>)"
  by (auto simp: placed_inv_def dest: set_update_subset_insert [THEN subsetD])

lemma placed_inv_toPhase:
  "placed_inv V e \<Longrightarrow> n < length (runs e) \<Longrightarrow> p = InPlace \<longrightarrow> rid (runs e ! n) \<in> V
    \<Longrightarrow> placed_inv V (toPhase n p e)"
  unfolding toPhase_def by (rule placed_inv_setRun) (auto simp: placed_inv_def run_ok_def)

lemma placed_inv_setStateThen:
  assumes "placed_inv V e" "n < length (runs e)" "s \<noteq> Done" "p = InPlace \<longrightarrow> rid (runs e ! n) \<in> V"
  shows "placed_inv V (setStateThen n s p e)"
  unfolding setStateThen_def
  using assms by (auto split: option.split simp: runs_setState intro!: placed_inv_endRun placed_inv_toPhase
      intro: placed_inv_setState)

lemma placed_inv_setStateEnd: "placed_inv V e \<Longrightarrow> s \<noteq> Done \<Longrightarrow> placed_inv V (setStateEnd n s e)"
  unfolding setStateEnd_def by (auto split: option.split intro: placed_inv_endRun placed_inv_setState)

lemma placed_inv_startLoop: "placed_inv V e \<Longrightarrow> placed_inv V (startLoop e)"
proof (induction e rule: startLoop.induct)
  case (1 e)
  show ?case
  proof (cases "queue e \<noteq> [] \<and> int (length (running e)) + int (length (starting e)) < maxParallelTransfers e")
    case True
    then obtain t ts where q: "queue e = t # ts" by (cases "queue e") auto
    have "placed_inv V (e\<lparr>queue := ts, starting := List.insert t (starting e),
        runs := runs e @ [\<lparr>rid = t, rphase = AtLoad, rheld = unloaded\<rparr>]\<rparr>)"
      using "1.prems" by (auto simp: placed_inv_def run_ok_def unloaded_def)
    with "1.IH" [OF q] True q show ?thesis by (subst startLoop.simps) simp
  next
    case False
    with "1.prems" show ?thesis by (subst startLoop.simps) (auto split: list.split)
  qed
qed

lemma placed_inv_runStep:
  assumes inv: "placed_inv V e" and n: "n < length (runs e)" and step: "runStep n out e = Some e'"
    and V: "out = Report True \<longrightarrow> rid (runs e ! n) \<in> V"
  shows "placed_inv V e'"
proof -
  have ok: "run_ok V (runs e ! n)" using inv n by (auto simp: placed_inv_def)
  have load: "placed_inv V (toPhase n AtConnecting (e\<lparr>runs := (runs e)[n := (runs e ! n)\<lparr>rheld := row\<rparr>]\<rparr>))"
    if "state row \<noteq> Done" for row
    using that n unfolding toPhase_def
    by (auto intro!: placed_inv_setRun inv simp: run_ok_def)
  have fin: "placed_inv V (saveHeldAs n completed e)" if "rphase (runs e ! n) = InPlace"
    using placed_inv_saveHeldAs [OF inv n, of completed] that ok by (auto simp: run_ok_def)
  have bad: "placed_inv V (saveHeldAs n (failed k) e)" for k
    using placed_inv_saveHeldAs [OF inv n, of "failed k"] by (simp add: failed_def)
  show ?thesis
    using step n V inv unfolding runStep_def Let_def
    by (auto split: Outcome.splits Phase.splits nat.splits option.splits if_splits FileMoveOutcome.splits
        intro!: placed_inv_endRun placed_inv_setStateThen placed_inv_setStateEnd placed_inv_failRow
          placed_inv_cancel load fin bad placed_inv_toPhase placed_inv_saveHeld)
qed

lemma placed_inv_engine_step:
  assumes inv: "placed_inv V e" and step: "engine_step ev e = Some e'"
  shows "placed_inv (V \<union> (case ev of Run n (Report True) \<Rightarrow> {rid (runs e ! n)} | _ \<Rightarrow> {})) e'"
proof (cases ev)
  case (Run n out)
  then have n: "n < length (runs e)" and s: "runStep n out e = Some e'" using step by (auto split: if_splits)
  let ?W = "V \<union> (case ev of Run n (Report True) \<Rightarrow> {rid (runs e ! n)} | _ \<Rightarrow> {})"
  show ?thesis
    by (rule placed_inv_runStep [OF placed_inv_mono [OF inv] n s]) (auto simp: Run)
qed (use inv step in \<open>auto simp: pumpResume_def enqueueCall_def enqueueResume_def pumpCall_def pause_def
       updRunning_def resume_def removeFromQueue_def onModuleDestroy_def Let_def split: if_splits option.splits
     intro!: placed_inv_cancel intro: placed_inv_setState [rotated] placed_inv_startLoop\<close>)

lemma placed_inv_engine_run:
  "engine_run evs e = Some e' \<Longrightarrow> placed_inv V e \<Longrightarrow> placed_inv (V \<union> reported evs e) e'"
proof (induction evs arbitrary: e V)
  case (Cons ev evs)
  then obtain e1 where s: "engine_step ev e = Some e1" "engine_run evs e1 = Some e'" by (auto split: option.splits)
  from Cons.IH [OF s(2) placed_inv_engine_step [OF Cons.prems(2) s(1)]] show ?case
    using s(1) by (simp add: Un_assoc)
qed simp

text \<open>
  (C6) A transfer that was not done becomes done only if, in one of its runs, the verification of
  the working file came back clean: no order of pauses, cancellations, queue pauses, progress
  saves, failures, overlapping calls or shutdowns makes a row read \<open>Done\<close> without it.
\<close>

theorem done_only_after_clean_report:
  assumes "engine_run evs (initEngine rows m) = Some e"
    and "map_option state (db e t) = Some Done" and "map_option state (rows t) \<noteq> Some Done"
  shows "t \<in> reported evs (initEngine rows m)"
proof -
  let ?V = "{t. map_option state (rows t) = Some Done}"
  have "placed_inv ?V (initEngine rows m)" by (auto simp: placed_inv_def initEngine_def)
  from placed_inv_engine_run [OF assms(1) this] assms(2,3) show ?thesis unfolding placed_inv_def by blast
qed

theorem done_only_after_clean_report_witness:
  "\<exists>e. engine_run [Enqueue ''a'', EnqueueResumed ''a'', PumpResumed, Run 0 Go, Run 0 Go,
            Run 0 (SourcesAnswered 1), Run 0 Go, Run 0 DownloadReturned, Run 0 Go, Run 0 (Report False),
            Run 0 (Report True), Run 0 (Placed Copied)] (initEngine [''a'' \<mapsto> unloaded] 1) = Some e
     \<and> map_option state (db e ''a'') = Some Done
     \<and> ''a'' \<in> reported [Enqueue ''a'', EnqueueResumed ''a'', PumpResumed, Run 0 Go, Run 0 Go,
            Run 0 (SourcesAnswered 1), Run 0 Go, Run 0 DownloadReturned, Run 0 Go, Run 0 (Report False),
            Run 0 (Report True), Run 0 (Placed Copied)] (initEngine [''a'' \<mapsto> unloaded] 1)"
proof -
  let ?evs = "[Enqueue ''a'', EnqueueResumed ''a'', PumpResumed, Run 0 Go, Run 0 Go,
            Run 0 (SourcesAnswered 1), Run 0 Go, Run 0 DownloadReturned, Run 0 Go, Run 0 (Report False),
            Run 0 (Report True), Run 0 (Placed Copied)]"
  obtain e where e: "engine_run ?evs (initEngine [''a'' \<mapsto> unloaded] 1) = Some e"
    "map_option state (db e ''a'') = Some Done"
    by (simp add: engine_eval)
  then show ?thesis
    using done_only_after_clean_report [OF e] by (simp add: unloaded_def)
qed

subsection \<open>A paused queue\<close>

definition quiet :: "string set \<Rightarrow> Engine \<Rightarrow> bool" where
  "quiet R e \<longleftrightarrow> queuePaused e \<and> rid ` set (runs e) \<subseteq> R"

lemma quiet_frame [simp]:
  "quiet R (pumpCall e) = quiet R e" "quiet R (saveHeldAs n f e) = quiet R e" "quiet R (failRow t k e) = quiet R e"
  "quiet R (saveHeld n e) = quiet R e" "quiet R (cancel t k e) = quiet R e" "quiet R (updRunning t g e) = quiet R e"
  "quiet R (e\<lparr>running := rs\<rparr>) = quiet R e" "quiet R (e\<lparr>partials := ps\<rparr>) = quiet R e"
  "quiet R (e\<lparr>pumping := b\<rparr>) = quiet R e" "quiet R (e\<lparr>enqueuing := xs\<rparr>) = quiet R e"
  "quiet R (removeFromQueue t e) = quiet R e" "quiet R (enqueueCall t e) = quiet R e"
  "quiet R (onModuleDestroy e) = quiet R e"
  by (auto simp: quiet_def pumpCall_def saveHeldAs_def saveHeld_def failRow_def cancel_def cancelIdle_def
      removeFromQueue_def updRunning_def enqueueCall_def onModuleDestroy_def Let_def split: option.split)

lemma quiet_setState: "setState t s e = Some e' \<Longrightarrow> quiet R e' = quiet R e"
  by (auto simp: quiet_def setState_def split: option.splits)

lemma quiet_setRun: "quiet R e \<Longrightarrow> rid r \<in> R \<Longrightarrow> quiet R (e\<lparr>runs := (runs e)[n := r]\<rparr>)"
  by (auto simp: quiet_def dest: set_update_subset_insert [THEN subsetD])

lemma quiet_endRun: "quiet R e \<Longrightarrow> quiet R (endRun n e)"
  using set_removeAt_subset [of n "runs e"] by (auto simp: endRun_def pumpCall_def Let_def quiet_def)

lemma quiet_toPhase: "quiet R e \<Longrightarrow> n < length (runs e) \<Longrightarrow> quiet R (toPhase n p e)"
  unfolding toPhase_def by (rule quiet_setRun) (auto simp: quiet_def)

lemma quiet_setStateThen: "quiet R e \<Longrightarrow> n < length (runs e) \<Longrightarrow> quiet R (setStateThen n s p e)"
  unfolding setStateThen_def
  by (auto split: option.split simp: runs_setState quiet_setState intro!: quiet_endRun quiet_toPhase)

lemma quiet_setStateEnd: "quiet R e \<Longrightarrow> quiet R (setStateEnd n s e)"
  unfolding setStateEnd_def by (auto split: option.split simp: quiet_setState intro!: quiet_endRun)

lemma quiet_runStep:
  assumes "quiet R e" "n < length (runs e)" "runStep n out e = Some e'"
  shows "quiet R e'"
proof -
  have load: "quiet R (toPhase n AtConnecting (e\<lparr>runs := (runs e)[n := (runs e ! n)\<lparr>rheld := row\<rparr>]\<rparr>))" for row
    using quiet_toPhase [OF quiet_setRun [OF assms(1), of "(runs e ! n)\<lparr>rheld := row\<rparr>" n]] assms(1,2)
    by (simp add: quiet_def image_subset_iff)
  show ?thesis
    using assms unfolding runStep_def Let_def
    by (auto split: Outcome.splits Phase.splits nat.splits option.splits if_splits FileMoveOutcome.splits
        intro!: quiet_endRun quiet_setStateThen quiet_setStateEnd load quiet_toPhase)
qed

lemma quiet_engine_step:
  assumes "engine_step ev e = Some e'" "ev \<noteq> PauseQueue False" "quiet R e"
  shows "quiet R e'"
  using assms
  by (cases ev) (auto simp: pumpResume_def enqueueResume_def pause_def resume_def Let_def quiet_setState quiet_runStep
      split: if_splits option.splits, auto simp: quiet_def)

lemma quiet_engine_run:
  "engine_run evs e = Some e' \<Longrightarrow> PauseQueue False \<notin> set evs \<Longrightarrow> quiet R e \<Longrightarrow> quiet R e'"
  by (rule engine.run_invariant [of evs "quiet R"]) (auto dest: quiet_engine_step)

text \<open>
  While the queue is paused nothing is started: whatever is asked of the engine, and whatever
  the transfers in flight do, the runs at the end are among those of the beginning.
\<close>

lemma paused_queue_starts_nothing:
  assumes "engine_run evs e = Some e'" and "queuePaused e" and "PauseQueue False \<notin> set evs"
  shows "queuePaused e' \<and> rid ` set (runs e') \<subseteq> rid ` set (runs e)"
proof -
  have "quiet (rid ` set (runs e)) e" using assms(2) by (simp add: quiet_def)
  then have "quiet (rid ` set (runs e)) e'" using quiet_engine_run assms(1,3) by blast
  then show ?thesis by (simp add: quiet_def)
qed

text \<open>A transfer that downloads goes on; the one that is queued meanwhile is recorded as paused.\<close>

lemma paused_queue_starts_nothing_witness:
  "\<exists>e e'. engine_run [PumpResumed, PauseQueue True]
            (booted [''a'' \<mapsto> unloaded, ''b'' \<mapsto> unloaded] [''a''] 2 False) = Some e
     \<and> engine_run [Enqueue ''b'', Run 0 Go, EnqueueResumed ''b'', Run 0 Go] e = Some e'
     \<and> map_option state (db e' ''b'') = Some Paused \<and> rid ` set (runs e') \<subseteq> {''a''}"
proof -
  let ?b = "booted [''a'' \<mapsto> unloaded, ''b'' \<mapsto> unloaded] [''a''] 2 False"
  let ?evs = "[Enqueue ''b'', Run 0 Go, EnqueueResumed ''b'', Run 0 Go]"
  obtain e e' where e: "engine_run [PumpResumed, PauseQueue True] ?b = Some e" "engine_run ?evs e = Some e'"
    "queuePaused e" "rid ` set (runs e) = {''a''}" "map_option state (db e' ''b'') = Some Paused"
    by (simp add: engine_eval)
  from paused_queue_starts_nothing [OF e(2,3)] e show ?thesis by auto
qed

end
