(* ===== verification/Relay_Frames.thy ===== *)
theory Relay_Frames
  imports Mcs_Prelude "HOL-Library.Sublist"
begin

text \<open>
  The relay envelope: \<open>packages/api/src/services/peer-relay.frames.ts\<close>, with the constants of
  \<open>packages/shared/src/models/peer-relay.model.ts\<close>. A frame is a marker, an opcode, a session
  and a length, all big-endian, then the payload; the reader turns a byte stream cut anywhere
  into frames. The reader's buffer and its failed flag are a record; \<open>push\<close> is one call.
\<close>

unbundle bit_operations_syntax

subsection \<open>Constants and data\<close>

definition RELAY_CHANNEL_MARKER :: "32 word" where "RELAY_CHANNEL_MARKER = 0xffffffff"

definition RELAY_FRAME_HEADER_BYTES :: nat where "RELAY_FRAME_HEADER_BYTES = 13"

definition RELAY_MAX_FRAME_BYTES :: nat where "RELAY_MAX_FRAME_BYTES = 8 * 1024 * 1024"

datatype RelayOpcode = OPEN | ACCEPT | REFUSE | TEXT | BINARY | CLOSE

fun opcodeValue :: "RelayOpcode \<Rightarrow> byte" where
  "opcodeValue OPEN = 1" | "opcodeValue ACCEPT = 2" | "opcodeValue REFUSE = 3"
| "opcodeValue TEXT = 4" | "opcodeValue BINARY = 5" | "opcodeValue CLOSE = 6"

definition KNOWN_OPCODES :: "RelayOpcode list" where
  "KNOWN_OPCODES = [OPEN, ACCEPT, REFUSE, TEXT, BINARY, CLOSE]"

definition knownOpcode :: "byte \<Rightarrow> RelayOpcode option" where
  "knownOpcode b = find (\<lambda>op. opcodeValue op = b) KNOWN_OPCODES"

record RelayFrame =
  opcode :: RelayOpcode
  session :: "32 word"
  payload :: "byte list"

subsection \<open>Big-endian integers\<close>

definition writeUInt32BE :: "32 word \<Rightarrow> byte list" where
  "writeUInt32BE w = [ucast (drop_bit 24 w), ucast (drop_bit 16 w), ucast (drop_bit 8 w), ucast w]"

definition readUInt32BE :: "byte list \<Rightarrow> nat \<Rightarrow> 32 word" where
  "readUInt32BE bs i =
     push_bit 24 (ucast (bs ! i)) OR push_bit 16 (ucast (bs ! (i + 1)))
     OR push_bit 8 (ucast (bs ! (i + 2))) OR ucast (bs ! (i + 3))"

lemma length_writeUInt32BE [simp]: "length (writeUInt32BE w) = 4"
  by (simp add: writeUInt32BE_def)

lemma readUInt32BE_write: "readUInt32BE (pre @ writeUInt32BE w @ post) (length pre) = w"
proof (rule bit_word_eqI)
  fix n
  assume "n < LENGTH(32)"
  then consider "n < 8" | "8 \<le> n" "n < 16" | "16 \<le> n" "n < 24" | "24 \<le> n" "n < 32" by force
  then show "bit (readUInt32BE (pre @ writeUInt32BE w @ post) (length pre)) n = bit w n"
    by cases (auto simp: readUInt32BE_def writeUInt32BE_def nth_append bit_simps)
qed

subsection \<open>Writing\<close>

text \<open>\<open>writeUInt32BE\<close> throws on a length that does not fit in 32 bits; \<open>None\<close> is that exception.\<close>

definition frameBytes :: "RelayOpcode \<Rightarrow> 32 word \<Rightarrow> byte list \<Rightarrow> byte list" where
  "frameBytes op sess load =
     writeUInt32BE RELAY_CHANNEL_MARKER @ [opcodeValue op] @ writeUInt32BE sess
       @ writeUInt32BE (of_nat (length load)) @ load"

definition encodeRelayFrame :: "RelayOpcode \<Rightarrow> 32 word \<Rightarrow> byte list \<Rightarrow> byte list option" where
  "encodeRelayFrame op sess load =
     (if length load < 2 ^ 32 then Some (frameBytes op sess load) else None)"

definition isRelayFrame :: "byte list \<Rightarrow> bool" where
  "isRelayFrame bs \<longleftrightarrow> 4 \<le> length bs \<and> readUInt32BE bs 0 = RELAY_CHANNEL_MARKER"

subsection \<open>Reading\<close>

record RelayFrameReader =
  buffer :: "byte list"
  failed :: bool

definition freshReader :: RelayFrameReader where
  "freshReader = \<lparr>buffer = [], failed = False\<rparr>"

text \<open>One turn of the reader's loop on its buffer: wait, fail, or a frame and the rest.\<close>

datatype Turn = Wait | Fail | Got RelayFrame "byte list"

definition headerTurn :: "byte list \<Rightarrow> Turn" where
  "headerTurn buf =
     (if length buf < RELAY_FRAME_HEADER_BYTES then Wait
      else if readUInt32BE buf 0 \<noteq> RELAY_CHANNEL_MARKER then Fail
      else let size = unat (readUInt32BE buf 9) in
        if RELAY_MAX_FRAME_BYTES < size then Fail
        else case knownOpcode (buf ! 4) of
          None \<Rightarrow> Fail
        | Some op \<Rightarrow>
            let whole = RELAY_FRAME_HEADER_BYTES + size in
            if length buf < whole then Wait
            else Got \<lparr>opcode = op, session = readUInt32BE buf 5,
                      payload = take size (drop RELAY_FRAME_HEADER_BYTES buf)\<rparr> (drop whole buf))"

lemma headerTurn_shorter: "headerTurn buf = Got f rest \<Longrightarrow> length rest < length buf"
  by (auto simp: headerTurn_def RELAY_FRAME_HEADER_BYTES_def Let_def split: if_splits option.splits)

function readLoop :: "RelayFrame list \<Rightarrow> byte list \<Rightarrow> RelayFrameReader \<times> RelayFrame list" where
  "readLoop frames buf =
     (case headerTurn buf of
        Wait \<Rightarrow> (\<lparr>buffer = buf, failed = False\<rparr>, frames)
      | Fail \<Rightarrow> (\<lparr>buffer = [], failed = True\<rparr>, [])
      | Got f rest \<Rightarrow> readLoop (frames @ [f]) rest)"
  by pat_completeness auto
termination by (relation "measure (\<lambda>(frames, buf). length buf)") (auto dest: headerTurn_shorter)

declare readLoop.simps [simp del]

definition push :: "byte list \<Rightarrow> RelayFrameReader \<Rightarrow> RelayFrameReader \<times> RelayFrame list" where
  "push chunk r = (if failed r then (r, []) else readLoop [] (buffer r @ chunk))"

text \<open>A stream, delivered in pieces.\<close>

fun pushAll :: "byte list list \<Rightarrow> RelayFrameReader \<Rightarrow> RelayFrameReader \<times> RelayFrame list" where
  "pushAll [] r = (r, [])"
| "pushAll (c # cs) r =
     (case push c r of (r1, fs) \<Rightarrow> case pushAll cs r1 of (r2, gs) \<Rightarrow> (r2, fs @ gs))"

subsection \<open>The reference decoder\<close>

text \<open>What a stream means, as a whole: the frames it holds, the bytes left over, whether it broke.\<close>

function decode :: "byte list \<Rightarrow> RelayFrame list \<times> byte list \<times> bool" where
  "decode buf =
     (case headerTurn buf of
        Wait \<Rightarrow> ([], buf, False)
      | Fail \<Rightarrow> ([], [], True)
      | Got f rest \<Rightarrow> case decode rest of (fs, left, broke) \<Rightarrow> (f # fs, left, broke))"
  by pat_completeness auto
termination by (relation "measure length") (auto dest: headerTurn_shorter)

declare decode.simps [simp del]

lemma readLoop_decode:
  "readLoop frames buf =
     (case decode buf of (fs, left, broke) \<Rightarrow>
        if broke then (\<lparr>buffer = [], failed = True\<rparr>, []) else (\<lparr>buffer = left, failed = False\<rparr>, frames @ fs))"
proof (induction frames buf rule: readLoop.induct)
  case (1 frames buf)
  then show ?case
    by (subst readLoop.simps, subst decode.simps) (auto split: Turn.split prod.split)
qed

lemma decode_left_waits: "decode buf = (fs, left, False) \<Longrightarrow> headerTurn left = Wait"
proof (induction buf arbitrary: fs rule: decode.induct)
  case (1 buf)
  then show ?case by (subst (asm) decode.simps) (auto split: Turn.splits prod.splits)
qed

text \<open>More bytes never change what the reader has already understood.\<close>

lemma readUInt32BE_append: "i + 3 < length bs \<Longrightarrow> readUInt32BE (bs @ extra) i = readUInt32BE bs i"
  by (simp add: readUInt32BE_def nth_append)

lemma headerTurn_append:
  "headerTurn buf = Fail \<Longrightarrow> headerTurn (buf @ extra) = Fail"
  "headerTurn buf = Got f rest \<Longrightarrow> headerTurn (buf @ extra) = Got f (rest @ extra)"
  by (auto simp: headerTurn_def Let_def readUInt32BE_append nth_append RELAY_FRAME_HEADER_BYTES_def
      split: if_splits option.splits)

lemma decode_append:
  "decode (buf @ extra) =
     (case decode buf of (fs, left, broke) \<Rightarrow>
        if broke then (fs, [], True) else case decode (left @ extra) of (gs, left', broke') \<Rightarrow> (fs @ gs, left', broke'))"
proof (induction buf rule: decode.induct)
  case (1 buf)
  show ?case
  proof (cases "headerTurn buf")
    case Wait
    then show ?thesis by (simp add: decode.simps [of buf] split: prod.split)
  next
    case Fail
    then show ?thesis by (simp add: decode.simps [of buf] decode.simps [of "buf @ extra"] headerTurn_append(1))
  next
    case (Got f rest)
    then show ?thesis using "1.IH" [OF Got]
      by (simp add: decode.simps [of buf] decode.simps [of "buf @ extra"] headerTurn_append(2) split: prod.split)
  qed
qed

subsection \<open>Properties\<close>

lemma push_decode:
  assumes "\<not> failed r" "push chunk r = (r', out)" "decode (buffer r @ chunk) = (fs, left, broke)"
  shows "r' = (if broke then \<lparr>buffer = [], failed = True\<rparr> else \<lparr>buffer = left, failed = False\<rparr>)"
    and "out = (if broke then [] else fs)"
  using assms by (auto simp: push_def readLoop_decode split: if_splits)

lemma pushAll_failed: "failed r \<Longrightarrow> pushAll cs r = (r, [])"
  by (induction cs) (auto simp: push_def)

lemma pushAll_decode:
  assumes "\<not> failed r" "headerTurn (buffer r) = Wait" "pushAll cs r = (r', out)"
    and "decode (buffer r @ concat cs) = (fs, left, broke)"
  shows "failed r' = broke \<and> prefix out fs \<and> (\<not> broke \<longrightarrow> out = fs \<and> buffer r' = left)"
  using assms
proof (induction cs arbitrary: r out fs)
  case Nil
  then show ?case by (subst (asm) decode.simps) simp
next
  case (Cons c cs)
  obtain r1 o1 where p: "push c r = (r1, o1)" by fastforce
  obtain o2 where q: "pushAll cs r1 = (r', o2)" "out = o1 @ o2" using Cons.prems(3) p by (auto split: prod.splits)
  obtain gs mid bk where d: "decode (buffer r @ c) = (gs, mid, bk)" by (metis prod_cases3)
  note pd = push_decode [OF Cons.prems(1) p d]
  have whole: "decode (buffer r @ concat (c # cs)) =
      (if bk then (gs, [], True) else case decode (mid @ concat cs) of (hs, left', broke') \<Rightarrow> (gs @ hs, left', broke'))"
    using decode_append [of "buffer r @ c" "concat cs"] d by simp
  show ?case
  proof (cases bk)
    case True
    then show ?thesis using pd q whole Cons.prems(4) pushAll_failed [of r1 cs] by auto
  next
    case False
    obtain hs where h: "decode (mid @ concat cs) = (hs, left, broke)" "fs = gs @ hs"
      using whole False Cons.prems(4) by (auto split: prod.splits)
    have "headerTurn mid = Wait" using decode_left_waits [of "buffer r @ c" gs mid] d False by simp
    then show ?thesis using Cons.IH [of r1 o2 hs] pd q h False by auto
  qed
qed

text \<open>
  (C12) How the bytes are cut does not matter. A stream that makes sense gives the frames of the
  reference decoder and keeps the same unread bytes, whatever the reads were; a stream that does
  not leaves the reader failed for good, and what it handed out before is a prefix of the frames
  that precede the damage. Nothing else is ever handed out.
\<close>

theorem reader_ignores_segmentation:
  "case (pushAll chunks freshReader, decode (concat chunks)) of ((r, out), (frames, left, broke)) \<Rightarrow>
     failed r = broke
     \<and> (if broke then prefix out frames else out = frames \<and> buffer r = left)"
proof -
  obtain r out where p: "pushAll chunks freshReader = (r, out)" by fastforce
  obtain frames left broke where d: "decode (concat chunks) = (frames, left, broke)" by (metis prod_cases3)
  have "failed r = broke \<and> prefix out frames \<and> (\<not> broke \<longrightarrow> out = frames \<and> buffer r = left)"
    by (rule pushAll_decode [OF _ _ p])
      (simp_all add: freshReader_def headerTurn_def RELAY_FRAME_HEADER_BYTES_def d)
  with p d show ?thesis by simp
qed

definition fitsFrame :: "RelayFrame \<Rightarrow> bool" where
  "fitsFrame f \<longleftrightarrow> length (payload f) \<le> RELAY_MAX_FRAME_BYTES"

definition wire :: "RelayFrame \<Rightarrow> byte list" where
  "wire f = frameBytes (opcode f) (session f) (payload f)"

lemma knownOpcode_value [simp]: "knownOpcode (opcodeValue op) = Some op"
  by (cases op) (simp_all add: knownOpcode_def KNOWN_OPCODES_def)

lemma header_fields:
  "readUInt32BE (frameBytes op sess load @ post) 0 = RELAY_CHANNEL_MARKER"
  "(frameBytes op sess load @ post) ! 4 = opcodeValue op"
  "readUInt32BE (frameBytes op sess load @ post) 5 = sess"
  "readUInt32BE (frameBytes op sess load @ post) 9 = of_nat (length load)"
  using readUInt32BE_write [of "[]" RELAY_CHANNEL_MARKER]
    readUInt32BE_write [of "writeUInt32BE RELAY_CHANNEL_MARKER @ [opcodeValue op]" sess]
    readUInt32BE_write [of "writeUInt32BE RELAY_CHANNEL_MARKER @ [opcodeValue op] @ writeUInt32BE sess" "of_nat (length load)"]
  by (simp_all add: frameBytes_def nth_append)

lemma headerTurn_frame:
  assumes "fitsFrame f"
  shows "headerTurn (wire f @ post) = Got f post"
proof -
  have size: "unat (of_nat (length (payload f)) :: 32 word) = length (payload f)"
    using assms by (simp add: fitsFrame_def RELAY_MAX_FRAME_BYTES_def unat_of_nat take_bit_nat_eq_self)
  have len: "length (wire f) = RELAY_FRAME_HEADER_BYTES + length (payload f)"
    by (simp add: wire_def frameBytes_def RELAY_FRAME_HEADER_BYTES_def)
  have "drop RELAY_FRAME_HEADER_BYTES (wire f) = payload f"
    by (simp add: wire_def frameBytes_def RELAY_FRAME_HEADER_BYTES_def)
  then have "take (length (payload f)) (drop RELAY_FRAME_HEADER_BYTES (wire f @ post)) = payload f"
    "drop (RELAY_FRAME_HEADER_BYTES + length (payload f)) (wire f @ post) = post"
    using len by simp_all
  moreover have "readUInt32BE (wire f @ post) 0 = RELAY_CHANNEL_MARKER" "(wire f @ post) ! 4 = opcodeValue (opcode f)"
    "readUInt32BE (wire f @ post) 5 = session f" "readUInt32BE (wire f @ post) 9 = of_nat (length (payload f))"
    unfolding wire_def by (rule header_fields)+
  ultimately show ?thesis
    using assms size len by (simp add: headerTurn_def fitsFrame_def)
qed

lemma decode_wires: "list_all fitsFrame fs \<Longrightarrow> decode (concat (map wire fs)) = (fs, [], False)"
proof (induction fs)
  case Nil
  show ?case by (simp add: decode.simps headerTurn_def RELAY_FRAME_HEADER_BYTES_def)
next
  case (Cons f fs)
  then show ?case by (simp add: decode.simps [of "wire f @ _"] headerTurn_frame)
qed

text \<open>
  (C22) Whatever frames within the size limit one end writes, in whatever pieces their bytes
  arrive, the other end reads exactly those frames, in order, with nothing left over, and its
  link does not break.
\<close>

theorem frames_round_trip:
  assumes "list_all fitsFrame fs"
    and "map (\<lambda>f. encodeRelayFrame (opcode f) (session f) (payload f)) fs = map Some sent"
    and "concat chunks = concat sent"
  shows "pushAll chunks freshReader = (freshReader, fs)"
proof -
  have "sent = map wire fs" using assms(2)
  proof (induction fs arbitrary: sent)
    case (Cons f fs)
    then show ?case by (cases sent) (auto simp: encodeRelayFrame_def wire_def split: if_splits)
  qed simp
  then have "decode (concat chunks) = (fs, [], False)" using decode_wires [OF assms(1)] assms(3) by simp
  moreover obtain r out where p: "pushAll chunks freshReader = (r, out)" by fastforce
  ultimately have "failed r = False \<and> prefix out fs \<and> (\<not> False \<longrightarrow> out = fs \<and> buffer r = [])"
    by (intro pushAll_decode [OF _ _ p]) (simp_all add: freshReader_def headerTurn_def RELAY_FRAME_HEADER_BYTES_def)
  with p show ?thesis by (simp add: freshReader_def)
qed

theorem frames_round_trip_witness:
  "pushAll [[255, 255, 255], [255, 4, 0, 0, 0, 7, 0, 0, 0, 2, 9], [8]] freshReader
     = (freshReader, [\<lparr>opcode = TEXT, session = 7, payload = [9, 8]\<rparr>])"
proof (rule frames_round_trip [where sent = "[[255, 255, 255, 255, 4, 0, 0, 0, 7, 0, 0, 0, 2, 9, 8]]"])
  show "list_all fitsFrame [\<lparr>opcode = TEXT, session = 7, payload = [9, 8]\<rparr>]"
    by (simp add: fitsFrame_def RELAY_MAX_FRAME_BYTES_def)
  show "map (\<lambda>f. encodeRelayFrame (opcode f) (session f) (payload f)) [\<lparr>opcode = TEXT, session = 7, payload = [9, 8]\<rparr>]
      = map Some [[255, 255, 255, 255, 4, 0, 0, 0, 7, 0, 0, 0, 2, 9, 8]]"
    by (simp add: encodeRelayFrame_def frameBytes_def writeUInt32BE_def RELAY_CHANNEL_MARKER_def)
qed simp

text \<open>
  Frames that precede a damaged one in the same read are dropped with it; the same frames in a
  read of their own are delivered.
\<close>

lemma damage_drops_frames_of_the_same_read:
  assumes "fitsFrame f" and "headerTurn bad = Fail"
  shows "snd (pushAll [wire f @ bad] freshReader) = [] \<and> snd (pushAll [wire f, bad] freshReader) = [f]"
proof -
  have "decode bad = ([], [], True)" using assms(2) by (simp add: decode.simps)
  then have "decode (wire f @ bad) = ([f], [], True)" by (simp add: decode.simps [of "wire f @ bad"] headerTurn_frame assms(1))
  moreover have "decode (wire f) = ([f], [], False)" using decode_wires [of "[f]"] assms(1) by simp
  moreover have "decode bad = ([], [], True)" using assms(2) by (simp add: decode.simps)
  ultimately show ?thesis by (simp add: push_def freshReader_def readLoop_decode)
qed

end
