(* ===== verification/Memory_Cache.thy ===== *)
theory Memory_Cache
  imports Mcs_Prelude "HOL-Library.Sublist"
begin

text \<open>
  \<open>packages/api/src/services/cache.service.ts\<close>: the in-process backend, which keeps entries in the
  order of their last use and stays under a ceiling, and the service above it, which parses what
  it reads and coalesces concurrent misses.

  Times are milliseconds and come with the call. A JavaScript \<open>Map\<close> is an association list in
  insertion order. The Redis backend is a client of ioredis and is not modelled; what a client
  of either backend may rely on is the locale \<open>cache_backend\<close>.
\<close>

subsection \<open>The memory backend\<close>

definition MEMORY_CEILING :: int where "MEMORY_CEILING = 64 * 1024 * 1024"

record CacheEntry =
  evalue :: string
  expiresAt :: int

record MemoryBackend =
  entries :: "(string \<times> CacheEntry) list"
  held :: int

definition emptyBackend :: MemoryBackend where
  "emptyBackend = \<lparr>entries = [], held = 0\<rparr>"

definition forget :: "string \<Rightarrow> MemoryBackend \<Rightarrow> MemoryBackend" where
  "forget k m =
     (case map_of (entries m) k of
        None \<Rightarrow> m
      | Some e \<Rightarrow> m\<lparr>held := held m - int (length (evalue e)), entries := AList.delete k (entries m)\<rparr>)"

function trim :: "MemoryBackend \<Rightarrow> MemoryBackend" where
  "trim m =
     (if MEMORY_CEILING < held m
      then case entries m of
             [] \<Rightarrow> m\<lparr>held := 0\<rparr>
           | (k, e) # rest \<Rightarrow> trim (forget k m)
      else m)"
  by pat_completeness auto
termination
  by (relation "measure (\<lambda>m. length (entries m))")
    (auto simp: forget_def less_Suc_eq_le length_delete_le)

declare trim.simps [simp del]

definition memGet :: "int \<Rightarrow> string \<Rightarrow> MemoryBackend \<Rightarrow> MemoryBackend \<times> string option" where
  "memGet now k m =
     (case map_of (entries m) k of
        None \<Rightarrow> (m, None)
      | Some e \<Rightarrow>
          if expiresAt e \<le> now then (forget k m, None)
          else (m\<lparr>entries := AList.delete k (entries m) @ [(k, e)]\<rparr>, Some (evalue e)))"

definition memSet :: "int \<Rightarrow> string \<Rightarrow> string \<Rightarrow> int \<Rightarrow> MemoryBackend \<Rightarrow> MemoryBackend" where
  "memSet now k v ttl m =
     (let m1 = forget k m in
      trim (m1\<lparr>entries := AList.update k \<lparr>evalue = v, expiresAt = now + ttl * 1000\<rparr> (entries m1),
               held := held m1 + int (length v)\<rparr>))"

definition memDelete :: "string \<Rightarrow> MemoryBackend \<Rightarrow> MemoryBackend" where
  "memDelete k m = forget k m"

definition forgetWhere :: "(string \<times> CacheEntry \<Rightarrow> bool) \<Rightarrow> MemoryBackend \<Rightarrow> MemoryBackend" where
  "forgetWhere p m = foldl (\<lambda>m1 (k, e). if p (k, e) then forget k m1 else m1) m (entries m)"

definition memClear :: "string option \<Rightarrow> MemoryBackend \<Rightarrow> MemoryBackend" where
  "memClear pre m =
     (case pre of
        None \<Rightarrow> m\<lparr>entries := [], held := 0\<rparr>
      | Some p \<Rightarrow> forgetWhere (\<lambda>(k, e). prefix p k) m)"

definition memEvict :: "int \<Rightarrow> MemoryBackend \<Rightarrow> MemoryBackend" where
  "memEvict now m = forgetWhere (\<lambda>(k, e). expiresAt e \<le> now) m"

definition memDispose :: "MemoryBackend \<Rightarrow> MemoryBackend" where
  "memDispose m = m\<lparr>entries := [], held := 0\<rparr>"

subsection \<open>Accounting\<close>

definition weight :: "(string \<times> CacheEntry) list \<Rightarrow> int" where
  "weight es = sum_list (map (\<lambda>(k, e). int (length (evalue e))) es)"

definition honest_total :: "MemoryBackend \<Rightarrow> bool" where
  "honest_total m \<longleftrightarrow> distinct (map fst (entries m)) \<and> held m = weight (entries m)"

definition mem_inv :: "MemoryBackend \<Rightarrow> bool" where
  "mem_inv m \<longleftrightarrow> honest_total m \<and> held m \<le> MEMORY_CEILING"

lemma weight_simps [simp]:
  "weight [] = 0" "weight ((k, e) # es) = int (length (evalue e)) + weight es" "weight (xs @ ys) = weight xs + weight ys"
  by (simp_all add: weight_def)

lemma weight_nonneg: "0 \<le> weight es"
  by (induction es) auto

lemma delete_fresh: "k \<notin> fst ` set es \<Longrightarrow> AList.delete k es = es"
  by (induction es) auto

lemma update_fresh: "k \<notin> fst ` set es \<Longrightarrow> AList.update k v es = es @ [(k, v)]"
  by (induction es) auto

lemma update_deleted: "AList.update k v (AList.delete k es) = AList.delete k es @ [(k, v)]"
  by (rule update_fresh) (simp add: delete_keys flip: set_map)

lemma weight_delete:
  "distinct (map fst es) \<Longrightarrow> map_of es k = Some e \<Longrightarrow> weight (AList.delete k es) = weight es - int (length (evalue e))"
  by (induction es) (auto simp: delete_fresh split: if_splits)

lemma forget_total: "honest_total m \<Longrightarrow> honest_total (forget k m)"
  by (auto simp: honest_total_def forget_def weight_delete delete_keys distinct_removeAll split: option.split)

lemma forget_keys: "entries (forget k m) = AList.delete k (entries m)"
  by (auto simp: forget_def map_of_eq_None_iff delete_fresh split: option.split)

lemma forget_held: "honest_total m \<Longrightarrow> held (forget k m) \<le> held m"
  by (auto simp: forget_def split: option.split)

lemma forgetWhere_inv:
  assumes "P m" "\<And>k m. P m \<Longrightarrow> P (forget k m)"
  shows "P (forgetWhere p m)"
proof -
  have "P (foldl (\<lambda>m1 (k, e). if p (k, e) then forget k m1 else m1) m1 es)" if "P m1" for m1 es
    using that assms(2) by (induction es arbitrary: m1) (auto split: prod.split)
  with assms(1) show ?thesis by (simp add: forgetWhere_def)
qed

lemma trim_step:
  assumes "honest_total m" "entries m = (k, e) # rest"
  shows "entries (forget k m) = rest" "held (forget k m) = weight rest"
  using assms by (auto simp: forget_def honest_total_def delete_fresh)

text \<open>Trimming keeps the longest tail of the entries that fits.\<close>

lemma trim_suffix:
  assumes "honest_total m"
  shows "honest_total (trim m) \<and> held (trim m) \<le> MEMORY_CEILING
     \<and> (\<exists>gone. entries m = gone @ entries (trim m)
          \<and> (gone \<noteq> [] \<longrightarrow> MEMORY_CEILING < weight (last gone # entries (trim m))))"
  using assms
proof (induction m rule: trim.induct)
  case (1 m)
  show ?case
  proof (cases "MEMORY_CEILING < held m")
    case False
    then show ?thesis using "1.prems" by (subst (1 2 3 4) trim.simps) (auto intro!: exI [of _ "[]"])
  next
    case True
    show ?thesis
    proof (cases "entries m")
      case Nil
      then have "held m = 0" using "1.prems" by (simp add: honest_total_def)
      then show ?thesis using True by (simp add: MEMORY_CEILING_def)
    next
      case (Cons x rest)
      obtain k e where x: "x = (k, e)" by (cases x)
      let ?f = "forget k m"
      have step: "trim m = trim ?f" using True Cons x by (subst trim.simps) simp
      have ih: "honest_total (trim ?f)" "held (trim ?f) \<le> MEMORY_CEILING"
        "\<exists>gone. entries ?f = gone @ entries (trim ?f)
          \<and> (gone \<noteq> [] \<longrightarrow> MEMORY_CEILING < weight (last gone # entries (trim ?f)))"
        using "1.IH" [OF True Cons x [symmetric]] forget_total [OF "1.prems"] by blast+
      then obtain gone where g: "rest = gone @ entries (trim ?f)"
        "gone \<noteq> [] \<longrightarrow> MEMORY_CEILING < weight (last gone # entries (trim ?f))"
        using trim_step [OF "1.prems"] Cons x by auto
      have "MEMORY_CEILING < weight (x # rest)" using True "1.prems" Cons by (simp add: honest_total_def)
      then have "\<exists>gone'. entries m = gone' @ entries (trim ?f)
          \<and> (gone' \<noteq> [] \<longrightarrow> MEMORY_CEILING < weight (last gone' # entries (trim ?f)))"
        using Cons g by (intro exI [of _ "x # gone"]) auto
      then show ?thesis using ih(1,2) step by simp
    qed
  qed
qed

lemma mem_inv_ops:
  assumes "mem_inv m"
  shows "mem_inv (fst (memGet now k m))" "mem_inv (memSet now k v ttl m)" "mem_inv (memDelete k m)"
    "mem_inv (memClear pre m)" "mem_inv (memEvict now m)" "mem_inv (memDispose m)"
proof -
  have f: "mem_inv (forget k m1)" if "mem_inv m1" for k m1
    using that forget_total [of m1 k] forget_held [of m1 k] by (auto simp: mem_inv_def)
  have t: "honest_total m" using assms by (simp add: mem_inv_def)
  show "mem_inv (fst (memGet now k m))"
  proof (cases "map_of (entries m) k")
    case (Some e)
    have "honest_total (m\<lparr>entries := AList.delete k (entries m) @ [(k, e)]\<rparr>)"
      using t Some by (auto simp: honest_total_def weight_delete delete_keys distinct_removeAll)
    then show ?thesis using Some f assms by (auto simp: memGet_def mem_inv_def)
  qed (simp add: memGet_def assms)
  have "honest_total ((forget k m)\<lparr>entries := AList.update k \<lparr>evalue = v, expiresAt = now + ttl * 1000\<rparr> (entries (forget k m)),
      held := held (forget k m) + int (length v)\<rparr>)"
    using forget_total [OF t, of k]
    by (auto simp: honest_total_def forget_keys update_deleted delete_keys)
  then show "mem_inv (memSet now k v ttl m)"
    using trim_suffix unfolding memSet_def Let_def mem_inv_def by blast
  show "mem_inv (memDelete k m)" "mem_inv (memEvict now m)"
    using f assms by (auto simp: memDelete_def memEvict_def intro: forgetWhere_inv)
  have "mem_inv (m\<lparr>entries := [], held := 0\<rparr>)" by (simp add: mem_inv_def honest_total_def MEMORY_CEILING_def)
  then show "mem_inv (memClear pre m)" "mem_inv (memDispose m)"
    using f assms by (auto simp: memClear_def memDispose_def split: option.split intro: forgetWhere_inv)
qed

subsection \<open>What a backend promises\<close>

text \<open>A history of calls on a backend, each with the time it was made.\<close>

datatype CacheOp = OpGet string | OpSet string string int | OpDelete string | OpClear "string option"

fun backendStep ::
  "(int \<Rightarrow> string \<Rightarrow> 's \<Rightarrow> 's \<times> string option) \<Rightarrow> (int \<Rightarrow> string \<Rightarrow> string \<Rightarrow> int \<Rightarrow> 's \<Rightarrow> 's) \<Rightarrow>
   (string \<Rightarrow> 's \<Rightarrow> 's) \<Rightarrow> (string option \<Rightarrow> 's \<Rightarrow> 's) \<Rightarrow> int \<times> CacheOp \<Rightarrow> 's \<Rightarrow> 's" where
  "backendStep g st d c (now, OpGet k) s = fst (g now k s)"
| "backendStep g st d c (now, OpSet k v ttl) s = st now k v ttl s"
| "backendStep g st d c (now, OpDelete k) s = d k s"
| "backendStep g st d c (now, OpClear p) s = c p s"

text \<open>The ideal cache: a map that forgets nothing but what it is told to, with the expiry of each value.\<close>

definition under :: "string option \<Rightarrow> string \<Rightarrow> bool" where
  "under p k = (case p of None \<Rightarrow> True | Some q \<Rightarrow> prefix q k)"

fun idealStep :: "int \<times> CacheOp \<Rightarrow> (string \<rightharpoonup> string \<times> int) \<Rightarrow> (string \<rightharpoonup> string \<times> int)" where
  "idealStep (now, OpGet k) m = m"
| "idealStep (now, OpSet k v ttl) m = m(k \<mapsto> (v, now + ttl * 1000))"
| "idealStep (now, OpDelete k) m = m(k := None)"
| "idealStep (now, OpClear p) m = (\<lambda>k. if under p k then None else m k)"

text \<open>
  A backend may forget, but it never lies: what a read can see after an operation was written by
  it, or could be seen before, and an expired, deleted or cleared value cannot be seen.
\<close>

locale cache_backend =
  fixes look :: "int \<Rightarrow> string \<Rightarrow> 's \<Rightarrow> string option"
    and bget :: "int \<Rightarrow> string \<Rightarrow> 's \<Rightarrow> 's \<times> string option"
    and bset :: "int \<Rightarrow> string \<Rightarrow> string \<Rightarrow> int \<Rightarrow> 's \<Rightarrow> 's"
    and bdelete :: "string \<Rightarrow> 's \<Rightarrow> 's"
    and bclear :: "string option \<Rightarrow> 's \<Rightarrow> 's"
  assumes get_value: "snd (bget now k s) = look now k s"
    and get_keeps: "look t k' (fst (bget now k s)) = Some v \<Longrightarrow> look t k' s = Some v"
    and set_law: "look t k' (bset now k v ttl s) = Some w \<Longrightarrow>
      (if k' = k then w = v \<and> t < now + ttl * 1000 else look t k' s = Some w)"
    and delete_law: "look t k' (bdelete k s) = Some w \<Longrightarrow> k' \<noteq> k \<and> look t k' s = Some w"
    and clear_law: "look t k' (bclear p s) = Some w \<Longrightarrow> \<not> under p k' \<and> look t k' s = Some w"
begin

lemma step_refines:
  assumes "\<And>t k v. look t k s = Some v \<Longrightarrow> \<exists>e. m k = Some (v, e) \<and> t < e"
    and "look t k (backendStep bget bset bdelete bclear op s) = Some v"
  shows "\<exists>e. idealStep op m k = Some (v, e) \<and> t < e"
proof (cases op)
  case (Pair now c)
  show ?thesis
  proof (cases c)
    case (OpGet k')
    then show ?thesis using Pair assms(1) get_keeps [of t k now k' s v] assms(2) by simp
  next
    case (OpSet k' w ttl)
    then show ?thesis using Pair assms(1) set_law [of t k now k' w ttl s v] assms(2) by (auto split: if_splits)
  next
    case (OpDelete k')
    then show ?thesis using Pair assms(1) delete_law [of t k k' s v] assms(2) by auto
  next
    case (OpClear p)
    then show ?thesis using Pair assms(1) clear_law [of t k p s v] assms(2) by auto
  qed
qed

lemma history_refines:
  assumes "\<And>t k v. look t k s = Some v \<Longrightarrow> \<exists>e. m k = Some (v, e) \<and> t < e"
    and "snd (bget now k (fold (backendStep bget bset bdelete bclear) ops s)) = Some v"
  shows "\<exists>e. fold idealStep ops m k = Some (v, e) \<and> now < e"
  using assms(1) assms(2)
proof (induction ops arbitrary: s m)
  case Nil
  then show ?case by (simp add: get_value)
next
  case (Cons op ops)
  have "\<exists>e. fold idealStep ops (idealStep op m) k = Some (v, e) \<and> now < e"
    by (rule Cons.IH [of "backendStep bget bset bdelete bclear op s" "idealStep op m"])
      (use step_refines [OF Cons.prems(1)] Cons.prems(2) in simp_all)
  then show ?case by simp
qed

end

text \<open>What a read of the memory backend sees.\<close>

definition memLook :: "int \<Rightarrow> string \<Rightarrow> MemoryBackend \<Rightarrow> string option" where
  "memLook t k m =
     (case map_of (entries m) k of
        None \<Rightarrow> None
      | Some e \<Rightarrow> if expiresAt e \<le> t then None else Some (evalue e))"

lemma map_of_delete [simp]: "map_of (AList.delete k es) = (map_of es)(k := None)"
  by (rule AList.delete_conv')

lemma memLook_forget: "memLook t k' (forget k m) = (if k' = k then None else memLook t k' m)"
  by (simp add: memLook_def forget_keys)

lemma memLook_trim: "memLook t k (trim m) = Some v \<Longrightarrow> memLook t k m = Some v"
proof (induction m rule: trim.induct)
  case (1 m)
  show ?case
  proof (cases "entries m")
    case Nil
    then show ?thesis using "1.prems" by (subst (asm) trim.simps) (auto simp: memLook_def split: if_splits)
  next
    case (Cons x rest)
    obtain k0 e0 where x: "x = (k0, e0)" by (cases x)
    show ?thesis using "1.prems" "1.IH" [OF _ Cons x [symmetric]] Cons x
      by (subst (asm) trim.simps) (auto simp: memLook_forget split: if_splits)
  qed
qed

lemma memLook_forgetWhere:
  "memLook t k (forgetWhere p m) = Some v \<Longrightarrow>
     memLook t k m = Some v \<and> (\<forall>e. (k, e) \<in> set (entries m) \<longrightarrow> \<not> p (k, e))"
proof -
  have "memLook t k (foldl (\<lambda>m1 (k, e). if p (k, e) then forget k m1 else m1) m1 es) = Some v \<Longrightarrow>
      memLook t k m1 = Some v \<and> (\<forall>e. (k, e) \<in> set es \<longrightarrow> \<not> p (k, e))" for m1 es
  proof (induction es arbitrary: m1)
    case (Cons x es)
    obtain a b where x: "x = (a, b)" by (cases x)
    let ?m = "if p (a, b) then forget a m1 else m1"
    have "memLook t k ?m = Some v \<and> (\<forall>e. (k, e) \<in> set es \<longrightarrow> \<not> p (k, e))"
      using Cons.IH [of ?m] Cons.prems x by simp
    then show ?case using x by (auto simp: memLook_forget split: if_splits)
  qed simp
  then show "memLook t k (forgetWhere p m) = Some v \<Longrightarrow> ?thesis" by (simp add: forgetWhere_def)
qed

interpretation mem: cache_backend memLook memGet memSet memDelete memClear
proof
  fix t k k' now m v ttl w p
  show "snd (memGet now k m) = memLook now k m"
    by (auto simp: memGet_def memLook_def split: option.split)
  show "memLook t k' (fst (memGet now k m)) = Some v \<Longrightarrow> memLook t k' m = Some v"
    by (auto simp: memGet_def memLook_forget split: option.splits if_splits)
      (auto simp: memLook_def map_add_def split: option.splits if_splits)
  show "memLook t k' (memSet now k v ttl m) = Some w \<Longrightarrow>
      (if k' = k then w = v \<and> t < now + ttl * 1000 else memLook t k' m = Some w)"
    unfolding memSet_def Let_def
    by (drule memLook_trim) (auto simp: memLook_def forget_keys update_conv' split: option.splits if_splits)
  show "memLook t k' (memDelete k m) = Some w \<Longrightarrow> k' \<noteq> k \<and> memLook t k' m = Some w"
    by (simp add: memDelete_def memLook_forget split: if_splits)
  show "memLook t k' (memClear p m) = Some w \<Longrightarrow> \<not> under p k' \<and> memLook t k' m = Some w"
  proof (cases p)
    case (Some q)
    assume "memLook t k' (memClear p m) = Some w"
    then have "memLook t k' m = Some w" "\<forall>e. (k', e) \<in> set (entries m) \<longrightarrow> \<not> prefix q k'"
      using Some memLook_forgetWhere [of t k' _ m w] by (auto simp: memClear_def)
    moreover from this(1) have "\<exists>e. (k', e) \<in> set (entries m)"
      by (auto simp: memLook_def dest: map_of_SomeD split: option.splits)
    ultimately show ?thesis using Some by (auto simp: under_def)
  qed (simp add: memClear_def memLook_def)
qed

subsection \<open>Properties of the backend\<close>

definition memRun :: "(int \<times> CacheOp) list \<Rightarrow> MemoryBackend" where
  "memRun ops = fold (backendStep memGet memSet memDelete memClear) ops emptyBackend"

text \<open>
  (C23) After any history of calls, whatever their times, a read of the memory backend either
  misses or returns the value the last \<open>set\<close> of that key stored, and only before its expiry and
  when no \<open>delete\<close> or \<open>clear\<close> came after it: the refinement of the ideal cache.
\<close>

theorem cache_never_lies:
  assumes "snd (memGet now k (memRun ops)) = Some v"
  shows "\<exists>e. fold idealStep ops Map.empty k = Some (v, e) \<and> now < e"
proof -
  have "memLook t k' emptyBackend = Some w \<Longrightarrow> \<exists>e. Map.empty k' = Some (w, e) \<and> t < e" for t k' w
    by (simp add: memLook_def emptyBackend_def)
  then show ?thesis using mem.history_refines assms unfolding memRun_def by blast
qed

theorem cache_never_lies_witness:
  "snd (memGet 5 ''k'' (memRun [(0, OpSet ''k'' ''old'' 1), (1, OpSet ''k'' ''v'' 2), (2, OpDelete ''j'')])) = Some ''v''
   \<and> (\<exists>e. fold idealStep [(0, OpSet ''k'' ''old'' 1), (1, OpSet ''k'' ''v'' 2), (2, OpDelete ''j'')] Map.empty ''k''
        = Some (''v'', e) \<and> 5 < e)"
proof -
  have g: "snd (memGet 5 ''k'' (memRun [(0, OpSet ''k'' ''old'' 1), (1, OpSet ''k'' ''v'' 2), (2, OpDelete ''j'')])) = Some ''v''"
    by (simp add: memRun_def emptyBackend_def memSet_def memGet_def memDelete_def forget_def trim.simps MEMORY_CEILING_def)
  from cache_never_lies [OF g] g show ?thesis by blast
qed

text \<open>Histories with the sweep and the shutdown in them.\<close>

inductive mem_reach :: "MemoryBackend \<Rightarrow> bool" where
  reach_empty: "mem_reach emptyBackend"
| reach_get: "mem_reach m \<Longrightarrow> mem_reach (fst (memGet now k m))"
| reach_set: "mem_reach m \<Longrightarrow> mem_reach (memSet now k v ttl m)"
| reach_delete: "mem_reach m \<Longrightarrow> mem_reach (memDelete k m)"
| reach_clear: "mem_reach m \<Longrightarrow> mem_reach (memClear pre m)"
| reach_evict: "mem_reach m \<Longrightarrow> mem_reach (memEvict now m)"
| reach_dispose: "mem_reach m \<Longrightarrow> mem_reach (memDispose m)"

lemma mem_inv_empty: "mem_inv emptyBackend"
  by (simp add: mem_inv_def honest_total_def emptyBackend_def MEMORY_CEILING_def)

lemma reach_inv: "mem_reach m \<Longrightarrow> mem_inv m"
  by (induction rule: mem_reach.induct) (simp_all add: mem_inv_ops mem_inv_empty)

text \<open>
  In every reachable state of the memory backend the running total is exactly the characters
  held and is never over the ceiling; and a write evicts only from the least recently used end,
  as little as it takes: what stays is the longest tail, in order of last use, that fits.
\<close>

lemma memory_ceiling_evicts_least_recent:
  assumes "mem_reach m"
  shows "held m = weight (entries m) \<and> held m \<le> MEMORY_CEILING
     \<and> (\<exists>gone. AList.delete k (entries m) @ [(k, \<lparr>evalue = v, expiresAt = now + ttl * 1000\<rparr>)]
            = gone @ entries (memSet now k v ttl m)
          \<and> (gone = [] \<or> MEMORY_CEILING < weight (last gone # entries (memSet now k v ttl m))))"
proof -
  have inv: "honest_total m" "held m \<le> MEMORY_CEILING" using reach_inv [OF assms] by (auto simp: mem_inv_def)
  let ?m = "(forget k m)\<lparr>entries := AList.update k \<lparr>evalue = v, expiresAt = now + ttl * 1000\<rparr> (entries (forget k m)),
      held := held (forget k m) + int (length v)\<rparr>"
  have "honest_total ?m" using forget_total [OF inv(1), of k]
    by (auto simp: honest_total_def forget_keys update_deleted delete_keys)
  from trim_suffix [OF this] inv show ?thesis
    by (simp add: memSet_def honest_total_def forget_keys update_deleted Let_def) blast
qed

lemma memory_ceiling_evicts_least_recent_witness:
  "mem_reach (memSet 0 ''a'' ''x'' 60 emptyBackend)
   \<and> held (memSet 0 ''a'' ''x'' 60 emptyBackend) = 1
   \<and> held (memSet 0 ''a'' ''x'' 60 emptyBackend) \<le> MEMORY_CEILING"
proof -
  have r: "mem_reach (memSet 0 ''a'' ''x'' 60 emptyBackend)" by (intro mem_reach.intros)
  moreover have "held (memSet 0 ''a'' ''x'' 60 emptyBackend) = 1"
    by (simp add: memSet_def emptyBackend_def forget_def trim.simps MEMORY_CEILING_def)
  ultimately show ?thesis using memory_ceiling_evicts_least_recent [OF r] by blast
qed

text \<open>A value that fits is still there right after it was written.\<close>

lemma memSet_memGet:
  assumes "mem_reach m" "int (length v) \<le> MEMORY_CEILING" "t < now + ttl * 1000"
  shows "snd (memGet t k (memSet now k v ttl m)) = Some v"
proof -
  let ?e = "\<lparr>evalue = v, expiresAt = now + ttl * 1000\<rparr>"
  let ?m = "(forget k m)\<lparr>entries := AList.update k ?e (entries (forget k m)),
      held := held (forget k m) + int (length v)\<rparr>"
  have h: "honest_total ?m" using forget_total [of m k] reach_inv [OF assms(1)]
    by (auto simp: mem_inv_def honest_total_def forget_keys update_deleted delete_keys)
  obtain gone where g: "entries ?m = gone @ entries (trim ?m)"
    "gone \<noteq> [] \<longrightarrow> MEMORY_CEILING < weight (last gone # entries (trim ?m))"
    using trim_suffix [OF h] by blast
  have d: "distinct (map fst (entries (trim ?m)))" using trim_suffix [OF h] by (simp add: honest_total_def)
  have "entries (trim ?m) \<noteq> []"
  proof
    assume "entries (trim ?m) = []"
    then have "gone = AList.delete k (entries m) @ [(k, ?e)]" using g(1) by (simp add: forget_keys update_deleted)
    then show False using g(2) \<open>entries (trim ?m) = []\<close> assms(2) by simp
  qed
  then have "last (entries (trim ?m)) = (k, ?e)" using arg_cong [OF g(1), of last]
    by (simp add: forget_keys update_deleted)
  then have "(k, ?e) \<in> set (entries (trim ?m))" using \<open>entries (trim ?m) \<noteq> []\<close> last_in_set by metis
  then have "map_of (entries (trim ?m)) k = Some ?e" using d by simp
  then show ?thesis using assms(3) by (simp add: memSet_def memGet_def Let_def)
qed

subsection \<open>The service\<close>

text \<open>
  \<open>CacheService\<close> over the memory backend. Values are JSON: \<open>stringify\<close> and \<open>parse\<close> are the
  language's. \<open>inFlight\<close> maps a key to the promise its factory will settle, numbered in order of
  creation; \<open>calls\<close> are the factories still running, with the key and lifetime each was called
  for. One event is one resumption: \<open>WrapMiss\<close> is \<open>wrap\<close> after its read came back empty.
\<close>

record CacheService =
  backend :: MemoryBackend
  inFlight :: "(string \<times> nat) list"
  calls :: "(nat \<times> string \<times> int) list"
  nextPromise :: nat

definition serviceGet :: "(string \<Rightarrow> 'v option) \<Rightarrow> int \<Rightarrow> string \<Rightarrow> CacheService \<Rightarrow> CacheService \<times> 'v option" where
  "serviceGet parse now k s =
     (case memGet now k (backend s) of
        (b, None) \<Rightarrow> (s\<lparr>backend := b\<rparr>, None)
      | (b, Some raw) \<Rightarrow>
          (case parse raw of
             Some v \<Rightarrow> (s\<lparr>backend := b\<rparr>, Some v)
           | None \<Rightarrow> (s\<lparr>inFlight := AList.delete k (inFlight s), backend := memDelete k b\<rparr>, None)))"

definition serviceSet :: "('v \<Rightarrow> string) \<Rightarrow> int \<Rightarrow> string \<Rightarrow> 'v \<Rightarrow> int \<Rightarrow> CacheService \<Rightarrow> CacheService" where
  "serviceSet stringify now k v ttl s = s\<lparr>backend := memSet now k (stringify v) ttl (backend s)\<rparr>"

definition serviceDelete :: "string \<Rightarrow> CacheService \<Rightarrow> CacheService" where
  "serviceDelete k s = s\<lparr>inFlight := AList.delete k (inFlight s), backend := memDelete k (backend s)\<rparr>"

definition serviceClear :: "string option \<Rightarrow> CacheService \<Rightarrow> CacheService" where
  "serviceClear p s =
     s\<lparr>inFlight := filter (\<lambda>(k, i). \<not> under p k) (inFlight s), backend := memClear p (backend s)\<rparr>"

text \<open>After a miss: join the call in flight, or call the factory.\<close>

definition wrapMiss :: "string \<Rightarrow> int \<Rightarrow> CacheService \<Rightarrow> CacheService" where
  "wrapMiss k ttl s =
     (case map_of (inFlight s) k of
        Some i \<Rightarrow> s
      | None \<Rightarrow> s\<lparr>calls := calls s @ [(nextPromise s, k, ttl)],
                  inFlight := AList.update k (nextPromise s) (inFlight s),
                  nextPromise := Suc (nextPromise s)\<rparr>)"

text \<open>The factory settles: its value is stored, and the key's promise is dropped either way.\<close>

definition wrapSettle :: "('v \<Rightarrow> string) \<Rightarrow> int \<Rightarrow> nat \<Rightarrow> 'v option \<Rightarrow> CacheService \<Rightarrow> CacheService" where
  "wrapSettle stringify now i res s =
     (case map_of (calls s) i of
        None \<Rightarrow> s
      | Some (k, ttl) \<Rightarrow>
          let s1 = s\<lparr>calls := AList.delete i (calls s)\<rparr>;
              s2 = (case res of None \<Rightarrow> s1 | Some v \<Rightarrow> serviceSet stringify now k v ttl s1)
          in s2\<lparr>inFlight := AList.delete k (inFlight s2)\<rparr>)"

datatype 'v CacheEvent =
    WrapMiss string int
  | Settle int nat "'v option"
  | Store int string 'v int
  | Drop string
  | DropUnder "string option"

fun serviceStep :: "('v \<Rightarrow> string) \<Rightarrow> 'v CacheEvent \<Rightarrow> CacheService \<Rightarrow> CacheService" where
  "serviceStep str (WrapMiss k ttl) s = wrapMiss k ttl s"
| "serviceStep str (Settle now i res) s = wrapSettle str now i res s"
| "serviceStep str (Store now k v ttl) s = serviceSet str now k v ttl s"
| "serviceStep str (Drop k) s = serviceDelete k s"
| "serviceStep str (DropUnder p) s = serviceClear p s"

definition freshService :: CacheService where
  "freshService = \<lparr>backend = emptyBackend, inFlight = [], calls = [], nextPromise = 0\<rparr>"

fun invalidates :: "'v CacheEvent \<Rightarrow> bool" where
  "invalidates (Drop k) = True"
| "invalidates (DropUnder p) = True"
| "invalidates e = False"

definition flight_inv :: "CacheService \<Rightarrow> bool" where
  "flight_inv s \<longleftrightarrow> distinct (map fst (calls s)) \<and> distinct (map (\<lambda>(i, k, ttl). k) (calls s))
     \<and> (\<forall>(i, k, ttl)\<in>set (calls s). i < nextPromise s \<and> map_of (inFlight s) k = Some i)"

lemma flight_inv_wrapMiss: "flight_inv s \<Longrightarrow> flight_inv (wrapMiss k ttl s)"
  by (auto simp: flight_inv_def wrapMiss_def update_conv' split: option.split) fastforce+

lemma flight_inv_wrapSettle:
  assumes "flight_inv s"
  shows "flight_inv (wrapSettle str now i res s)"
proof (cases "map_of (calls s) i")
  case None
  then show ?thesis using assms by (simp add: wrapSettle_def)
next
  case (Some kt)
  obtain k ttl where kt: "kt = (k, ttl)" by (cases kt)
  have member: "(i, k, ttl) \<in> set (calls s)" using Some kt by (auto dest: map_of_SomeD)
  let ?calls = "AList.delete i (calls s)"
  have sub: "set ?calls \<subseteq> set (calls s) - {(i, k, ttl)}" by (auto simp: AList.delete_eq)
  have "k' \<noteq> k" if "(j, k', t) \<in> set ?calls" for j k' t
  proof
    assume "k' = k"
    then have "map_of (inFlight s) k = Some j" "map_of (inFlight s) k = Some i" "(j, k', t) \<noteq> (i, k, ttl)"
      using that sub member assms by (auto simp: flight_inv_def)
    moreover have "j = i \<Longrightarrow> (j, k', t) = (i, k, ttl)"
      using that sub member assms eq_key_imp_eq_value [of "calls s"] by (auto simp: flight_inv_def)
    ultimately show False by simp
  qed
  moreover have "distinct (map fst ?calls)" "distinct (map (\<lambda>(i, k, ttl). k) ?calls)"
    using assms distinct_map_filter by (auto simp: flight_inv_def AList.delete_eq)
  moreover have "calls (wrapSettle str now i res s) = ?calls"
    "inFlight (wrapSettle str now i res s) = AList.delete k (inFlight s)"
    "nextPromise (wrapSettle str now i res s) = nextPromise s"
    using Some kt by (auto simp: wrapSettle_def serviceSet_def Let_def split: option.split)
  ultimately show ?thesis using assms sub by (fastforce simp: flight_inv_def)
qed

lemma flight_inv_set: "flight_inv s \<Longrightarrow> flight_inv (serviceSet str now k v ttl s)"
  by (simp add: serviceSet_def flight_inv_def)

lemma flight_inv_run:
  "flight_inv s \<Longrightarrow> list_all (\<lambda>e. \<not> invalidates e) evs \<Longrightarrow> flight_inv (fold (serviceStep str) evs s)"
proof (induction evs arbitrary: s)
  case (Cons e evs)
  have "flight_inv (serviceStep str e s)"
    using Cons.prems flight_inv_set by (cases e) (auto intro: flight_inv_wrapMiss flight_inv_wrapSettle)
  with Cons show ?case by simp
qed simp

text \<open>
  As long as nothing is deleted or cleared, concurrent misses on one key run one factory:
  in every interleaving the factories in flight are for different keys, and a caller that misses
  a key whose factory is running joins it.
\<close>

lemma concurrent_misses_share_one_call:
  assumes "list_all (\<lambda>e. \<not> invalidates e) evs"
  shows "distinct (map (\<lambda>(i, k, ttl). k) (calls (fold (serviceStep str) evs freshService)))
     \<and> (\<forall>(i, k, ttl)\<in>set (calls (fold (serviceStep str) evs freshService)).
          wrapMiss k ttl' (fold (serviceStep str) evs freshService) = fold (serviceStep str) evs freshService)"
proof -
  have "flight_inv (fold (serviceStep str) evs freshService)"
    by (rule flight_inv_run [OF _ assms]) (simp add: flight_inv_def freshService_def)
  then show ?thesis by (auto simp: flight_inv_def wrapMiss_def)
qed

lemma concurrent_misses_share_one_call_witness:
  "let s = fold (serviceStep id) [WrapMiss ''a'' 60, WrapMiss ''b'' 60, WrapMiss ''a'' 60] freshService
   in map (\<lambda>(i, k, ttl). k) (calls s) = [''a'', ''b''] \<and> distinct (map (\<lambda>(i, k, ttl). k) (calls s))"
proof -
  let ?evs = "[WrapMiss ''a'' 60, WrapMiss ''b'' 60, WrapMiss ''a'' 60] :: string CacheEvent list"
  have "list_all (\<lambda>e. \<not> invalidates e) ?evs" by simp
  from concurrent_misses_share_one_call [OF this, of id] show ?thesis
    by (simp add: Let_def freshService_def wrapMiss_def)
qed

text \<open>
  A deletion does not reach a factory that is already running: the value it was asked for before
  the deletion is stored after it and served until it expires.
\<close>

lemma delete_loses_to_running_factory:
  "snd (serviceGet Some 2 ''k''
     (fold (serviceStep id) [WrapMiss ''k'' 60, Drop ''k'', Settle 1 0 (Some ''before'')] freshService))
   = Some ''before''"
  by (simp add: freshService_def wrapMiss_def serviceDelete_def wrapSettle_def serviceSet_def serviceGet_def
      memSet_def memGet_def memDelete_def forget_def emptyBackend_def trim.simps MEMORY_CEILING_def Let_def)

end
