(* ===== verification/Match_Graph.thy ===== *)
theory Match_Graph
  imports Mcs_Prelude "HOL-Library.List_Lexorder" "HOL-Library.Char_ord"
begin

text \<open>
  \<open>packages/api/src/services/grouping.ts\<close>: which copies are one media (connected components of
  the applied matches, a union-find without ranks) and which state the group shows.
  The parent map is an association list; \<open>root\<close> (\<open>rootOf\<close>) follows it in a loop that would not end on a
  cycle, so it is a partial function into \<open>option\<close>, and that it always returns is proved.
  Identifiers are sorted as JavaScript sorts strings, by code units.
\<close>

subsection \<open>States\<close>

datatype SyncState =
    InSync | Missing | Outdated | Conflict | Syncing | LocalOnly | AwaitingIndex | NotIndexed | UnknownState

record MatchPair =
  localItemId :: string
  remoteItemId :: string
  matchState :: SyncState

definition LANDED_STATES :: "SyncState list" where
  "LANDED_STATES = [AwaitingIndex, NotIndexed]"

definition GROUP_STATE_ORDER :: "SyncState list" where
  "GROUP_STATE_ORDER = [Syncing, Conflict, Outdated, Missing, InSync, LocalOnly]"

record StateBearing =
  serviceId :: string
  syncState :: SyncState

definition groupStateOf :: "StateBearing list \<Rightarrow> string list \<Rightarrow> SyncState" where
  "groupStateOf members local =
     (let heldHere = filter (\<lambda>m. serviceId m \<in> set local) members in
      if heldHere = [] then
        (case find (\<lambda>m. syncState m \<in> set LANDED_STATES) members of
           Some m \<Rightarrow> syncState m
         | None \<Rightarrow> Missing)
      else case find (\<lambda>s. list_ex (\<lambda>m. syncState m = s) heldHere) GROUP_STATE_ORDER of
             Some s \<Rightarrow> s
           | None \<Rightarrow> UnknownState)"

subsection \<open>The graph\<close>

record MatchGraph =
  parent :: "(string \<times> string) list"
  otherCut :: "string list"

definition emptyGraph :: MatchGraph where
  "emptyGraph = \<lparr>parent = [], otherCut = []\<rparr>"

partial_function (option) rootOf :: "(string \<times> string) list \<Rightarrow> string \<Rightarrow> string option" where
  "rootOf par x =
     (case map_of par x of
        None \<Rightarrow> Some x
      | Some p \<Rightarrow> if p = x then Some x else rootOf par p)"

declare rootOf.simps [code]

definition ensure :: "string \<Rightarrow> (string \<times> string) list \<Rightarrow> (string \<times> string) list" where
  "ensure x par = (if map_of par x = None then AList.update x x par else par)"

definition unionPair :: "string \<Rightarrow> string \<Rightarrow> (string \<times> string) list \<Rightarrow> (string \<times> string) list option" where
  "unionPair left right par =
     (let par1 = ensure right (ensure left par) in
      case (rootOf par1 left, rootOf par1 right) of
        (Some leftRoot, Some rightRoot) \<Rightarrow>
          Some (if leftRoot \<noteq> rightRoot then AList.update leftRoot rightRoot par1 else par1)
      | _ \<Rightarrow> None)"

fun absorb :: "MatchPair list \<Rightarrow> MatchGraph \<Rightarrow> MatchGraph option" where
  "absorb [] g = Some g"
| "absorb (p # ps) g =
     (case unionPair (localItemId p) (remoteItemId p) (parent g) of
        None \<Rightarrow> None
      | Some par \<Rightarrow>
          absorb ps (g\<lparr>parent := par,
            otherCut := (if matchState p = Conflict
                         then List.insert (remoteItemId p) (List.insert (localItemId p) (otherCut g))
                         else otherCut g)\<rparr>))"

fun absorbPages :: "MatchPair list list \<Rightarrow> MatchGraph \<Rightarrow> MatchGraph option" where
  "absorbPages [] g = Some g"
| "absorbPages (page # pages) g = (case absorb page g of None \<Rightarrow> None | Some g' \<Rightarrow> absorbPages pages g')"

definition besideAnotherCut :: "string \<Rightarrow> MatchGraph \<Rightarrow> bool" where
  "besideAnotherCut x g \<longleftrightarrow> x \<in> set (otherCut g)"

fun indexLoop :: "(string \<times> string) list \<Rightarrow> string list \<Rightarrow> (string \<times> string list) list \<Rightarrow> (string \<times> string list) list option" where
  "indexLoop par [] index = Some index"
| "indexLoop par (x # xs) index =
     (case rootOf par x of
        None \<Rightarrow> None
      | Some r \<Rightarrow>
          indexLoop par xs
            (AList.update r ((case map_of index r of None \<Rightarrow> [] | Some ys \<Rightarrow> ys) @ [x]) index))"

definition componentIndex :: "MatchGraph \<Rightarrow> (string \<times> string list) list option" where
  "componentIndex g = indexLoop (parent g) (sort (map fst (parent g))) []"

definition members :: "string \<Rightarrow> MatchGraph \<Rightarrow> string list option" where
  "members x g =
     (case (componentIndex g, rootOf (parent g) x) of
        (Some index, Some r) \<Rightarrow> Some (case map_of index r of None \<Rightarrow> [x] | Some ys \<Rightarrow> ys)
      | _ \<Rightarrow> None)"

subsection \<open>Roots\<close>

inductive rooted :: "(string \<times> string) list \<Rightarrow> string \<Rightarrow> string \<Rightarrow> bool" for par where
  rooted_top: "map_of par x = None \<or> map_of par x = Some x \<Longrightarrow> rooted par x x"
| rooted_up: "map_of par x = Some p \<Longrightarrow> p \<noteq> x \<Longrightarrow> rooted par p r \<Longrightarrow> rooted par x r"

inductive_cases rootedE: "rooted par x r"

lemma rooted_rootOf: "rooted par x r \<Longrightarrow> rootOf par x = Some r"
  by (induction rule: rooted.induct) (subst rootOf.simps, auto)+

lemma rooted_det: "rooted par x r \<Longrightarrow> rooted par x s \<Longrightarrow> r = s"
  using rooted_rootOf [of par x r] rooted_rootOf [of par x s] by simp

lemma rooted_is_top: "rooted par x r \<Longrightarrow> map_of par r = None \<or> map_of par r = Some r"
  by (induction rule: rooted.induct) auto

lemma map_of_update: "map_of (AList.update k v al) = (map_of al)(k \<mapsto> v)"
  by (rule AList.update_conv')

lemma rooted_ensure: "rooted par x r \<Longrightarrow> rooted (ensure y par) x r"
proof (induction rule: rooted.induct)
  case (rooted_top x)
  then show ?case by (intro rooted.rooted_top) (auto simp: ensure_def map_of_update)
next
  case (rooted_up x p r)
  then show ?case by (intro rooted.rooted_up [of _ x p]) (auto simp: ensure_def map_of_update)
qed

lemma rooted_union:
  assumes "rooted par x r" "map_of par a = Some a" "map_of par b = Some b" "a \<noteq> b"
  shows "rooted (AList.update a b par) x (if r = a then b else r)"
  using assms
proof (induction rule: rooted.induct)
  case (rooted_top x)
  have b: "rooted (AList.update a b par) b b"
    using rooted_top.prems by (intro rooted.rooted_top) (simp add: map_of_update)
  show ?case
  proof (cases "x = a")
    case True
    then show ?thesis using b rooted_top.prems by (auto intro: rooted.rooted_up simp: map_of_update)
  next
    case False
    then show ?thesis using rooted_top.hyps by (auto intro: rooted.rooted_top simp: map_of_update)
  qed
next
  case (rooted_up x p r)
  then have "x \<noteq> a" by auto
  then show ?case using rooted_up by (auto intro!: rooted.rooted_up [of _ x p] simp: map_of_update)
qed

subsection \<open>What the matches say\<close>

text \<open>The equivalence the applied matches generate.\<close>

inductive linked :: "MatchPair list \<Rightarrow> string \<Rightarrow> string \<Rightarrow> bool" for ps where
  linked_refl: "linked ps x x"
| linked_pair: "p \<in> set ps \<Longrightarrow> linked ps (localItemId p) (remoteItemId p)"
| linked_sym: "linked ps x y \<Longrightarrow> linked ps y x"
| linked_trans: "linked ps x y \<Longrightarrow> linked ps y z \<Longrightarrow> linked ps x z"

lemma linked_mono: "linked ps x y \<Longrightarrow> set ps \<subseteq> set qs \<Longrightarrow> linked qs x y"
  by (induction rule: linked.induct) (auto intro: linked.intros)

definition ids :: "MatchPair list \<Rightarrow> string set" where
  "ids ps = (\<Union>p\<in>set ps. {localItemId p, remoteItemId p})"

definition graph_inv :: "MatchPair list \<Rightarrow> (string \<times> string) list \<Rightarrow> bool" where
  "graph_inv ps par \<longleftrightarrow>
     (\<forall>x. \<exists>r. rooted par x r)
     \<and> (\<forall>x p. map_of par x = Some p \<longrightarrow> linked ps x p)
     \<and> (\<forall>p\<in>set ps. \<exists>r. rooted par (localItemId p) r \<and> rooted par (remoteItemId p) r)
     \<and> dom (map_of par) = ids ps \<and> distinct (map fst par)"

lemma ensure_facts:
  "dom (map_of (ensure x par)) = insert x (dom (map_of par))"
  "distinct (map fst par) \<Longrightarrow> distinct (map fst (ensure x par))"
  "map_of (ensure x par) y = Some p \<Longrightarrow> map_of par y = Some p \<or> y = x \<and> p = x"
  "map_of (ensure x par) x \<noteq> None"
  by (auto simp: ensure_def map_of_update distinct_update split: if_splits)

lemma rooted_dom: "rooted par x r \<Longrightarrow> x \<in> dom (map_of par) \<Longrightarrow> \<forall>y p. map_of par y = Some p \<longrightarrow> p \<in> dom (map_of par) \<Longrightarrow> map_of par r = Some r"
  by (induction rule: rooted.induct) auto

lemma linked_path:
  assumes "rooted par x r" "\<And>y p. map_of par y = Some p \<Longrightarrow> linked ps y p"
  shows "linked ps x r"
  using assms by (induction rule: rooted.induct) (auto intro: linked.intros)

definition closed :: "(string \<times> string) list \<Rightarrow> bool" where
  "closed par \<longleftrightarrow> (\<forall>y p. map_of par y = Some p \<longrightarrow> p \<in> dom (map_of par))"

lemma closed_ensure: "closed par \<Longrightarrow> closed (ensure x par)"
  by (auto simp: closed_def ensure_def map_of_update split: if_splits)

lemma closed_update: "closed par \<Longrightarrow> b \<in> dom (map_of par) \<Longrightarrow> closed (AList.update a b par)"
  by (auto simp: closed_def map_of_update split: if_splits)

lemma unionPair_inv:
  assumes inv: "graph_inv ps par" and cl: "closed par"
  shows "\<exists>par'. unionPair (localItemId p) (remoteItemId p) par = Some par' \<and> graph_inv (ps @ [p]) par' \<and> closed par'"
proof -
  let ?l = "localItemId p" and ?r = "remoteItemId p"
  define par1 where "par1 = ensure ?r (ensure ?l par)"
  have cl1: "closed par1" unfolding par1_def by (intro closed_ensure cl)
  have lift: "rooted par1 x r" if "rooted par x r" for x r unfolding par1_def by (intro rooted_ensure that)
  have all1: "\<exists>r. rooted par1 x r" for x using inv lift by (auto simp: graph_inv_def) blast
  have lk1: "linked (ps @ [p]) x q" if "map_of par1 x = Some q" for x q
  proof -
    have "map_of par x = Some q \<or> q = x" using that ensure_facts(3) unfolding par1_def by metis
    then show ?thesis using inv by (auto simp: graph_inv_def intro: linked.intros linked_mono [of ps])
  qed
  obtain a b where ab: "rooted par1 ?l a" "rooted par1 ?r b" using all1 by meson
  have dom1: "dom (map_of par1) = ids (ps @ [p])"
    using inv by (auto simp: par1_def ensure_facts(1) graph_inv_def ids_def)
  have dist1: "distinct (map fst par1)" using inv by (simp add: par1_def ensure_facts(2) graph_inv_def)
  have top: "map_of par1 a = Some a" "map_of par1 b = Some b"
    using rooted_dom [OF ab(1)] rooted_dom [OF ab(2)] cl1 dom1 by (auto simp: closed_def ids_def)
  have same1: "\<exists>r. rooted par1 (localItemId q) r \<and> rooted par1 (remoteItemId q) r" if "q \<in> set ps" for q
    using inv that lift by (auto simp: graph_inv_def) blast
  show ?thesis
  proof (cases "a = b")
    case True
    then have "unionPair ?l ?r par = Some par1"
      using rooted_rootOf [OF ab(1)] rooted_rootOf [OF ab(2)] by (simp add: unionPair_def par1_def [symmetric])
    moreover have "graph_inv (ps @ [p]) par1"
      using all1 lk1 same1 ab True dom1 dist1 by (auto simp: graph_inv_def)
    ultimately show ?thesis using cl1 by blast
  next
    case False
    define par2 where "par2 = AList.update a b par1"
    have u: "unionPair ?l ?r par = Some par2"
      using rooted_rootOf [OF ab(1)] rooted_rootOf [OF ab(2)] False
      by (simp add: unionPair_def par1_def [symmetric] par2_def)
    have move: "rooted par2 x (if r = a then b else r)" if "rooted par1 x r" for x r
      unfolding par2_def by (rule rooted_union [OF that top False])
    have "linked (ps @ [p]) a b"
    proof -
      have "linked (ps @ [p]) ?l a" "linked (ps @ [p]) ?r b" using ab lk1 linked_path by blast+
      moreover have "linked (ps @ [p]) ?l ?r" by (rule linked_pair) simp
      ultimately show ?thesis by (meson linked_sym linked_trans)
    qed
    then have lk2: "linked (ps @ [p]) x q" if "map_of par2 x = Some q" for x q
      using that lk1 by (auto simp: par2_def map_of_update split: if_splits)
    have same2: "\<exists>r. rooted par2 (localItemId q) r \<and> rooted par2 (remoteItemId q) r" if "q \<in> set (ps @ [p])" for q
    proof (cases "q = p")
      case True
      then show ?thesis using move [OF ab(1)] move [OF ab(2)] False by auto
    next
      case False
      then show ?thesis using same1 [of q] that move by auto
    qed
    have "dom (map_of par2) = ids (ps @ [p])" using dom1 top by (auto simp: par2_def map_of_update)
    moreover have "distinct (map fst par2)" using dist1 by (simp add: par2_def distinct_update)
    moreover have "\<exists>r. rooted par2 x r" for x using all1 [of x] move by blast
    ultimately have "graph_inv (ps @ [p]) par2" using lk2 same2 unfolding graph_inv_def by blast
    moreover have "closed par2" using cl1 top closed_update unfolding par2_def by blast
    ultimately show ?thesis using u by blast
  qed
qed

lemma absorb_inv:
  assumes "graph_inv ps (parent g)" "closed (parent g)"
  shows "\<exists>g'. absorb qs g = Some g' \<and> graph_inv (ps @ qs) (parent g') \<and> closed (parent g')"
  using assms
proof (induction qs arbitrary: g ps)
  case (Cons q qs)
  obtain par where par: "unionPair (localItemId q) (remoteItemId q) (parent g) = Some par"
    "graph_inv (ps @ [q]) par" "closed par"
    using unionPair_inv [OF Cons.prems] by blast
  then show ?case using Cons.IH [of "ps @ [q]" "g\<lparr>parent := par, otherCut := _\<rparr>"] by simp
qed simp

lemma absorbPages_inv:
  assumes "graph_inv ps (parent g)" "closed (parent g)"
  shows "\<exists>g'. absorbPages pages g = Some g' \<and> graph_inv (ps @ concat pages) (parent g') \<and> closed (parent g')"
  using assms
proof (induction pages arbitrary: g ps)
  case (Cons page pages)
  obtain g1 where "absorb page g = Some g1" "graph_inv (ps @ page) (parent g1)" "closed (parent g1)"
    using absorb_inv [OF Cons.prems] by blast
  then show ?case using Cons.IH [of "ps @ page" g1] by simp
qed simp

lemma graph_inv_empty: "graph_inv [] (parent emptyGraph) \<and> closed (parent emptyGraph)"
  by (auto simp: graph_inv_def emptyGraph_def ids_def closed_def intro!: exI rooted.rooted_top)

lemma same_root_linked:
  assumes inv: "graph_inv ps par"
  shows "rootOf par x = rootOf par y \<longleftrightarrow> linked ps x y"
proof
  obtain a b where ab: "rooted par x a" "rooted par y b" using inv by (meson graph_inv_def)
  have step: "linked ps u q" if "map_of par u = Some q" for u q using inv that by (simp add: graph_inv_def)
  assume "rootOf par x = rootOf par y"
  then have "a = b" using rooted_rootOf [OF ab(1)] rooted_rootOf [OF ab(2)] by simp
  then show "linked ps x y" using linked_path [OF ab(1) step] linked_path [OF ab(2) step]
    by (meson linked_sym linked_trans)
next
  assume "linked ps x y"
  then show "rootOf par x = rootOf par y"
  proof (induction rule: linked.induct)
    case (linked_pair p)
    then show ?case using inv rooted_rootOf by (metis graph_inv_def)
  qed auto
qed

text \<open>The index lists, under each root, the identifiers with that root, in order.\<close>

lemma indexLoop_spec:
  assumes "\<And>x. \<exists>r. rootOf par x = Some r"
  shows "\<exists>index'. indexLoop par xs index = Some index' \<and>
     (\<forall>r. map_of index' r =
        (case (map_of index r, filter (\<lambda>x. rootOf par x = Some r) xs) of
           (None, []) \<Rightarrow> None
         | (None, ys) \<Rightarrow> Some ys
         | (Some zs, ys) \<Rightarrow> Some (zs @ ys)))"
proof (induction xs arbitrary: index)
  case (Cons x xs)
  obtain r where r: "rootOf par x = Some r" using assms by blast
  let ?index = "AList.update r ((case map_of index r of None \<Rightarrow> [] | Some ys \<Rightarrow> ys) @ [x]) index"
  obtain index' where "indexLoop par xs ?index = Some index'"
    and spec: "\<And>s. map_of index' s = (case (map_of ?index s, filter (\<lambda>x. rootOf par x = Some s) xs) of
           (None, []) \<Rightarrow> None | (None, ys) \<Rightarrow> Some ys | (Some zs, ys) \<Rightarrow> Some (zs @ ys))"
    using Cons.IH [of ?index] by blast
  then show ?case using r
    by (auto simp: map_of_update spec split: option.splits list.splits)
qed (auto split: option.split)

text \<open>
  (C13) Fed any number of pages of applied matches, in any order, the graph is always built and its
  groups are the connected components: \<open>root\<close> returns, two items have the same root exactly when
  a chain of matches joins them, and \<open>members\<close> returns the sorted list of everything joined to an
  item, or the item alone when nothing matched it. So neither the order of the matches nor how
  they are cut into pages changes a group.
\<close>

theorem groups_are_connected_components:
  "\<exists>g. absorbPages pages emptyGraph = Some g
     \<and> (\<forall>x y. rootOf (parent g) x = rootOf (parent g) y \<longleftrightarrow> linked (concat pages) x y)
     \<and> (\<forall>x. rootOf (parent g) x \<noteq> None)
     \<and> (\<forall>x. members x g =
          Some (if x \<in> ids (concat pages)
                then sorted_list_of_set {y \<in> ids (concat pages). linked (concat pages) x y} else [x]))"
proof -
  let ?ps = "concat pages"
  obtain g where g: "absorbPages pages emptyGraph = Some g" "graph_inv ?ps (parent g)" "closed (parent g)"
    using absorbPages_inv [of "[]" emptyGraph] graph_inv_empty by auto
  have total: "\<exists>r. rootOf (parent g) x = Some r" for x
    using g(2) rooted_rootOf by (meson graph_inv_def)
  let ?keys = "sort (map fst (parent g))"
  have keys: "set ?keys = ids ?ps" "distinct ?keys" using g(2) by (auto simp: graph_inv_def dom_map_of_conv_image_fst)
  obtain index where index: "componentIndex g = Some index"
    and look: "\<And>r. map_of index r = (case filter (\<lambda>y. rootOf (parent g) y = Some r) ?keys of [] \<Rightarrow> None | ys \<Rightarrow> Some ys)"
    using indexLoop_spec [OF total, of ?keys "[]"] by (auto simp: componentIndex_def)
  have mem: "members x g = Some (if x \<in> ids ?ps then sorted_list_of_set {y \<in> ids ?ps. linked ?ps x y} else [x])" for x
  proof -
    obtain r where r: "rootOf (parent g) x = Some r" using total by blast
    let ?ys = "filter (\<lambda>y. rootOf (parent g) y = Some r) ?keys"
    have set: "set ?ys = {y \<in> ids ?ps. linked ?ps x y}"
      using keys r same_root_linked [OF g(2), of x] by auto (metis linked_sym)+
    have sorted: "?ys = sorted_list_of_set (set ?ys)"
      using keys(2) sorted_list_of_set.idem_if_sorted_distinct [of ?ys] sorted_wrt_filter [of "(\<le>)" ?keys] by simp
    have "x \<notin> ids ?ps \<Longrightarrow> ?ys = []"
    proof -
      assume x: "x \<notin> ids ?ps"
      then have "map_of (parent g) x = None" using g(2) by (auto simp: graph_inv_def)
      then have "r = x" using r by (subst (asm) rootOf.simps) simp
      then have "y \<in> ids ?ps \<Longrightarrow> rootOf (parent g) y \<noteq> Some r" for y
        using rooted_dom [of "parent g" y x] g(2,3) x rooted_rootOf
        by (metis (no_types, lifting) closed_def domI graph_inv_def option.inject)
      then show "?ys = []" using keys(1) by (auto simp: filter_empty_conv)
    qed
    moreover have "x \<in> ids ?ps \<Longrightarrow> ?ys \<noteq> []" using keys(1) r by (auto simp: filter_empty_conv)
    ultimately show ?thesis using index look [of r] r set sorted
      by (auto simp: members_def split: list.split)
  qed
  then show ?thesis using g(1) total same_root_linked [OF g(2)] by (intro exI [of _ g]) auto
qed

subsection \<open>The state a group shows\<close>

text \<open>Once a copy is held, only the held copies count, and neither their order nor their number does.\<close>

lemma group_state_reads_held_copies:
  assumes "filter (\<lambda>m. serviceId m \<in> set local) ms \<noteq> []"
    and "set (filter (\<lambda>m. serviceId m \<in> set local) ms) = set (filter (\<lambda>m. serviceId m \<in> set local) ms')"
  shows "groupStateOf ms local = groupStateOf ms' local"
proof -
  have "filter (\<lambda>m. serviceId m \<in> set local) ms' \<noteq> []" using assms by (metis set_empty)
  moreover have "list_ex P (filter (\<lambda>m. serviceId m \<in> set local) ms) = list_ex P (filter (\<lambda>m. serviceId m \<in> set local) ms')" for P
    using assms(2) by (simp only: list_ex_iff)
  ultimately show ?thesis using assms(1) by (simp add: groupStateOf_def Let_def)
qed

text \<open>A media nobody here holds is missing unless a copy of it has landed, and then it is never missing.\<close>

lemma group_state_missing_iff:
  assumes "filter (\<lambda>m. serviceId m \<in> set local) ms = []"
  shows "groupStateOf ms local = Missing \<longleftrightarrow> \<not> list_ex (\<lambda>m. syncState m \<in> set LANDED_STATES) ms"
  using assms by (auto simp: groupStateOf_def LANDED_STATES_def list_ex_iff find_None_iff split: option.split
      dest: find_Some_in)

end
