(* ===== verification/Episode_Numbering.thy ===== *)
theory Episode_Numbering
  imports Mcs_Prelude
begin

text \<open>
  \<open>packages/api/src/services/episode-numbering.ts\<close> and \<open>episode-coverage.ts\<close>: pairing a show
  numbered straight through with the same show cut into seasons, telling an episode's own
  identifiers from its show's, and which episode numbers a row covers. Every refusal of the code
  (\<open>null\<close>, an empty list of pairs) is a branch of the model. A JavaScript \<open>Map\<close> that is only asked
  for a key is a HOL map; one that is counted or iterated is an association list.
\<close>

subsection \<open>Data\<close>

record NumberedEpisode =
  epId :: string
  seasonNumber :: "int option"
  episodeNumber :: "int option"

record NumberingPair =
  absoluteId :: string
  splitId :: string

record SeasonTable =
  byAbsolute :: "int \<rightharpoonup> string"
  totalEpisodes :: int
  longest :: int

record FlatRun =
  byNumber :: "(int \<times> string) list"
  highest :: int

definition numbered :: "NumberedEpisode list \<Rightarrow> NumberedEpisode list" where
  "numbered eps =
     filter (\<lambda>e. (case episodeNumber e of None \<Rightarrow> False | Some n \<Rightarrow> 1 \<le> n) \<and> seasonNumber e \<noteq> Some 0) eps"

subsection \<open>The flat side\<close>

fun flatRows :: "NumberedEpisode list \<Rightarrow> (int \<times> string) list \<Rightarrow> (int \<times> string) list option" where
  "flatRows [] acc = Some acc"
| "flatRows (e # es) acc =
     (let n = the (episodeNumber e) in
      if map_of acc n \<noteq> None then None else flatRows es (AList.update n (epId e) acc))"

definition flatRun :: "NumberedEpisode list \<Rightarrow> FlatRun option" where
  "flatRun eps =
     (if length (remdups (map seasonNumber eps)) \<noteq> 1 then None
      else case flatRows eps [] of
        None \<Rightarrow> None
      | Some rows \<Rightarrow> Some \<lparr>byNumber = rows, highest = Max (set (map fst rows))\<rparr>)"

subsection \<open>The split side\<close>

type_synonym Seasons = "(int \<times> (int \<times> string) list) list"

fun seasonRows :: "NumberedEpisode list \<Rightarrow> Seasons \<Rightarrow> Seasons option" where
  "seasonRows [] acc = Some acc"
| "seasonRows (e # es) acc =
     (case seasonNumber e of
        None \<Rightarrow> None
      | Some k \<Rightarrow>
          if k < 1 then None
          else
            let inside = (case map_of acc k of None \<Rightarrow> [] | Some w \<Rightarrow> w);
                n = the (episodeNumber e)
            in if map_of inside n \<noteq> None then None
               else seasonRows es (AList.update k (AList.update n (epId e) inside) acc))"

fun seasonEpisodes ::
  "(int \<times> string) list \<Rightarrow> int \<Rightarrow> int list \<Rightarrow> (int \<rightharpoonup> string) \<Rightarrow> (int \<rightharpoonup> string) option" where
  "seasonEpisodes inside offset [] acc = Some acc"
| "seasonEpisodes inside offset (n # ns) acc =
     (case map_of inside n of
        None \<Rightarrow> None
      | Some i \<Rightarrow> seasonEpisodes inside offset ns (acc(offset + n \<mapsto> i)))"

fun tableLoop :: "Seasons \<Rightarrow> int list \<Rightarrow> SeasonTable \<Rightarrow> SeasonTable option" where
  "tableLoop seasons [] t = Some t"
| "tableLoop seasons (k # ks) t =
     (case map_of seasons k of
        None \<Rightarrow> None
      | Some inside \<Rightarrow>
          (case seasonEpisodes inside (totalEpisodes t) [1..int (length inside)] (byAbsolute t) of
             None \<Rightarrow> None
           | Some absolute \<Rightarrow>
               tableLoop seasons ks
                 \<lparr>byAbsolute = absolute, totalEpisodes = totalEpisodes t + int (length inside),
                  longest = max (longest t) (int (length inside))\<rparr>))"

definition seasonTable :: "NumberedEpisode list \<Rightarrow> SeasonTable option" where
  "seasonTable eps =
     (case seasonRows eps [] of
        None \<Rightarrow> None
      | Some seasons \<Rightarrow>
          if length seasons < 2 then None
          else tableLoop seasons [1..int (length seasons)]
                 \<lparr>byAbsolute = Map.empty, totalEpisodes = 0, longest = 0\<rparr>)"

subsection \<open>Pairing\<close>

fun pairRows :: "SeasonTable \<Rightarrow> (int \<times> string) list \<Rightarrow> NumberingPair list" where
  "pairRows t [] = []"
| "pairRows t ((n, i) # rows) =
     (case byAbsolute t n of
        None \<Rightarrow> pairRows t rows
      | Some s \<Rightarrow> \<lparr>absoluteId = i, splitId = s\<rparr> # pairRows t rows)"

definition alignAbsoluteNumbering ::
  "NumberedEpisode list \<Rightarrow> NumberedEpisode list \<Rightarrow> NumberingPair list" where
  "alignAbsoluteNumbering left right =
     (let ls = numbered left; rs = numbered right; fl = flatRun ls; fr = flatRun rs in
      if (fl = None) = (fr = None) then []
      else
        let flat = (case fl of Some f \<Rightarrow> f | None \<Rightarrow> the fr) in
        case seasonTable (if fl = None then ls else rs) of
          None \<Rightarrow> []
        | Some t \<Rightarrow>
            if highest flat \<le> longest t \<or> totalEpisodes t \<noteq> highest flat then []
            else pairRows t (byNumber flat))"

subsection \<open>Identifiers\<close>

record IdentifiedEpisode =
  ieId :: string
  keys :: "string list"

definition seenCount :: "IdentifiedEpisode list \<Rightarrow> string \<Rightarrow> nat" where
  "seenCount eps key = length (filter (\<lambda>e. key \<in> set (keys e)) eps)"

definition episodeIdentifierKeys :: "IdentifiedEpisode list \<Rightarrow> (string \<times> string list) list" where
  "episodeIdentifierKeys eps =
     foldl (\<lambda>acc e.
        let own = remdups (filter (\<lambda>key. seenCount eps key = 1) (keys e)) in
        if own \<noteq> [] then AList.update (ieId e) own acc else acc) [] eps"

subsection \<open>Coverage\<close>

record EpisodeSpan =
  spanStart :: "int option"
  spanEnd :: "int option"

definition spanOf :: "EpisodeSpan \<Rightarrow> int list" where
  "spanOf row =
     (case spanStart row of
        None \<Rightarrow> []
      | Some lo \<Rightarrow>
          (case spanEnd row of
             None \<Rightarrow> [lo]
           | Some hi \<Rightarrow> if hi \<le> lo then [lo] else map (\<lambda>i. lo + int i) [0..<nat (hi - lo + 1)]))"

definition episodesCovered :: "EpisodeSpan list \<Rightarrow> int set" where
  "episodesCovered rows = foldl (\<lambda>covered row. foldl (\<lambda>acc n. insert n acc) covered (spanOf row)) {} rows"

subsection \<open>What the two tables hold\<close>

text \<open>The rows of one season, and the offset at which a complete show's season starts.\<close>

definition seasonLength :: "NumberedEpisode list \<Rightarrow> int \<Rightarrow> int" where
  "seasonLength eps k = int (length (filter (\<lambda>e. seasonNumber e = Some k) eps))"

definition seasonOffset :: "NumberedEpisode list \<Rightarrow> int \<Rightarrow> int" where
  "seasonOffset eps k = (\<Sum>j = 1..<k. seasonLength eps j)"

definition seasons_spec :: "NumberedEpisode list \<Rightarrow> Seasons \<Rightarrow> bool" where
  "seasons_spec eps seasons \<longleftrightarrow>
     distinct (map fst seasons)
     \<and> (\<forall>k w. map_of seasons k = Some w \<longrightarrow>
          1 \<le> k \<and> distinct (map fst w) \<and> int (length w) = seasonLength eps k \<and> w \<noteq> []
          \<and> (\<forall>n i. map_of w n = Some i \<longrightarrow>
               (\<exists>e\<in>set eps. epId e = i \<and> seasonNumber e = Some k \<and> the (episodeNumber e) = n)))
     \<and> (\<forall>k. map_of seasons k = None \<longrightarrow> seasonLength eps k = 0)"

lemma update_new: "map_of al k = None \<Longrightarrow> AList.update k v al = al @ [(k, v)]"
  by (induction al) auto

lemma seasonLength_snoc [simp]:
  "seasonLength (eps @ [e]) k = seasonLength eps k + (if seasonNumber e = Some k then 1 else 0)"
  by (simp add: seasonLength_def)

lemma seasonRows_spec:
  "seasonRows es acc = Some seasons \<Longrightarrow> seasons_spec eps acc \<Longrightarrow> seasons_spec (eps @ es) seasons"
proof (induction es arbitrary: acc eps)
  case (Cons e es)
  obtain k where k: "seasonNumber e = Some k" "1 \<le> k" using Cons.prems(1) by (auto split: option.splits if_splits)
  define n where "n = the (episodeNumber e)"
  define w where "w = (case map_of acc k of None \<Rightarrow> [] | Some w \<Rightarrow> w)"
  define w' where "w' = AList.update n (epId e) w"
  have fresh: "map_of w n = None" and rest: "seasonRows es (AList.update k w' acc) = Some seasons"
    using Cons.prems(1) k by (auto simp: Let_def w_def w'_def n_def split: if_splits)
  have w': "w' = w @ [(n, epId e)]" unfolding w'_def by (rule update_new [OF fresh])
  have old: "distinct (map fst w)" "int (length w) = seasonLength eps k"
    "\<And>m i. map_of w m = Some i \<Longrightarrow> \<exists>e\<in>set eps. epId e = i \<and> seasonNumber e = Some k \<and> the (episodeNumber e) = m"
    using Cons.prems(2) by (cases "map_of acc k"; auto simp: seasons_spec_def w_def)+
  have new: "distinct (map fst w')" "int (length w') = seasonLength (eps @ [e]) k" "w' \<noteq> []"
    using old(1,2) fresh k by (auto simp: w' map_of_eq_None_iff)
  have newrow: "\<exists>e'\<in>set (eps @ [e]). epId e' = i \<and> seasonNumber e' = Some k \<and> the (episodeNumber e') = m"
    if "map_of w' m = Some i" for m i
    using that old(3) [of m i] k by (auto simp: w' n_def map_add_def split: option.splits if_splits)
  have "seasons_spec (eps @ [e]) (AList.update k w' acc)"
    unfolding seasons_spec_def
  proof (intro conjI allI impI)
    show "distinct (map fst (AList.update k w' acc))"
      using Cons.prems(2) by (simp add: seasons_spec_def distinct_update)
  next
    fix k' u
    assume u: "map_of (AList.update k w' acc) k' = Some u"
    then have u': "k' = k \<and> u = w' \<or> k' \<noteq> k \<and> map_of acc k' = Some u" by (auto simp: update_conv' split: if_splits)
    then show "1 \<le> k'" "distinct (map fst u)" "int (length u) = seasonLength (eps @ [e]) k'" "u \<noteq> []"
      using k new Cons.prems(2) by (auto simp: seasons_spec_def) blast
    fix m i
    assume "map_of u m = Some i"
    then show "\<exists>e'\<in>set (eps @ [e]). epId e' = i \<and> seasonNumber e' = Some k' \<and> the (episodeNumber e') = m"
      using u' newrow [of m i] Cons.prems(2) by (auto simp: seasons_spec_def)
  next
    fix k'
    assume "map_of (AList.update k w' acc) k' = None"
    then have "k' \<noteq> k" "map_of acc k' = None" by (auto simp: update_conv' split: if_splits)
    then show "seasonLength (eps @ [e]) k' = 0" using k Cons.prems(2) by (simp add: seasons_spec_def)
  qed
  from Cons.IH [OF rest this] show ?case by simp
qed simp

lemma seasonEpisodes_spec:
  "seasonEpisodes w off ns acc = Some acc' \<Longrightarrow>
     acc' = (\<lambda>a. if a - off \<in> set ns then map_of w (a - off) else acc a) \<and> (\<forall>n\<in>set ns. map_of w n \<noteq> None)"
proof (induction ns arbitrary: acc)
  case (Cons n ns)
  then obtain i where i: "map_of w n = Some i" "seasonEpisodes w off ns (acc(off + n \<mapsto> i)) = Some acc'"
    by (auto split: option.splits)
  from Cons.IH [OF this(2)] i(1) show ?case by (auto simp: fun_eq_iff)
qed simp

text \<open>The table built so far: it covers exactly the absolute numbers up to its total.\<close>

definition table_spec :: "NumberedEpisode list \<Rightarrow> int \<Rightarrow> SeasonTable \<Rightarrow> bool" where
  "table_spec eps k t \<longleftrightarrow>
     totalEpisodes t = seasonOffset eps k
     \<and> dom (byAbsolute t) = {1..totalEpisodes t}
     \<and> (\<forall>a i. byAbsolute t a = Some i \<longrightarrow>
          (\<exists>e\<in>set eps. \<exists>j m. epId e = i \<and> seasonNumber e = Some j \<and> the (episodeNumber e) = m
             \<and> 1 \<le> j \<and> j < k \<and> 1 \<le> m \<and> m \<le> seasonLength eps j \<and> a = seasonOffset eps j + m))"

lemma seasonOffset_Suc: "1 \<le> k \<Longrightarrow> seasonOffset eps (k + 1) = seasonOffset eps k + seasonLength eps k"
proof -
  assume "1 \<le> k"
  then have "{1..<k + 1} = insert k {1..<k}" by auto
  then show ?thesis by (simp add: seasonOffset_def)
qed

lemma seasonOffset_nonneg: "0 \<le> seasonOffset eps k"
  unfolding seasonOffset_def by (rule sum_nonneg) (simp add: seasonLength_def)

lemma tableLoop_spec:
  assumes "tableLoop seasons [k..K] t = Some t'" "seasons_spec eps seasons" "table_spec eps k t" "1 \<le> k" "k \<le> K + 1"
  shows "table_spec eps (K + 1) t'"
  using assms
proof (induction "nat (K + 1 - k)" arbitrary: k t)
  case 0
  then show ?case by simp
next
  case (Suc d)
  then have kK: "k \<le> K" and upto: "[k..K] = k # [k + 1..K]" by (auto simp: upto_rec1)
  obtain w absolute where w: "map_of seasons k = Some w"
    and ab: "seasonEpisodes w (totalEpisodes t) [1..int (length w)] (byAbsolute t) = Some absolute"
    and rest: "tableLoop seasons [k + 1..K] \<lparr>byAbsolute = absolute, totalEpisodes = totalEpisodes t + int (length w),
        longest = max (longest t) (int (length w))\<rparr> = Some t'"
    using Suc.prems(1) upto by (auto split: option.splits)
  let ?t = "\<lparr>byAbsolute = absolute, totalEpisodes = totalEpisodes t + int (length w),
        longest = max (longest t) (int (length w))\<rparr>"
  have len: "int (length w) = seasonLength eps k" using Suc.prems(2) w by (auto simp: seasons_spec_def)
  note sp = seasonEpisodes_spec [OF ab]
  have tot: "totalEpisodes t = seasonOffset eps k" and d: "dom (byAbsolute t) = {1..totalEpisodes t}"
    using Suc.prems(3) by (auto simp: table_spec_def)
  have pos: "0 \<le> totalEpisodes t" using tot seasonOffset_nonneg by simp
  have "table_spec eps (k + 1) ?t"
    unfolding table_spec_def
  proof (intro conjI allI impI)
    show "totalEpisodes ?t = seasonOffset eps (k + 1)" using seasonOffset_Suc [OF Suc.prems(4)] tot len by simp
    have "a \<in> dom absolute \<longleftrightarrow> a \<in> {1..totalEpisodes t + int (length w)}" for a
    proof (cases "a - totalEpisodes t \<in> set [1..int (length w)]")
      case True
      then show ?thesis using sp pos by (auto simp: domIff)
    next
      case False
      then have "absolute a = byAbsolute t a" using sp by auto
      then have "a \<in> dom absolute \<longleftrightarrow> a \<in> dom (byAbsolute t)" by (simp add: domIff)
      then show ?thesis using False d by auto
    qed
    then show "dom (byAbsolute ?t) = {1..totalEpisodes ?t}" by (intro set_eqI) simp
  next
    fix a i
    assume ai: "byAbsolute ?t a = Some i"
    show "\<exists>e\<in>set eps. \<exists>j m. epId e = i \<and> seasonNumber e = Some j \<and> the (episodeNumber e) = m
             \<and> 1 \<le> j \<and> j < k + 1 \<and> 1 \<le> m \<and> m \<le> seasonLength eps j \<and> a = seasonOffset eps j + m"
    proof (cases "a - totalEpisodes t \<in> set [1..int (length w)]")
      case True
      then have "map_of w (a - totalEpisodes t) = Some i" using ai sp by simp
      then obtain e where "e \<in> set eps" "epId e = i" "seasonNumber e = Some k" "the (episodeNumber e) = a - totalEpisodes t"
        using Suc.prems(2) w unfolding seasons_spec_def by blast
      then show ?thesis using True len tot Suc.prems(4)
        by (intro bexI [of _ e] exI [of _ k] exI [of _ "a - totalEpisodes t"]) auto
    next
      case False
      then have "byAbsolute t a = Some i" using ai sp by (auto split: if_splits)
      then show ?thesis using Suc.prems(3) by (fastforce simp: table_spec_def)
    qed
  qed
  then show ?case using Suc.hyps(1) [of "k + 1" ?t] Suc.hyps(2) rest Suc.prems(2,4) kK by simp
qed

lemma seasonTable_spec:
  assumes "seasonTable eps = Some t"
  shows "\<exists>K. table_spec eps K t"
proof -
  obtain seasons where s: "seasonRows eps [] = Some seasons"
    "tableLoop seasons [1..int (length seasons)] \<lparr>byAbsolute = Map.empty, totalEpisodes = 0, longest = 0\<rparr> = Some t"
    using assms by (auto simp: seasonTable_def split: option.splits if_splits)
  have "seasons_spec [] []" by (simp add: seasons_spec_def seasonLength_def)
  then have "seasons_spec eps seasons" using seasonRows_spec [OF s(1), of "[]"] by simp
  moreover have "table_spec eps 1 \<lparr>byAbsolute = Map.empty, totalEpisodes = 0, longest = 0\<rparr>"
    by (simp add: table_spec_def seasonOffset_def)
  ultimately show ?thesis using tableLoop_spec [OF s(2)] by fastforce
qed

lemma flatRows_spec:
  "flatRows es acc = Some rows \<Longrightarrow> rows = acc @ map (\<lambda>e. (the (episodeNumber e), epId e)) es"
proof (induction es arbitrary: acc)
  case (Cons e es)
  let ?row = "(the (episodeNumber e), epId e)"
  have "flatRows es (acc @ [?row]) = Some rows" using Cons.prems by (auto simp: Let_def update_new split: if_splits)
  from Cons.IH [OF this] show ?case by simp
qed simp

lemma pairRows_spec:
  assumes "\<forall>(n, i)\<in>set rows. byAbsolute t n \<noteq> None"
  shows "pairRows t rows = map (\<lambda>(n, i). \<lparr>absoluteId = i, splitId = the (byAbsolute t n)\<rparr>) rows"
  using assms by (induction rows) auto

lemma flatRun_rows:
  assumes "flatRun eps = Some f"
  shows "byNumber f = map (\<lambda>e. (the (episodeNumber e), epId e)) eps" "eps \<noteq> []" "highest f = Max (set (map fst (byNumber f)))"
  using assms flatRows_spec [of eps "[]"] by (auto simp: flatRun_def image_image split: if_splits option.splits)

lemma numbered_pos: "e \<in> set (numbered eps) \<Longrightarrow> 1 \<le> the (episodeNumber e)"
  by (auto simp: numbered_def split: option.splits)

text \<open>Once the guards let it through, the pairing is one split row for every numbered flat row.\<close>

definition sameEpisode :: "NumberedEpisode list \<Rightarrow> NumberedEpisode \<Rightarrow> NumberingPair \<Rightarrow> bool" where
  "sameEpisode split flat p \<longleftrightarrow>
     absoluteId p = epId flat
     \<and> (\<exists>e\<in>set split. splitId p = epId e
          \<and> (case (seasonNumber e, episodeNumber e, episodeNumber flat) of
               (Some k, Some m, Some n) \<Rightarrow> 1 \<le> k \<and> 1 \<le> m \<and> m \<le> seasonLength split k \<and> n = seasonOffset split k + m
             | _ \<Rightarrow> False))"

lemma pairs_spec:
  assumes f: "flatRun (numbered flat) = Some f" and t: "seasonTable (numbered split) = Some t"
    and total: "totalEpisodes t = highest f"
  shows "list_all2 (sameEpisode (numbered split)) (numbered flat) (pairRows t (byNumber f))"
proof -
  let ?flat = "numbered flat" and ?split = "numbered split"
  obtain K where spec: "table_spec ?split K t" using seasonTable_spec [OF t] by blast
  have rows: "byNumber f = map (\<lambda>e. (the (episodeNumber e), epId e)) ?flat" using flatRun_rows(1) [OF f] .
  have inrange: "byAbsolute t (the (episodeNumber e)) \<noteq> None" if "e \<in> set ?flat" for e
  proof -
    have "the (episodeNumber e) \<le> highest f"
      using flatRun_rows(3) [OF f] rows that by (auto intro!: Max_ge)
    then have "the (episodeNumber e) \<in> dom (byAbsolute t)"
      using numbered_pos [OF that] spec total by (auto simp: table_spec_def)
    then show ?thesis by auto
  qed
  have "pairRows t (byNumber f) = map (\<lambda>e. \<lparr>absoluteId = epId e, splitId = the (byAbsolute t (the (episodeNumber e)))\<rparr>) ?flat"
    using pairRows_spec [of "byNumber f" t] inrange by (auto simp: rows)
  moreover have "sameEpisode ?split e \<lparr>absoluteId = epId e, splitId = the (byAbsolute t (the (episodeNumber e)))\<rparr>"
    if e: "e \<in> set ?flat" for e
  proof -
    obtain i where i: "byAbsolute t (the (episodeNumber e)) = Some i" using inrange e by blast
    then obtain e' j m where e': "e' \<in> set ?split" "epId e' = i" "seasonNumber e' = Some j" "the (episodeNumber e') = m"
      "1 \<le> j" "1 \<le> m" "m \<le> seasonLength ?split j" "the (episodeNumber e) = seasonOffset ?split j + m"
      using spec by (auto simp: table_spec_def) blast
    moreover have "episodeNumber e \<noteq> None" "episodeNumber e' \<noteq> None"
      using e e'(1) by (auto simp: numbered_def split: option.splits)
    ultimately show ?thesis using i by (auto simp: sameEpisode_def intro!: bexI [of _ e'])
  qed
  ultimately show ?thesis by (simp add: list_all2_conv_all_nth)
qed

text \<open>
  (C27) Whenever the two numberings are aligned at all, one side is the flat one and every numbered
  row of it is paired, in order, with the split row at the same place in the show: the row whose
  season offset (the number of episodes of all earlier seasons) plus episode number is the flat
  number. Otherwise no pair is made.
\<close>

theorem alignment_pairs_the_same_episode:
  "alignAbsoluteNumbering left right = []
   \<or> list_all2 (sameEpisode (numbered right)) (numbered left) (alignAbsoluteNumbering left right)
   \<or> list_all2 (sameEpisode (numbered left)) (numbered right) (alignAbsoluteNumbering left right)"
proof (cases "alignAbsoluteNumbering left right = []")
  case False
  let ?fl = "flatRun (numbered left)" and ?fr = "flatRun (numbered right)"
  have one: "(?fl = None) \<noteq> (?fr = None)" using False by (auto simp: alignAbsoluteNumbering_def Let_def split: if_splits)
  show ?thesis
  proof (cases ?fl)
    case (Some f)
    then obtain t where "seasonTable (numbered right) = Some t" "totalEpisodes t = highest f"
      "alignAbsoluteNumbering left right = pairRows t (byNumber f)"
      using False one by (auto simp: alignAbsoluteNumbering_def Let_def split: option.splits if_splits)
    then show ?thesis using pairs_spec [OF Some] by simp
  next
    case None
    then obtain f where f: "?fr = Some f" using one by auto
    then obtain t where "seasonTable (numbered left) = Some t" "totalEpisodes t = highest f"
      "alignAbsoluteNumbering left right = pairRows t (byNumber f)"
      using False None by (auto simp: alignAbsoluteNumbering_def Let_def split: option.splits if_splits)
    then show ?thesis using pairs_spec [OF f] by simp
  qed
qed simp

text \<open>A show of four episodes against the same show as two seasons of two.\<close>

lemma alignment_example:
  "map (\<lambda>p. (absoluteId p, splitId p)) (alignAbsoluteNumbering
      [\<lparr>epId = ''a'', seasonNumber = None, episodeNumber = Some 3\<rparr>, \<lparr>epId = ''b'', seasonNumber = None, episodeNumber = Some 4\<rparr>]
      [\<lparr>epId = ''s'', seasonNumber = Some 1, episodeNumber = Some 1\<rparr>, \<lparr>epId = ''t'', seasonNumber = Some 1, episodeNumber = Some 2\<rparr>,
       \<lparr>epId = ''u'', seasonNumber = Some 2, episodeNumber = Some 1\<rparr>, \<lparr>epId = ''v'', seasonNumber = Some 2, episodeNumber = Some 2\<rparr>])
   = [(''a'', ''u''), (''b'', ''v'')]"
  by (simp add: alignAbsoluteNumbering_def numbered_def flatRun_def seasonTable_def Let_def upto_rec1)

subsection \<open>Identifiers and coverage\<close>

lemma identifier_fold:
  "map_of (foldl (\<lambda>acc e.
        let own = remdups (filter P (keys e)) in
        if own \<noteq> [] then AList.update (ieId e) own acc else acc) acc es) i = Some ks \<Longrightarrow>
     map_of acc i = Some ks \<or> (\<exists>e\<in>set es. ieId e = i \<and> ks = remdups (filter P (keys e)))"
proof (induction es arbitrary: acc)
  case (Cons e es)
  let ?own = "remdups (filter P (keys e))"
  let ?acc = "if ?own \<noteq> [] then AList.update (ieId e) ?own acc else acc"
  have "map_of ?acc i = Some ks \<or> (\<exists>e\<in>set es. ieId e = i \<and> ks = remdups (filter P (keys e)))"
    using Cons.IH [of ?acc] Cons.prems by (simp add: Let_def del: remdups_eq_nil_iff)
  then show ?case by (auto simp: update_conv' simp del: remdups_eq_nil_iff split: if_splits)
qed simp

text \<open>
  An identifier is attributed to an episode only if that episode carries it and no other
  episode of the same show does; a key stamped on two episodes is attributed to none.
\<close>

lemma attributed_identifier_is_unique:
  assumes "map_of (episodeIdentifierKeys eps) i = Some ks" and "key \<in> set ks"
  shows "\<exists>before e after. eps = before @ e # after \<and> ieId e = i \<and> key \<in> set (keys e)
     \<and> list_all (\<lambda>other. key \<notin> set (keys other)) (before @ after)"
proof -
  obtain e where e: "e \<in> set eps" "ieId e = i" "key \<in> set (keys e)" "seenCount eps key = 1"
    using identifier_fold [of "\<lambda>key. seenCount eps key = 1" "[]" eps i ks] assms
    by (auto simp: episodeIdentifierKeys_def)
  obtain before after where split: "eps = before @ e # after" using e(1) by (auto simp: in_set_conv_decomp)
  have "filter (\<lambda>e. key \<in> set (keys e)) before = []" "filter (\<lambda>e. key \<in> set (keys e)) after = []"
    using e(3,4) by (auto simp: seenCount_def split)
  then show ?thesis using split e by (intro exI [of _ before] exI [of _ e] exI [of _ after])
    (auto simp: filter_empty_conv list_all_iff)
qed

lemma attributed_identifier_is_unique_witness:
  "\<exists>ks before e after. map_of (episodeIdentifierKeys
        [\<lparr>ieId = ''1'', keys = [''tvdb:7'', ''imdb:1'']\<rparr>, \<lparr>ieId = ''2'', keys = [''tvdb:7'', ''imdb:2'']\<rparr>]) ''1'' = Some ks
     \<and> ks = [''imdb:1'']
     \<and> [\<lparr>ieId = ''1'', keys = [''tvdb:7'', ''imdb:1'']\<rparr>, \<lparr>ieId = ''2'', keys = [''tvdb:7'', ''imdb:2'']\<rparr>] = before @ e # after
     \<and> list_all (\<lambda>other. ''imdb:1'' \<notin> set (keys other)) (before @ after)"
proof -
  let ?eps = "[\<lparr>ieId = ''1'', keys = [''tvdb:7'', ''imdb:1'']\<rparr>, \<lparr>ieId = ''2'', keys = [''tvdb:7'', ''imdb:2'']\<rparr>]"
  have m: "map_of (episodeIdentifierKeys ?eps) ''1'' = Some [''imdb:1'']"
    by (simp add: episodeIdentifierKeys_def seenCount_def Let_def)
  from attributed_identifier_is_unique [OF m, of "''imdb:1''"] m show ?thesis by auto
qed

lemma insert_fold: "foldl (\<lambda>acc n. insert n acc) A ns = A \<union> set ns"
  by (induction ns arbitrary: A) auto

lemma covered_fold: "foldl (\<lambda>covered row. foldl (\<lambda>acc n. insert n acc) covered (spanOf row)) A rows
    = A \<union> (\<Union>row\<in>set rows. set (spanOf row))"
  by (induction rows arbitrary: A) (auto simp: insert_fold)

text \<open>A row covers its number, and everything up to its end when it states a later one.\<close>

lemma episodesCovered_iff:
  "n \<in> episodesCovered rows \<longleftrightarrow>
     (\<exists>row\<in>set rows. \<exists>a. spanStart row = Some a \<and> a \<le> n
        \<and> (n = a \<or> (\<exists>b. spanEnd row = Some b \<and> n \<le> b)))"
proof -
  have "n \<in> set (spanOf row) \<longleftrightarrow> (\<exists>a. spanStart row = Some a \<and> a \<le> n \<and> (n = a \<or> (\<exists>b. spanEnd row = Some b \<and> n \<le> b)))" for row
  proof -
    have "n \<in> set (map (\<lambda>i. a + int i) [0..<nat (b - a + 1)]) \<longleftrightarrow> a \<le> n \<and> n \<le> b" if "a < b" for a b :: int
    proof
      assume "a \<le> n \<and> n \<le> b"
      then have "n = a + int (nat (n - a)) \<and> nat (n - a) \<in> {0..<nat (b - a + 1)}" by auto
      then show "n \<in> set (map (\<lambda>i. a + int i) [0..<nat (b - a + 1)])"
        unfolding set_map set_upt by (blast intro: image_eqI)
    qed auto
    then show ?thesis
      by (cases "spanStart row"; cases "spanEnd row") (auto simp: spanOf_def simp del: set_map)
  qed
  then show ?thesis by (simp add: episodesCovered_def covered_fold)
qed

end
