(* ===== verification/Library_Paths.thy ===== *)
theory Library_Paths
  imports Mcs_Prelude "HOL-Library.Sublist" "HOL-Library.Multiset"
begin

text \<open>
  Paths: \<open>packages/api/src/services/library-path.ts\<close> (a path a media service reported, as the
  gateway reaches it), \<open>path-containment.ts\<close> (whether a requested path is under an allowed root)
  and the two helpers of \<open>packages/shared/src/models/service.model.ts\<close> they compare with.
  Node's POSIX \<open>join\<close>, \<open>normalize\<close> and \<open>resolve\<close> are modelled on components; \<open>realpath\<close> is a
  parameter, an absolute path or the errno.
\<close>

subsection \<open>Components\<close>

definition pathComponents :: "string \<Rightarrow> string list" where
  "pathComponents path = filter (\<lambda>c. c \<noteq> []) (splitOn (CHR ''/'') path)"

definition isAbsolute :: "string \<Rightarrow> bool" where
  "isAbsolute path = prefix ''/'' path"

definition render :: "string list \<Rightarrow> string" where
  "render comps = ''/'' @ joinWith ''/'' comps"

definition normaliseRootPath :: "string \<Rightarrow> string" where
  "normaliseRootPath path =
     (let trimmed = js_trim path in
      if isAbsolute trimmed then render (pathComponents trimmed) else trimmed)"

text \<open>\<open>path.posix.normalize\<close> and \<open>join\<close>: the stack of components is kept last first.\<close>

definition dotStep :: "bool \<Rightarrow> string list \<Rightarrow> string \<Rightarrow> string list" where
  "dotStep allowAbove stack c =
     (if c = [] \<or> c = ''.'' then stack
      else if c = ''..'' then
        (if stack \<noteq> [] \<and> hd stack \<noteq> ''..'' then tl stack else if allowAbove then ''..'' # stack else stack)
      else c # stack)"

definition normalComponents :: "bool \<Rightarrow> string list \<Rightarrow> string list" where
  "normalComponents allowAbove cs = rev (foldl (dotStep allowAbove) [] cs)"

definition normalizePath :: "string \<Rightarrow> string" where
  "normalizePath path =
     (if path = [] then ''.''
      else
        let absolute = isAbsolute path;
            trailing = (last path = CHR ''/'');
            comps = normalComponents (\<not> absolute) (splitOn (CHR ''/'') path)
        in if comps = [] then (if absolute then ''/'' else if trailing then ''./'' else ''.'')
           else (if absolute then ''/'' else '''') @ joinWith ''/'' comps @ (if trailing then ''/'' else ''''))"

definition joinPaths :: "string list \<Rightarrow> string" where
  "joinPaths parts = normalizePath (joinWith ''/'' (filter (\<lambda>p. p \<noteq> []) parts))"

subsection \<open>Root mappings\<close>

record RootMapping =
  remoteRoot :: string
  localRoot :: string

record PathMappedLibrary =
  paths :: "string list"
  libLocalPath :: "string option"

record Best =
  depth :: nat
  bestRoot :: string

fun bestMapping :: "string list \<Rightarrow> RootMapping list \<Rightarrow> Best option \<Rightarrow> Best option" where
  "bestMapping path [] best = best"
| "bestMapping path (m # ms) best =
     (let pre = pathComponents (remoteRoot m); local = js_trim (localRoot m) in
      if local = [] \<or> length path < length pre \<or> (case best of None \<Rightarrow> False | Some b \<Rightarrow> length pre \<le> depth b)
      then bestMapping path ms best
      else bestMapping path ms
        (if take (length pre) path = pre then Some \<lparr>depth = length pre, bestRoot = local\<rparr> else best))"

definition mappedLocalPath :: "string \<Rightarrow> RootMapping list \<Rightarrow> string option" where
  "mappedLocalPath reported mappings =
     (if \<not> isAbsolute (js_trim reported) then None
      else
        let path = pathComponents reported in
        if list_ex (\<lambda>c. c = ''..'' \<or> c = ''.'') path then None
        else case bestMapping path mappings None of
          None \<Rightarrow> None
        | Some b \<Rightarrow> Some (joinPaths (normaliseRootPath (bestRoot b) # drop (depth b) path)))"

fun derivedLocalPath :: "string list \<Rightarrow> RootMapping list \<Rightarrow> string option" where
  "derivedLocalPath [] mappings = None"
| "derivedLocalPath (entry # entries) mappings =
     (case mappedLocalPath entry mappings of
        Some local \<Rightarrow> Some local
      | None \<Rightarrow> derivedLocalPath entries mappings)"

fun derivedRootsLoop :: "string list \<Rightarrow> RootMapping list \<Rightarrow> string list \<Rightarrow> string list" where
  "derivedRootsLoop [] mappings roots = roots"
| "derivedRootsLoop (entry # entries) mappings roots =
     derivedRootsLoop entries mappings
       (case mappedLocalPath entry mappings of
          Some local \<Rightarrow> if local \<in> set roots then roots else roots @ [local]
        | None \<Rightarrow> roots)"

definition derivedLocalRoots :: "string list \<Rightarrow> RootMapping list \<Rightarrow> string list" where
  "derivedLocalRoots reported mappings = derivedRootsLoop reported mappings []"

text \<open>A service that states no mapping is the empty list.\<close>

definition reachableRoot :: "PathMappedLibrary \<Rightarrow> string \<Rightarrow> RootMapping list \<Rightarrow> string option" where
  "reachableRoot library aRoot mappings =
     (let mapped = mappedLocalPath aRoot mappings; primary = derivedLocalPath (paths library) mappings in
      if mapped = None \<or> mapped = primary
      then (case libLocalPath library of Some p \<Rightarrow> Some p | None \<Rightarrow> mapped)
      else mapped)"

fun toLocalLoop :: "PathMappedLibrary \<Rightarrow> RootMapping list \<Rightarrow> string \<Rightarrow> string list \<Rightarrow> string option" where
  "toLocalLoop library mappings reported [] = None"
| "toLocalLoop library mappings reported (aRoot # roots) =
     (if reported \<noteq> aRoot \<and> \<not> prefix (aRoot @ ''/'') reported
      then toLocalLoop library mappings reported roots
      else case reachableRoot library aRoot mappings of
        None \<Rightarrow> None
      | Some base \<Rightarrow>
          if base = [] then None
          else Some (if reported = aRoot then base else joinPaths [base, drop (length aRoot) reported]))"

definition toLocalPath :: "PathMappedLibrary \<Rightarrow> string option \<Rightarrow> RootMapping list \<Rightarrow> string option" where
  "toLocalPath library reported mappings =
     (case reported of
        None \<Rightarrow> None
      | Some r \<Rightarrow> if r = [] then None else toLocalLoop library mappings r (paths library))"

subsection \<open>Stating mappings\<close>

datatype MappingSide = RemoteSide | LocalSide

record RootMappingFault =
  faultIndex :: nat
  faultSide :: MappingSide
  faultKey :: string

definition sideOf :: "MappingSide \<Rightarrow> RootMapping \<Rightarrow> string" where
  "sideOf side m = (case side of RemoteSide \<Rightarrow> remoteRoot m | LocalSide \<Rightarrow> localRoot m)"

definition rootMappingSideFault :: "RootMapping list \<Rightarrow> nat \<Rightarrow> MappingSide \<Rightarrow> string option" where
  "rootMappingSideFault mappings index side =
     (let value = js_trim (sideOf side (mappings ! index)) in
      if value = [] then Some ''error.service.mapping_empty''
      else if \<not> isAbsolute value then Some ''error.service.mapping_relative''
      else if side = RemoteSide
        \<and> normaliseRootPath value \<in> set (map (\<lambda>m. normaliseRootPath (remoteRoot m)) (take index mappings))
      then Some ''error.service.mapping_duplicate''
      else None)"

fun faultLoop :: "RootMapping list \<Rightarrow> (nat \<times> MappingSide) list \<Rightarrow> RootMappingFault option" where
  "faultLoop mappings [] = None"
| "faultLoop mappings ((index, side) # todo) =
     (case rootMappingSideFault mappings index side of
        Some key \<Rightarrow> Some \<lparr>faultIndex = index, faultSide = side, faultKey = key\<rparr>
      | None \<Rightarrow> faultLoop mappings todo)"

definition findRootMappingFault :: "RootMapping list \<Rightarrow> RootMappingFault option" where
  "findRootMappingFault mappings =
     faultLoop mappings (concat (map (\<lambda>index. [(index, RemoteSide), (index, LocalSide)]) [0..<length mappings]))"

text \<open>What is stored, once the request was accepted.\<close>

definition normaliseMappings :: "RootMapping list \<Rightarrow> RootMapping list" where
  "normaliseMappings mappings =
     map (\<lambda>m. \<lparr>remoteRoot = normaliseRootPath (remoteRoot m), localRoot = normaliseRootPath (localRoot m)\<rparr>) mappings"

subsection \<open>Containment\<close>

datatype PathVerdict = Inside | Outside | MissingPath | Unreadable

record ResolvedPath =
  pverdict :: PathVerdict
  rpath :: string
  rroot :: "string option"

definition isInside :: "string \<Rightarrow> string \<Rightarrow> bool" where
  "isInside path aRoot \<longleftrightarrow>
     path = aRoot \<or> prefix (if aRoot \<noteq> [] \<and> last aRoot = CHR ''/'' then aRoot else aRoot @ ''/'') path"

text \<open>\<open>path.resolve\<close> of a request, against the working directory of the process.\<close>

definition resolveRequest :: "string list \<Rightarrow> string \<Rightarrow> string list" where
  "resolveRequest cwd requested =
     normalComponents False
       (if isAbsolute requested then splitOn (CHR ''/'') requested else cwd @ splitOn (CHR ''/'') requested)"

type_synonym Realpath = "string list \<Rightarrow> string + string list"

text \<open>
  The real path of the deepest ancestor that exists, with the missing tail put back. The path is
  given last component first, so that \<open>dirname\<close> and \<open>basename\<close> are \<open>tl\<close> and \<open>hd\<close>; \<open>None\<close> is
  \<open>UnresolvablePath\<close>. The last case is the filesystem root that does not exist.
\<close>

fun resolveDeepestLoop :: "Realpath \<Rightarrow> string list \<Rightarrow> string list \<Rightarrow> string list \<Rightarrow> (string list \<times> bool) option" where
  "resolveDeepestLoop realpath wanted revCurrent missing =
     (case realpath (rev revCurrent) of
        Inr found \<Rightarrow> Some (found @ missing, missing = [])
      | Inl errno \<Rightarrow>
          if errno \<noteq> ''ENOENT'' then None
          else case revCurrent of
            [] \<Rightarrow> Some (wanted, False)
          | c # parent \<Rightarrow> resolveDeepestLoop realpath wanted parent (c # missing))"

definition resolveDeepest :: "Realpath \<Rightarrow> string list \<Rightarrow> (string list \<times> bool) option" where
  "resolveDeepest realpath wanted = resolveDeepestLoop realpath wanted (rev wanted) []"

definition realRoot :: "Realpath \<Rightarrow> string list \<Rightarrow> string \<Rightarrow> string" where
  "realRoot realpath cwd aRoot =
     (let absolute = resolveRequest cwd aRoot in
      case realpath absolute of Inr found \<Rightarrow> render found | Inl e \<Rightarrow> render absolute)"

definition resolveRoots :: "Realpath \<Rightarrow> string list \<Rightarrow> string list \<Rightarrow> string list" where
  "resolveRoots realpath cwd roots = map (realRoot realpath cwd) roots"

definition resolveWithinRoots :: "Realpath \<Rightarrow> string list \<Rightarrow> string \<Rightarrow> string list \<Rightarrow> ResolvedPath" where
  "resolveWithinRoots realpath cwd requested roots =
     (let allowed = resolveRoots realpath cwd roots; wanted = resolveRequest cwd requested in
      case resolveDeepest realpath wanted of
        None \<Rightarrow>
          (case find (\<lambda>aRoot. isInside (render wanted) aRoot) allowed of
             None \<Rightarrow> \<lparr>pverdict = Outside, rpath = render wanted, rroot = None\<rparr>
           | Some aRoot \<Rightarrow> \<lparr>pverdict = Unreadable, rpath = render wanted, rroot = Some aRoot\<rparr>)
      | Some (path, exists) \<Rightarrow>
          (case find (\<lambda>aRoot. isInside (render path) aRoot) allowed of
             None \<Rightarrow> \<lparr>pverdict = Outside, rpath = render path, rroot = None\<rparr>
           | Some aRoot \<Rightarrow> \<lparr>pverdict = (if exists then Inside else MissingPath), rpath = render path, rroot = Some aRoot\<rparr>))"

subsection \<open>Components of rendered paths\<close>

definition component :: "string \<Rightarrow> bool" where
  "component c \<longleftrightarrow> c \<noteq> [] \<and> CHR ''/'' \<notin> set c"

lemma splitOn_parts: "w \<in> set (splitOn sep s) \<Longrightarrow> sep \<notin> set w"
proof (induction s arbitrary: w)
  case (Cons c cs)
  obtain v vs where "splitOn sep cs = v # vs" by (cases "splitOn sep cs") auto
  with Cons show ?case by (auto split: if_splits)
qed simp

lemma pathComponents_component: "list_all component (pathComponents s)"
  by (auto simp: list_all_iff component_def pathComponents_def dest: splitOn_parts)

lemma splitOn_cons_sep: "splitOn sep (sep # s) = [] # splitOn sep s"
  by simp

lemma pathComponents_render: "list_all component cs \<Longrightarrow> pathComponents (render cs) = cs"
proof (cases cs)
  case (Cons c rest)
  assume "list_all component cs"
  then have "splitOn (CHR ''/'') (joinWith ''/'' cs) = cs" using Cons
    by (intro splitOn_joinWith) (auto simp: list_all_iff component_def)
  moreover have "filter (\<lambda>c. c \<noteq> []) cs = cs"
    using \<open>list_all component cs\<close> by (auto simp: list_all_iff component_def filter_id_conv)
  ultimately show ?thesis by (simp add: pathComponents_def render_def)
qed (simp add: pathComponents_def render_def joinWith_def)

lemma pathComponents_append: "pathComponents (a @ ''/'' @ b) = pathComponents a @ pathComponents b"
  by (simp add: pathComponents_def splitOn_append_sep)

lemma render_not_slash: "list_all component cs \<Longrightarrow> cs \<noteq> [] \<Longrightarrow> last (render cs) \<noteq> CHR ''/''"
proof (induction cs)
  case (Cons c cs)
  then show ?case
    by (cases cs) (auto simp: render_def joinWith_def component_def last_append dest: last_in_set split: if_splits)
qed simp

text \<open>
  String containment of two resolved paths is containment of their components: a sibling whose
  name merely starts with the root's letters is not inside it.
\<close>

lemma render_snoc: "render (cs @ ds) = (if ds = [] then render cs else if cs = [] then render ds else render cs @ ''/'' @ joinWith ''/'' ds)"
  by (cases cs; cases ds) (auto simp: render_def joinWith_def)

lemma isInside_components:
  assumes "list_all component p" "list_all component r"
  shows "isInside (render p) (render r) \<longleftrightarrow> prefix r p"
proof
  assume "prefix r p"
  then obtain ds where p: "p = r @ ds" by (auto simp: prefix_def)
  show "isInside (render p) (render r)"
  proof (cases "ds = [] \<or> r = []")
    case True
    then show ?thesis by (auto simp: isInside_def p) (auto simp: render_def joinWith_def)
  next
    case False
    then have "render p = render r @ ''/'' @ joinWith ''/'' ds" by (simp add: p render_snoc)
    then show ?thesis using render_not_slash [OF assms(2)] False by (simp add: isInside_def)
  qed
next
  assume "isInside (render p) (render r)"
  then consider "render p = render r" | rest where "render p = render r @ ''/'' @ rest" | rest where "r = []" "render p = render r @ rest"
    by (cases "r = []") (auto simp: isInside_def prefix_def render_not_slash [OF assms(2)] split: if_splits)
  then show "prefix r p"
  proof cases
    case 1
    then show ?thesis using pathComponents_render assms by (metis prefix_order.refl)
  next
    case (2 rest)
    then have "pathComponents (render p) = pathComponents (render r) @ pathComponents rest"
      using pathComponents_append by simp
    then show ?thesis using pathComponents_render assms by (metis prefixI)
  qed simp
qed

subsection \<open>Normalisation\<close>

lemma dotStep_fold:
  assumes "''..'' \<notin> set cs"
  shows "foldl (dotStep allowAbove) stack cs = rev (filter (\<lambda>c. c \<noteq> [] \<and> c \<noteq> ''.'') cs) @ stack"
  using assms by (induction cs arbitrary: stack) (auto simp: dotStep_def)

lemma normalComponents_plain:
  "''..'' \<notin> set cs \<Longrightarrow> normalComponents allowAbove cs = filter (\<lambda>c. c \<noteq> [] \<and> c \<noteq> ''.'') cs"
  by (simp add: normalComponents_def dotStep_fold)

text \<open>Normalising an absolute list never leaves a \<open>..\<close>, a \<open>.\<close> or an empty component behind.\<close>

definition stackOk :: "string list \<Rightarrow> bool" where
  "stackOk stack = list_all (\<lambda>c. component c \<and> c \<noteq> ''..'' \<and> c \<noteq> ''.'') stack"

lemma dotStep_ok: "stackOk stack \<Longrightarrow> CHR ''/'' \<notin> set c \<Longrightarrow> stackOk (dotStep False stack c)"
  by (cases stack) (auto simp: stackOk_def dotStep_def component_def)

lemma normalComponents_ok:
  assumes "\<forall>c\<in>set cs. CHR ''/'' \<notin> set c"
  shows "stackOk (normalComponents False cs)"
proof -
  have "stackOk (foldl (dotStep False) stack cs)" if "stackOk stack" for stack
    using that assms by (induction cs arbitrary: stack) (auto simp: dotStep_ok)
  then have "stackOk (foldl (dotStep False) [] cs)" by (simp add: stackOk_def)
  then show ?thesis by (simp add: normalComponents_def stackOk_def list_all_rev)
qed

text \<open>The components that name something: neither empty nor a dot.\<close>

definition realComponents :: "string \<Rightarrow> string list" where
  "realComponents path = filter (\<lambda>c. c \<noteq> ''.'') (pathComponents path)"

lemma realComponents_filter: "realComponents path = filter (\<lambda>c. c \<noteq> [] \<and> c \<noteq> ''.'') (splitOn (CHR ''/'') path)"
  by (simp add: realComponents_def pathComponents_def)

lemma realComponents_normalize:
  assumes "isAbsolute path" "''..'' \<notin> set (pathComponents path)"
  shows "realComponents (normalizePath path) = realComponents path"
proof -
  have nd: "''..'' \<notin> set (splitOn (CHR ''/'') path)" using assms(2) by (auto simp: pathComponents_def)
  let ?cs = "realComponents path"
  have n: "normalComponents False (splitOn (CHR ''/'') path) = ?cs"
    using normalComponents_plain [OF nd] by (simp add: realComponents_filter)
  have comp: "list_all component ?cs"
    using pathComponents_component [of path] by (auto simp: realComponents_def list_all_iff)
  have id: "filter (\<lambda>c. c \<noteq> ''.'') ?cs = ?cs" by (simp add: realComponents_def)
  have ne: "path \<noteq> []" using assms(1) by (auto simp: isAbsolute_def)
  have slash: "realComponents (a @ ''/'') = realComponents a" for a
    using pathComponents_append [of a "[]"] by (simp add: realComponents_def pathComponents_def)
  have base: "realComponents (render ?cs) = ?cs" using pathComponents_render [OF comp] id by (simp add: realComponents_def)
  show ?thesis
  proof (cases "?cs = []")
    case True
    then have "normalizePath path = ''/''" using ne assms(1) n by (simp add: normalizePath_def)
    then show ?thesis using True by (simp add: realComponents_def pathComponents_def)
  next
    case False
    then have "normalizePath path = render ?cs @ (if last path = CHR ''/'' then ''/'' else '''')"
      using ne assms(1) n by (simp add: normalizePath_def render_def Let_def)
    then show ?thesis using base slash by simp
  qed
qed

lemma realComponents_join:
  assumes "isAbsolute base" "''..'' \<notin> set (pathComponents base)" "list_all (\<lambda>p. ''..'' \<notin> set (pathComponents p)) parts"
  shows "realComponents (joinPaths (base # parts)) = realComponents base @ concat (map realComponents parts)"
proof -
  let ?parts = "filter (\<lambda>p. p \<noteq> []) parts"
  have base: "base \<noteq> []" using assms(1) by (auto simp: isAbsolute_def)
  have split: "pathComponents (joinWith ''/'' (b # ps)) = pathComponents b @ concat (map pathComponents ps)" for b ps
  proof (induction ps arbitrary: b)
    case (Cons p ps)
    have "joinWith ''/'' (b # p # ps) = b @ ''/'' @ joinWith ''/'' (p # ps)" by (rule joinWith_Cons(3))
    with Cons show ?case using pathComponents_append by simp
  qed (simp add: joinWith_Cons)
  have drop: "concat (map pathComponents ?parts) = concat (map pathComponents parts)"
    by (induction parts) (auto simp: pathComponents_def)
  have joined: "pathComponents (joinWith ''/'' (base # ?parts)) = pathComponents base @ concat (map pathComponents parts)"
    using split [of base ?parts] drop by simp
  have "isAbsolute (joinWith ''/'' (base # ?parts))" using assms(1) base
    by (cases base; cases ?parts) (auto simp: isAbsolute_def joinWith_def)
  moreover have "''..'' \<notin> set (pathComponents (joinWith ''/'' (base # ?parts)))"
    using joined assms(2,3) by (auto simp: list_all_iff)
  ultimately have "realComponents (joinPaths (base # parts)) = realComponents (joinWith ''/'' (base # ?parts))"
    using realComponents_normalize base by (simp add: joinPaths_def)
  then show ?thesis using joined by (simp add: realComponents_def [abs_def] filter_concat comp_def)
qed

subsection \<open>Properties of the mapping\<close>

definition usable :: "string list \<Rightarrow> RootMapping \<Rightarrow> bool" where
  "usable path m \<longleftrightarrow> js_trim (localRoot m) \<noteq> [] \<and> prefix (pathComponents (remoteRoot m)) path"

lemma take_prefix_iff: "length pre \<le> length path \<Longrightarrow> take (length pre) path = pre \<longleftrightarrow> prefix pre path"
  by (metis append_eq_conv_conj append_take_drop_id prefix_def)

lemma bestMapping_spec:
  "case bestMapping path ms best of
     None \<Rightarrow> best = None \<and> list_all (\<lambda>m. \<not> usable path m) ms
   | Some b \<Rightarrow>
       (best = Some b \<or> (\<exists>m\<in>set ms. usable path m \<and> depth b = length (pathComponents (remoteRoot m))
            \<and> bestRoot b = js_trim (localRoot m)))
       \<and> list_all (\<lambda>m. usable path m \<longrightarrow> length (pathComponents (remoteRoot m)) \<le> depth b) ms
       \<and> (case best of None \<Rightarrow> True | Some b0 \<Rightarrow> depth b0 \<le> depth b)"
proof (induction ms arbitrary: best)
  case Nil
  then show ?case by (auto split: option.split)
next
  case (Cons m ms)
  let ?pre = "pathComponents (remoteRoot m)" and ?local = "js_trim (localRoot m)"
  let ?skip = "?local = [] \<or> length path < length ?pre \<or> (case best of None \<Rightarrow> False | Some b \<Rightarrow> length ?pre \<le> depth b)"
  let ?best = "if take (length ?pre) path = ?pre then Some \<lparr>depth = length ?pre, bestRoot = ?local\<rparr> else best"
  have us: "usable path m \<Longrightarrow> length ?pre \<le> length path" by (auto simp: usable_def dest: prefix_length_le)
  show ?case
  proof (cases ?skip)
    case True
    have "bestMapping path (m # ms) best = bestMapping path ms best" using True by (simp add: Let_def)
    then show ?thesis using Cons.IH [of best] True us
      by (auto simp: usable_def split: option.splits)
  next
    case False
    have "bestMapping path (m # ms) best = bestMapping path ms ?best" using False by (simp add: Let_def)
    moreover have "usable path m \<longleftrightarrow> take (length ?pre) path = ?pre"
      using False take_prefix_iff [of ?pre path] by (auto simp: usable_def)
    ultimately show ?thesis using Cons.IH [of ?best] False
      by (cases "take (length ?pre) path = ?pre") (auto split: option.splits)
  qed
qed

lemma joined_under_root:
  assumes "isAbsolute base" and "js_trim base = base" and "''..'' \<notin> set (pathComponents base)"
    and rest: "list_all (\<lambda>c. component c \<and> c \<noteq> ''..'' \<and> c \<noteq> ''.'') rest"
  shows "realComponents (joinPaths (normaliseRootPath base # rest)) = realComponents base @ rest"
proof -
  have single: "pathComponents c = [c]" if "c \<in> set rest" for c
    using that rest by (simp add: list_all_iff pathComponents_def component_def splitOn_fresh)
  have n: "normaliseRootPath base = render (pathComponents base)"
    using assms by (simp add: normaliseRootPath_def)
  have pc: "pathComponents (render (pathComponents base)) = pathComponents base"
    by (rule pathComponents_render [OF pathComponents_component])
  have parts: "list_all (\<lambda>q. ''..'' \<notin> set (pathComponents q)) rest"
    using rest single by (auto simp: list_all_iff)
  have "map realComponents rest = map (\<lambda>c. [c]) rest"
    using rest single by (simp add: realComponents_def list_all_iff)
  moreover have "concat (map (\<lambda>c. [c]) cs) = cs" for cs :: "string list" by (induction cs) auto
  ultimately have "concat (map realComponents rest) = rest" by (simp only:)
  then show ?thesis using realComponents_join [of "render (pathComponents base)" rest] assms pc parts n
    by (simp add: isAbsolute_def render_def realComponents_def)
qed

text \<open>
  A reported path is translated by the most specific mapping whose remote root is a prefix
  of it, compared by components, and lands at the same place under that mapping's local root;
  a path that is relative, or has a dot component, or is under no mapping, is not translated.
\<close>

lemma mapped_path_uses_deepest_mapping:
  "case mappedLocalPath reported mappings of
     None \<Rightarrow> \<not> isAbsolute (js_trim reported) \<or> list_ex (\<lambda>c. c = ''..'' \<or> c = ''.'') (pathComponents reported)
             \<or> list_all (\<lambda>m. \<not> usable (pathComponents reported) m) mappings
   | Some p \<Rightarrow>
       list_ex (\<lambda>m. usable (pathComponents reported) m
         \<and> list_all (\<lambda>m'. usable (pathComponents reported) m' \<longrightarrow>
               length (pathComponents (remoteRoot m')) \<le> length (pathComponents (remoteRoot m))) mappings
         \<and> (isAbsolute (js_trim (localRoot m)) \<and> ''..'' \<notin> set (pathComponents (js_trim (localRoot m))) \<longrightarrow>
              realComponents p = realComponents (js_trim (localRoot m))
                @ drop (length (pathComponents (remoteRoot m))) (pathComponents reported))) mappings"
proof (cases "\<not> isAbsolute (js_trim reported) \<or> list_ex (\<lambda>c. c = ''..'' \<or> c = ''.'') (pathComponents reported)")
  case True
  then show ?thesis by (auto simp: mappedLocalPath_def)
next
  case False
  let ?path = "pathComponents reported"
  have plain: "''..'' \<notin> set ?path" "''.'' \<notin> set ?path" using False by (auto simp: list_ex_iff)
  show ?thesis
  proof (cases "bestMapping ?path mappings None")
    case None
    then show ?thesis using False bestMapping_spec [where path = ?path and ms = mappings and best = None] by (simp add: mappedLocalPath_def)
  next
    case (Some b)
    then obtain m where m: "m \<in> set mappings" "usable ?path m" "depth b = length (pathComponents (remoteRoot m))"
      "bestRoot b = js_trim (localRoot m)"
      "list_all (\<lambda>m. usable ?path m \<longrightarrow> length (pathComponents (remoteRoot m)) \<le> depth b) mappings"
      using bestMapping_spec [where path = ?path and ms = mappings and best = None] by auto
    let ?local = "js_trim (localRoot m)"
    define rest where "rest = drop (depth b) ?path"
    have p: "mappedLocalPath reported mappings = Some (joinPaths (normaliseRootPath (bestRoot b) # rest))"
      using False Some by (simp add: mappedLocalPath_def Let_def rest_def)
    have "list_all (\<lambda>c. component c \<and> c \<noteq> ''..'' \<and> c \<noteq> ''.'') rest"
      using pathComponents_component [of reported] plain in_set_dropD [of _ "depth b" ?path] unfolding rest_def list_all_iff by metis
    then have "realComponents (joinPaths (normaliseRootPath (bestRoot b) # rest)) = realComponents ?local @ rest"
      if "isAbsolute ?local" "''..'' \<notin> set (pathComponents ?local)"
      using joined_under_root [OF that(1) js_trim_idem that(2)] m(4) by simp
    then show ?thesis using p m by (auto simp: list_ex_iff rest_def intro!: bexI [of _ m])
  qed
qed

text \<open>A film under \<open>/data/4k\<close> goes to the disk mapped there, not to the one mapped for \<open>/data\<close>.\<close>

lemma mapped_path_uses_deepest_mapping_witness:
  "mappedLocalPath ''/data/4k/a.mkv'' [\<lparr>remoteRoot = ''/data'', localRoot = ''/nas''\<rparr>, \<lparr>remoteRoot = ''/data/4k'', localRoot = ''/ssd''\<rparr>]
     = Some ''/ssd/a.mkv''
   \<and> realComponents ''/ssd/a.mkv'' = realComponents ''/ssd'' @ [''a.mkv'']"
proof -
  let ?ms = "[\<lparr>remoteRoot = ''/data'', localRoot = ''/nas''\<rparr>, \<lparr>remoteRoot = ''/data/4k'', localRoot = ''/ssd''\<rparr>]"
  note ev = pathComponents_def js_trim_def isSpace_def isAbsolute_def
  have m: "mappedLocalPath ''/data/4k/a.mkv'' ?ms = Some ''/ssd/a.mkv''"
    by (simp add: mappedLocalPath_def ev Let_def joinPaths_def normalizePath_def normaliseRootPath_def render_def joinWith_def
        normalComponents_def dotStep_def)
  from mapped_path_uses_deepest_mapping [of "''/data/4k/a.mkv''" ?ms] m show ?thesis
    by (simp add: usable_def ev realComponents_def)
qed

subsection \<open>A path that climbs\<close>

text \<open>
  \<open>toLocalPath\<close> compares text and joins what follows the root: a reported path without \<open>..\<close> stays
  under the root's local directory.
\<close>

lemma toLocalLoop_root:
  assumes "toLocalLoop library mappings reported roots = Some p"
  shows "\<exists>r base. r \<in> set roots \<and> reachableRoot library r mappings = Some base \<and> base \<noteq> []
     \<and> (reported = r \<and> p = base \<or> prefix (r @ ''/'') reported \<and> p = joinPaths [base, drop (length r) reported])"
  using assms
proof (induction roots)
  case (Cons r roots)
  show ?case
  proof (cases "reported \<noteq> r \<and> \<not> prefix (r @ ''/'') reported")
    case True
    then show ?thesis using Cons by auto
  next
    case False
    then obtain base where "reachableRoot library r mappings = Some base" "base \<noteq> []"
      "p = (if reported = r then base else joinPaths [base, drop (length r) reported])"
      using Cons.prems by (auto split: option.splits if_splits)
    then show ?thesis using False by (intro exI [of _ r] exI [of _ base]) auto
  qed
qed simp

lemma to_local_path_stays_under_base:
  assumes "toLocalPath library (Some reported) mappings = Some p"
    and "''..'' \<notin> set (pathComponents reported)"
  shows "\<exists>r\<in>set (paths library). \<exists>base. reachableRoot library r mappings = Some base
     \<and> (isAbsolute base \<and> ''..'' \<notin> set (pathComponents base) \<longrightarrow> prefix (realComponents base) (realComponents p))"
proof -
  obtain r base where r: "r \<in> set (paths library)" "reachableRoot library r mappings = Some base"
    "reported = r \<and> p = base \<or> prefix (r @ ''/'') reported \<and> p = joinPaths [base, drop (length r) reported]"
    using assms(1) toLocalLoop_root by (auto simp: toLocalPath_def split: if_splits) metis
  have "prefix (realComponents base) (realComponents p)" if "isAbsolute base" "''..'' \<notin> set (pathComponents base)"
    using r(3)
  proof
    assume j: "prefix (r @ ''/'') reported \<and> p = joinPaths [base, drop (length r) reported]"
    then obtain rest where rest: "reported = r @ ''/'' @ rest" by (auto simp: prefix_def)
    have "pathComponents reported = pathComponents r @ pathComponents rest"
      unfolding rest by (rule pathComponents_append)
    moreover have "pathComponents (drop (length r) reported) = pathComponents rest"
      using pathComponents_append [of "[]" rest] by (simp add: rest pathComponents_def)
    ultimately have "''..'' \<notin> set (pathComponents (drop (length r) reported))" using assms(2) by simp
    then show ?thesis using j realComponents_join [OF that, of "[drop (length r) reported]"] by simp
  qed simp
  then show ?thesis using r by blast
qed

text \<open>With \<open>..\<close> in it, the same path names a file outside every directory the library declares.\<close>

lemma to_local_path_can_climb_out:
  "toLocalPath \<lparr>paths = [''/media''], libLocalPath = Some ''/mnt/nas''\<rparr> (Some ''/media/../../etc/passwd'') []
     = Some ''/etc/passwd''"
  by (simp add: toLocalPath_def reachableRoot_def mappedLocalPath_def joinPaths_def normalizePath_def joinWith_def
      normalComponents_def dotStep_def isAbsolute_def pathComponents_def js_trim_def isSpace_def Let_def)

subsection \<open>What containment promises\<close>

lemma resolveRequest_ok: "list_all component cwd \<Longrightarrow> stackOk (resolveRequest cwd requested)"
  unfolding resolveRequest_def
  by (rule normalComponents_ok) (auto simp: list_all_iff component_def dest: splitOn_parts)

lemma stackOk_component: "stackOk cs \<Longrightarrow> list_all component cs"
  by (auto simp: stackOk_def list_all_iff)

lemma resolveDeepestLoop_found:
  assumes "realpath [] = Inr []" "resolveDeepestLoop realpath wanted cur missing = Some (path, exists)"
    "missing = [] \<or> realpath (rev cur @ [hd missing]) = Inl ''ENOENT''"
  shows "\<exists>ancestor tail found. rev cur @ missing = ancestor @ tail \<and> realpath ancestor = Inr found
     \<and> path = found @ tail \<and> exists = (tail = []) \<and> (tail = [] \<or> realpath (ancestor @ [hd tail]) = Inl ''ENOENT'')"
  using assms(2,3)
proof (induction cur arbitrary: missing)
  case Nil
  then show ?case using assms(1)
    by (intro exI [of _ "[]"] exI [of _ missing]) auto
next
  case (Cons c cur)
  show ?case
  proof (cases "realpath (rev (c # cur))")
    case (Inr found)
    then show ?thesis using Cons.prems by (intro exI [of _ "rev (c # cur)"] exI [of _ missing] exI [of _ found]) auto
  next
    case (Inl e)
    then have "e = ''ENOENT''" "resolveDeepestLoop realpath wanted cur (c # missing) = Some (path, exists)"
      using Cons.prems by (auto split: if_splits)
    then show ?thesis using Cons.IH [of "c # missing"] Inl by simp
  qed
qed

text \<open>
  (C10) A path the containment check lets through lies, component by component, under one of the
  configured roots after every symbolic link of both is followed: its deepest existing ancestor
  is resolved, only the tail that does not exist is taken as written, and \<open>Inside\<close> is answered
  exactly when there is no such tail. The hypotheses are what \<open>realpath\<close> promises: it answers
  with absolute paths without separators in their names, and \<open>/\<close> is itself.
\<close>

theorem shown_path_is_inside_a_root:
  assumes realpath_names: "\<And>p found. realpath p = Inr found \<Longrightarrow> list_all component found"
    and realpath_top: "realpath [] = Inr []"
    and cwd: "list_all component cwd"
    and shown: "pverdict (resolveWithinRoots realpath cwd requested roots) \<in> {Inside, MissingPath}"
  shows "\<exists>aRoot ancestor tail found.
     aRoot \<in> set roots
     \<and> rroot (resolveWithinRoots realpath cwd requested roots) = Some (realRoot realpath cwd aRoot)
     \<and> resolveRequest cwd requested = ancestor @ tail \<and> realpath ancestor = Inr found
     \<and> rpath (resolveWithinRoots realpath cwd requested roots) = render (found @ tail)
     \<and> prefix (pathComponents (realRoot realpath cwd aRoot)) (found @ tail)
     \<and> ''..'' \<notin> set tail
     \<and> (pverdict (resolveWithinRoots realpath cwd requested roots) = Inside) = (tail = [])
     \<and> (if tail = [] then True else realpath (ancestor @ [hd tail]) = Inl ''ENOENT'')"
proof -
  let ?r = "resolveWithinRoots realpath cwd requested roots" and ?wanted = "resolveRequest cwd requested"
  have wanted: "stackOk ?wanted" by (rule resolveRequest_ok [OF cwd])
  obtain path exists res where res: "resolveDeepest realpath ?wanted = Some (path, exists)"
    "find (\<lambda>aRoot. isInside (render path) aRoot) (resolveRoots realpath cwd roots) = Some res"
    "?r = \<lparr>pverdict = (if exists then Inside else MissingPath), rpath = render path, rroot = Some res\<rparr>"
    using shown by (auto simp: resolveWithinRoots_def Let_def split: option.splits)
  obtain ancestor tail found where t: "?wanted = ancestor @ tail" "realpath ancestor = Inr found" "path = found @ tail"
    "exists = (tail = [])" "tail = [] \<or> realpath (ancestor @ [hd tail]) = Inl ''ENOENT''"
    using resolveDeepestLoop_found [OF realpath_top res(1) [unfolded resolveDeepest_def]] by auto
  obtain aRoot where a: "aRoot \<in> set roots" "res = realRoot realpath cwd aRoot" "isInside (render path) res"
    using res(2) by (auto simp: find_Some_iff resolveRoots_def) (metis nth_mem)
  have comp: "list_all component path"
    using realpath_names [OF t(2)] stackOk_component [OF wanted] by (simp add: t)
  obtain rc where rc: "list_all component rc" "res = render rc"
  proof (cases "realpath (resolveRequest cwd aRoot)")
    case (Inl e)
    then show ?thesis
      using that stackOk_component [OF resolveRequest_ok [OF cwd, of aRoot]] by (simp add: a(2) realRoot_def)
  next
    case (Inr found')
    then show ?thesis using that realpath_names [OF Inr] by (simp add: a(2) realRoot_def)
  qed
  have "prefix (pathComponents res) path"
    using isInside_components [OF comp rc(1)] a(3) pathComponents_render [OF rc(1)] rc(2) by simp
  moreover have "''..'' \<notin> set tail" using wanted by (auto simp: t stackOk_def list_all_iff)
  ultimately show ?thesis using a res t
    by (intro exI [of _ aRoot] exI [of _ ancestor] exI [of _ tail] exI [of _ found]) auto
qed

text \<open>A new file in a linked folder of the library: the link is followed, the missing name kept.\<close>

definition linkedDisk :: Realpath where
  "linkedDisk p =
     (if p = [] then Inr [] else if p = [''films''] then Inr [''nas'', ''films'']
      else if p = [''films'', ''new''] then Inr [''nas'', ''films'', ''new''] else Inl ''ENOENT'')"

theorem shown_path_is_inside_a_root_witness:
  "resolveWithinRoots linkedDisk [] ''/films/new/../new/x.mkv'' [''/films'']
     = \<lparr>pverdict = MissingPath, rpath = ''/nas/films/new/x.mkv'', rroot = Some ''/nas/films''\<rparr>
   \<and> (\<exists>found tail. prefix (pathComponents (realRoot linkedDisk [] ''/films'')) (found @ tail)
        \<and> ''/nas/films/new/x.mkv'' = render (found @ tail))"
proof -
  let ?r = "resolveWithinRoots linkedDisk [] ''/films/new/../new/x.mkv'' [''/films'']"
  have names: "list_all component found" if "linkedDisk p = Inr found" for p found
    using that by (auto simp: linkedDisk_def component_def split: if_splits)
  have top: "linkedDisk [] = Inr []" by (simp add: linkedDisk_def)
  have r: "?r = \<lparr>pverdict = MissingPath, rpath = ''/nas/films/new/x.mkv'', rroot = Some ''/nas/films''\<rparr>"
    by (simp add: resolveWithinRoots_def resolveRoots_def realRoot_def resolveRequest_def normalComponents_def dotStep_def
        isAbsolute_def resolveDeepest_def linkedDisk_def render_def joinWith_def isInside_def Let_def)
  show ?thesis
    using shown_path_is_inside_a_root [of linkedDisk "[]" "''/films/new/../new/x.mkv''" "[''/films'']", OF names top] r
    by fastforce
qed

subsection \<open>Accepted mappings give one answer\<close>

lemma faultLoop_None:
  "faultLoop mappings todo = None \<longleftrightarrow> (\<forall>(index, side)\<in>set todo. rootMappingSideFault mappings index side = None)"
  by (induction todo) (auto split: option.splits)

lemma accepted_mappings:
  assumes "findRootMappingFault ms = None"
  shows "distinct (map (\<lambda>m. normaliseRootPath (remoteRoot m)) ms)"
    and "list_all (\<lambda>m. isAbsolute (js_trim (remoteRoot m))) ms"
proof -
  have ok: "rootMappingSideFault ms i RemoteSide = None" if "i < length ms" for i
    using assms that by (auto simp: findRootMappingFault_def faultLoop_None)
  show "list_all (\<lambda>m. isAbsolute (js_trim (remoteRoot m))) ms"
    unfolding list_all_length
  proof (intro allI impI)
    fix i assume "i < length ms"
    from ok [OF this] show "isAbsolute (js_trim (remoteRoot (ms ! i)))"
      by (auto simp: rootMappingSideFault_def sideOf_def Let_def split: if_splits)
  qed
  have fresh: "normaliseRootPath (remoteRoot (ms ! i)) \<noteq> normaliseRootPath (remoteRoot (ms ! j))"
    if "j < i" "i < length ms" for i j
  proof -
    have "normaliseRootPath (js_trim (remoteRoot (ms ! i))) = normaliseRootPath (remoteRoot (ms ! i))"
      by (simp add: normaliseRootPath_def js_trim_idem)
    moreover have "normaliseRootPath (js_trim (remoteRoot (ms ! i))) \<notin> (\<lambda>m. normaliseRootPath (remoteRoot m)) ` set (take i ms)"
      using ok [OF that(2)] by (auto simp: rootMappingSideFault_def sideOf_def Let_def split: if_splits)
    moreover have "ms ! j \<in> set (take i ms)" using that by (auto simp: in_set_conv_nth intro!: exI [of _ j])
    ultimately show ?thesis by auto
  qed
  show "distinct (map (\<lambda>m. normaliseRootPath (remoteRoot m)) ms)"
    unfolding distinct_conv_nth using fresh by (auto simp: nat_neq_iff) metis+
qed

lemma stored_usable_unique:
  assumes "findRootMappingFault ms = None"
    and "m \<in> set (normaliseMappings ms)" "m' \<in> set (normaliseMappings ms)"
    and "usable path m" "usable path m'" "length (pathComponents (remoteRoot m)) = length (pathComponents (remoteRoot m'))"
  shows "m = m'"
proof -
  have "pathComponents (remoteRoot m) = pathComponents (remoteRoot m')"
    using assms(4,5,6) by (auto simp: usable_def prefix_def append_eq_append_conv)
  moreover obtain n n' where n: "n \<in> set ms" "m = \<lparr>remoteRoot = normaliseRootPath (remoteRoot n), localRoot = normaliseRootPath (localRoot n)\<rparr>"
      "n' \<in> set ms" "m' = \<lparr>remoteRoot = normaliseRootPath (remoteRoot n'), localRoot = normaliseRootPath (localRoot n')\<rparr>"
    using assms(2,3) by (auto simp: normaliseMappings_def)
  moreover have "pathComponents (normaliseRootPath (remoteRoot k)) = pathComponents (js_trim (remoteRoot k))"
    "normaliseRootPath (remoteRoot k) = render (pathComponents (js_trim (remoteRoot k)))" if "k \<in> set ms" for k
    using accepted_mappings(2) [OF assms(1)] that pathComponents_render [OF pathComponents_component]
    by (auto simp: list_all_iff normaliseRootPath_def)
  ultimately have "normaliseRootPath (remoteRoot n) = normaliseRootPath (remoteRoot n')" by simp
  then have "n = n'" using accepted_mappings(1) [OF assms(1)] n by (auto simp: distinct_map dest: inj_onD)
  then show ?thesis using n by simp
qed

text \<open>
  Where a reported path lands does not depend on the order the mappings were typed in: once a
  list of mappings is accepted and stored, every rearrangement of it translates every path to the
  same place.
\<close>

lemma mapping_order_is_irrelevant:
  assumes "findRootMappingFault ms = None" and "mset ms' = mset ms"
  shows "mappedLocalPath reported (normaliseMappings ms') = mappedLocalPath reported (normaliseMappings ms)"
proof -
  let ?path = "pathComponents reported" and ?s = "normaliseMappings ms" and ?s' = "normaliseMappings ms'"
  have sets: "set ?s' = set ?s" using mset_eq_setD [OF assms(2)] by (simp add: normaliseMappings_def)
  have "bestMapping ?path ?s' None = bestMapping ?path ?s None"
  proof (cases "\<exists>m\<in>set ?s. usable ?path m")
    case False
    then have "list_all (\<lambda>m. \<not> usable ?path m) ?s" "list_all (\<lambda>m. \<not> usable ?path m) ?s'"
      using sets by (auto simp: list_all_iff)
    then have "bestMapping ?path ?s None = None" "bestMapping ?path ?s' None = None"
      using bestMapping_spec [where path = ?path and ms = ?s and best = None] bestMapping_spec [where path = ?path and ms = ?s' and best = None]
      by (fastforce simp: list_all_iff split: option.splits)+
    then show ?thesis by simp
  next
    case True
    have best: "\<exists>b m. bestMapping ?path q None = Some b \<and> m \<in> set q \<and> usable ?path m \<and> depth b = length (pathComponents (remoteRoot m))
       \<and> bestRoot b = js_trim (localRoot m) \<and> (\<forall>k\<in>set q. usable ?path k \<longrightarrow> length (pathComponents (remoteRoot k)) \<le> depth b)"
      if "\<exists>m\<in>set q. usable ?path m" for q
      using that bestMapping_spec [where path = ?path and ms = q and best = None] by (fastforce simp: list_all_iff split: option.splits)
    obtain b m where b: "bestMapping ?path ?s None = Some b" "m \<in> set ?s" "usable ?path m" "depth b = length (pathComponents (remoteRoot m))"
      "bestRoot b = js_trim (localRoot m)" "\<forall>k\<in>set ?s. usable ?path k \<longrightarrow> length (pathComponents (remoteRoot k)) \<le> depth b"
      using best [OF True] by blast
    obtain b' m' where b': "bestMapping ?path ?s' None = Some b'" "m' \<in> set ?s" "usable ?path m'" "depth b' = length (pathComponents (remoteRoot m'))"
      "bestRoot b' = js_trim (localRoot m')" "\<forall>k\<in>set ?s. usable ?path k \<longrightarrow> length (pathComponents (remoteRoot k)) \<le> depth b'"
      using best [of ?s'] True sets by auto
    have "depth b = depth b'" using b b' by (metis order_antisym)
    then have "m = m'" using stored_usable_unique [OF assms(1) b(2) b'(2) b(3) b'(3)] b b' by simp
    then show ?thesis using b b' by simp
  qed
  then show ?thesis by (simp add: mappedLocalPath_def Let_def)
qed

text \<open>Nested disks, listed either way round.\<close>

lemma mapping_order_is_irrelevant_witness:
  "mappedLocalPath ''/data/4k/a.mkv'' (normaliseMappings [\<lparr>remoteRoot = ''/data/4k/'', localRoot = ''/ssd''\<rparr>, \<lparr>remoteRoot = '' /data'', localRoot = ''/nas''\<rparr>])
     = Some ''/ssd/a.mkv''"
proof -
  let ?m = "\<lparr>remoteRoot = '' /data'', localRoot = ''/nas''\<rparr>" and ?n = "\<lparr>remoteRoot = ''/data/4k/'', localRoot = ''/ssd''\<rparr>"
  note ev = pathComponents_def js_trim_def isSpace_def isAbsolute_def normaliseRootPath_def render_def joinWith_def Let_def
  have ok: "findRootMappingFault [?m, ?n] = None"
    by (simp add: findRootMappingFault_def rootMappingSideFault_def sideOf_def ev upt_rec)
  have "mappedLocalPath ''/data/4k/a.mkv'' (normaliseMappings [?m, ?n]) = Some ''/ssd/a.mkv''"
    by (simp add: normaliseMappings_def mappedLocalPath_def ev joinPaths_def normalizePath_def normalComponents_def dotStep_def)
  then show ?thesis
    using mapping_order_is_irrelevant [OF ok, of "[?n, ?m]" "''/data/4k/a.mkv''"] by simp
qed

end
