(* ===== verification/Token_Bucket.thy ===== *)
theory Token_Bucket
  imports Mcs_Prelude
begin

text \<open>
  The rate limits: \<open>TokenBucket\<close> and \<open>BandwidthService\<close> of
  \<open>packages/api/src/services/bandwidth.service.ts\<close> and the \<open>RateLimiter\<close> of
  \<open>transfer-engine.service.ts\<close>, which has the same body. Everything that moves bytes in one
  direction draws from one bucket, so the unit of the model is one turn of the loop in \<open>take\<close>:
  between two turns the code awaits a timer and any other payment may have its turn. The clock is
  an argument in milliseconds, bytes and limits are whole numbers and the tokens, which the code
  keeps in a double, are rationals.
\<close>

subsection \<open>The bucket\<close>

record TokenBucket =
  bytesPerSecond :: int
  tokens :: rat
  lastAt :: int

definition newBucket :: "int \<Rightarrow> int \<Rightarrow> TokenBucket" where
  "newBucket now limit = \<lparr>bytesPerSecond = limit, tokens = 0, lastAt = now\<rparr>"

definition setLimit :: "int \<Rightarrow> TokenBucket \<Rightarrow> TokenBucket" where
  "setLimit limit b = b\<lparr>bytesPerSecond := max 0 limit\<rparr>"

text \<open>What a turn came to: no limit is set, the payment was made, or a wait of so many milliseconds.\<close>

datatype Turn = Unlimited | Paid | Waits rat

definition refill :: "int \<Rightarrow> int \<Rightarrow> TokenBucket \<Rightarrow> rat" where
  "refill now bytes b =
     min (of_int (max (bytesPerSecond b) bytes))
         (tokens b + of_int (now - lastAt b) / 1000 * of_int (bytesPerSecond b))"

definition waitMs :: "int \<Rightarrow> rat \<Rightarrow> int \<Rightarrow> rat" where
  "waitMs bytes held limit = min (max 5 ((of_int bytes - held) / of_int limit * 1000)) 250"

definition takeTurn :: "int \<Rightarrow> int \<Rightarrow> TokenBucket \<Rightarrow> TokenBucket \<times> Turn" where
  "takeTurn now bytes b =
     (if bytesPerSecond b \<le> 0 then (b, Unlimited)
      else
        let held = refill now bytes b; b' = b\<lparr>tokens := held, lastAt := now\<rparr> in
        if of_int bytes \<le> held then (b'\<lparr>tokens := held - of_int bytes\<rparr>, Paid)
        else (b', Waits (waitMs bytes held (bytesPerSecond b))))"

text \<open>
  A payment nobody else interrupts, with the clock readings of its turns; \<open>None\<close> is a payment
  still waiting after them.
\<close>

fun takeAlone :: "int list \<Rightarrow> int \<Rightarrow> TokenBucket \<Rightarrow> TokenBucket option" where
  "takeAlone [] bytes b = None"
| "takeAlone (now # clock) bytes b =
     (case takeTurn now bytes b of
        (b', Waits ms) \<Rightarrow> takeAlone clock bytes b'
      | (b', _) \<Rightarrow> Some b')"

text \<open>
  Turns of any number of payments in the order the process runs them, each a clock reading and the
  bytes to pay, and the bytes let through.
\<close>

type_synonym Turns = "(int \<times> int) list"

fun runTurns :: "Turns \<Rightarrow> TokenBucket \<Rightarrow> TokenBucket" where
  "runTurns [] b = b"
| "runTurns ((now, bytes) # turns) b = runTurns turns (fst (takeTurn now bytes b))"

fun passed :: "Turns \<Rightarrow> TokenBucket \<Rightarrow> int" where
  "passed [] b = 0"
| "passed ((now, bytes) # turns) b =
     (case takeTurn now bytes b of (b', t) \<Rightarrow> (if t = Paid then bytes else 0) + passed turns b')"

text \<open>The upload bucket of the gateway: a settings change sets its limit, \<open>send\<close> takes from it.\<close>

definition applySettings :: "int \<Rightarrow> TokenBucket \<Rightarrow> TokenBucket" where
  "applySettings uploadRateLimit upload = setLimit uploadRateLimit upload"

subsection \<open>One turn\<close>

lemma takeTurn_rate [simp]: "bytesPerSecond (fst (takeTurn now bytes b)) = bytesPerSecond b"
  by (simp add: takeTurn_def Let_def)

lemma takeTurn_last [simp]: "0 < bytesPerSecond b \<Longrightarrow> lastAt (fst (takeTurn now bytes b)) = now"
  by (simp add: takeTurn_def Let_def)

lemma runTurns_rate [simp]: "bytesPerSecond (runTurns turns b) = bytesPerSecond b"
  by (induction turns arbitrary: b) auto

lemma runTurns_append: "runTurns (xs @ ys) b = runTurns ys (runTurns xs b)"
  by (induction xs arbitrary: b) auto

text \<open>What a turn lets through plus what it leaves never exceeds what was there and has accrued.\<close>

lemma takeTurn_budget:
  assumes "0 < bytesPerSecond b"
  shows "tokens (fst (takeTurn now bytes b)) + (if snd (takeTurn now bytes b) = Paid then of_int bytes else 0)
     \<le> tokens b + of_int (bytesPerSecond b) * of_int (now - lastAt b) / 1000"
proof -
  have "refill now bytes b \<le> tokens b + of_int (bytesPerSecond b) * of_int (now - lastAt b) / 1000"
    by (simp add: refill_def mult.commute)
  then show ?thesis using assms by (simp add: takeTurn_def Let_def)
qed

definition solvent :: "int \<Rightarrow> TokenBucket \<Rightarrow> bool" where
  "solvent cap b \<longleftrightarrow> 0 \<le> tokens b \<and> tokens b \<le> of_int cap"

lemma takeTurn_solvent:
  assumes "0 < bytesPerSecond b" "bytesPerSecond b \<le> cap" "bytes \<le> cap" "0 \<le> bytes" "lastAt b \<le> now" "solvent cap b"
  shows "solvent cap (fst (takeTurn now bytes b))"
proof -
  have "0 \<le> of_int (now - lastAt b) / 1000 * (of_int (bytesPerSecond b) :: rat)"
    using assms by simp
  then have "0 \<le> refill now bytes b" "refill now bytes b \<le> of_int cap"
    using assms by (auto simp: refill_def solvent_def min_def max_def)
  then show ?thesis using assms by (auto simp: takeTurn_def Let_def solvent_def)
qed

lemma runTurns_solvent:
  assumes "0 < bytesPerSecond b" "bytesPerSecond b \<le> cap" "list_all (\<lambda>(now, bytes). 0 \<le> bytes \<and> bytes \<le> cap) turns"
    "sorted (lastAt b # map fst turns)" "solvent cap b"
  shows "solvent cap (runTurns turns b) \<and> lastAt (runTurns turns b) = last (lastAt b # map fst turns)"
  using assms
proof (induction turns arbitrary: b)
  case (Cons turn turns)
  obtain now bytes where t: "turn = (now, bytes)" by (cases turn)
  have "solvent cap (fst (takeTurn now bytes b))"
    using Cons.prems by (intro takeTurn_solvent) (auto simp: t)
  then show ?case using Cons.prems Cons.IH [of "fst (takeTurn now bytes b)"] by (simp add: t)
qed simp

lemma passed_budget:
  assumes "0 < bytesPerSecond b"
  shows "of_int (passed turns b) + tokens (runTurns turns b)
     \<le> tokens b + of_int (bytesPerSecond b) * of_int (lastAt (runTurns turns b) - lastAt b) / 1000"
  using assms
proof (induction turns arbitrary: b)
  case (Cons turn turns)
  obtain now bytes where t: "turn = (now, bytes)" by (cases turn)
  let ?b = "fst (takeTurn now bytes b)" and ?paid = "if snd (takeTurn now bytes b) = Paid then bytes else 0"
  have "of_int (passed turns ?b) + tokens (runTurns turns ?b)
     \<le> tokens ?b + of_int (bytesPerSecond b) * of_int (lastAt (runTurns turns ?b) - now) / 1000"
    using Cons.IH [of ?b] Cons.prems by simp
  moreover have "tokens ?b + of_int ?paid \<le> tokens b + of_int (bytesPerSecond b) * of_int (now - lastAt b) / 1000"
    using takeTurn_budget [OF Cons.prems, of now bytes] by (simp split: if_splits)
  moreover have "passed (turn # turns) b = ?paid + passed turns ?b" by (simp add: t split: prod.split)
  ultimately show ?case by (simp add: t field_simps split del: if_split)
qed simp

subsection \<open>The limit holds\<close>

text \<open>
  (C25) However many connections draw from one bucket and however their turns interleave, the bytes
  let through in any stretch of time are at most the limit times its length, plus one burst: a
  second's allowance or the largest single payment.
\<close>

theorem rate_holds_in_every_window:
  assumes limit: "0 < limit" and chronological: "sorted (start # map fst (earlier @ window))"
    and payments: "list_all (\<lambda>(now, bytes). 0 \<le> bytes \<and> bytes \<le> largest) (earlier @ window)"
    and nonempty: "window \<noteq> []"
  shows "of_int (passed window (runTurns earlier (newBucket start limit)))
     \<le> of_int (max limit largest)
        + of_int limit * of_int (fst (last window) - last (start # map fst earlier)) / (1000 :: rat)"
proof -
  let ?fresh = "newBucket start limit"
  let ?b = "runTurns earlier ?fresh" and ?cap = "max limit largest"
  have rate: "bytesPerSecond ?b = limit" by (simp add: newBucket_def)
  have start: "solvent ?cap ?fresh" "lastAt ?fresh = start" "bytesPerSecond ?fresh = limit"
    using limit by (auto simp: newBucket_def solvent_def)
  have "solvent ?cap ?b \<and> lastAt ?b = last (lastAt ?fresh # map fst earlier)"
    by (rule runTurns_solvent) (use limit chronological payments start in \<open>auto simp: list_all_iff sorted_append le_max_iff_disj\<close>)
  then have b: "solvent ?cap ?b" "lastAt ?b = last (start # map fst earlier)" using start by auto
  have "solvent ?cap (runTurns window ?b) \<and> lastAt (runTurns window ?b) = last (lastAt ?b # map fst window)"
  proof (rule runTurns_solvent)
    show "sorted (lastAt ?b # map fst window)"
      using chronological by (fastforce simp: b(2) sorted_append last_map)
  qed (use limit payments b rate in \<open>auto simp: list_all_iff le_max_iff_disj\<close>)
  then have e: "0 \<le> tokens (runTurns window ?b)" "lastAt (runTurns window ?b) = fst (last window)"
    using nonempty by (auto simp: solvent_def last_map)
  have "of_int (passed window ?b) + tokens (runTurns window ?b)
     \<le> tokens ?b + of_int limit * of_int (fst (last window) - lastAt ?b) / 1000"
    using passed_budget [of ?b window] limit by (simp add: start e)
  then show ?thesis using e(1) b by (simp add: solvent_def)
qed

text \<open>Two connections sharing a kilobyte per second, after a quiet two seconds.\<close>

theorem rate_holds_in_every_window_witness:
  "passed [(2000, 800), (2000, 800), (2500, 800)] (newBucket 0 1000) = 800
   \<and> (of_int (passed [(2000, 800), (2000, 800), (2500, 800)] (newBucket 0 1000)) :: rat) \<le> 1000 + 1000 * 2500 / 1000"
proof -
  let ?w = "[(2000, 800), (2000, 800), (2500, 800)] :: Turns"
  have "passed ?w (newBucket 0 1000) = 800"
    by (simp add: newBucket_def takeTurn_def refill_def Let_def)
  moreover have "(of_int (passed ?w (runTurns [] (newBucket 0 1000))) :: rat)
      \<le> of_int (max 1000 800) + of_int 1000 * of_int (fst (last ?w) - last (0 # map fst ([] :: Turns))) / 1000"
    by (rule rate_holds_in_every_window) auto
  ultimately show ?thesis by simp
qed

subsection \<open>A payment is made\<close>

lemma takeAlone_returns:
  assumes "0 < bytesPerSecond b" "0 \<le> bytes" "0 \<le> tokens b" "sorted_wrt (<) (lastAt b # clock)"
    "of_int bytes \<le> tokens b + of_int (bytesPerSecond b) * of_nat (length clock) / 1000" "clock \<noteq> []"
  shows "\<exists>b'. takeAlone clock bytes b = Some b'"
  using assms
proof (induction clock arbitrary: b)
  case (Cons now clock)
  let ?held = "refill now bytes b" and ?rate = "of_int (bytesPerSecond b) :: rat"
  show ?case
  proof (cases "of_int bytes \<le> ?held")
    case True
    then show ?thesis using Cons.prems by (simp add: takeTurn_def Let_def)
  next
    case False
    let ?b = "b\<lparr>tokens := ?held, lastAt := now\<rparr>"
    have wait: "takeAlone (now # clock) bytes b = takeAlone clock bytes ?b"
      using False Cons.prems by (simp add: takeTurn_def Let_def)
    have held: "?held = tokens b + of_int (now - lastAt b) / 1000 * ?rate"
      using False by (auto simp: refill_def min_def)
    have "1 \<le> now - lastAt b" using Cons.prems(4) by simp
    then have "(1 :: rat) \<le> of_int (now - lastAt b)" by (simp only: of_int_1_le_iff)
    then have "?rate * 1 \<le> ?rate * of_int (now - lastAt b)"
      using Cons.prems(1) by (intro mult_left_mono) auto
    then have more: "tokens b + ?rate / 1000 \<le> ?held" by (simp add: held field_simps)
    have "0 \<le> ?rate" using Cons.prems(1) by simp
    then have pos: "0 \<le> ?held" using more Cons.prems(3) by linarith
    have enough: "of_int bytes \<le> ?held + ?rate * of_nat (length clock) / 1000"
      using Cons.prems(5) more by (simp add: field_simps)
    then have "clock \<noteq> []" using False by auto
    then show ?thesis using Cons.IH [of ?b] Cons.prems pos enough wait by simp
  qed
qed simp

text \<open>
  (C40) A payment that has the bucket to itself is made, whatever its size against the limit: with a
  limit of \<open>r\<close> bytes per second it has passed by its turn number \<open>\<lceil>1000 bytes / r\<rceil> + 1\<close>, since every
  turn comes at least a millisecond after the one before; with no limit it passes at once.
\<close>

theorem take_terminates:
  assumes "0 \<le> bytes" "sorted_wrt (<) (start # clock)"
    "nat (ceil_div (1000 * bytes) limit) < length clock \<or> limit \<le> 0 \<and> clock \<noteq> []"
  shows "\<exists>b. takeAlone clock bytes (newBucket start limit) = Some b"
proof (cases "0 < limit")
  case True
  let ?b = "newBucket start limit"
  have "1000 * bytes \<le> limit * ceil_div (1000 * bytes) limit"
    using ceil_div_ge [of limit "1000 * bytes"] True by (simp add: mult.commute)
  also have "\<dots> \<le> limit * int (length clock)"
    using assms(3) True by (intro mult_left_mono) auto
  finally have "(of_int (1000 * bytes) :: rat) \<le> of_int (limit * int (length clock))"
    by (simp only: of_int_le_iff)
  then have "of_int bytes \<le> (of_int limit * of_nat (length clock) / 1000 :: rat)"
    by simp
  then show ?thesis using assms True by (intro takeAlone_returns) (auto simp: newBucket_def)
next
  case False
  then show ?thesis using assms(3) by (cases clock) (auto simp: newBucket_def takeTurn_def)
qed

text \<open>Three bytes through a limit of two bytes a second.\<close>

theorem take_terminates_witness:
  "\<exists>b. takeAlone (map (\<lambda>k. 250 * int k) [1..<1602]) 3 (newBucket 0 2) = Some b"
proof (rule take_terminates)
  show "sorted_wrt (<) (0 # map (\<lambda>k. 250 * int k) [1..<1602])"
    using sorted_wrt_upt [of 1 1602] by (simp add: sorted_wrt_map del: upt_rec_numeral)
  show "nat (ceil_div (1000 * 3) 2) < length (map (\<lambda>k. 250 * int k) [1..<1602]) \<or> 2 \<le> (0 :: int) \<and> map (\<lambda>k. 250 * int k) [1..<1602] \<noteq> []"
    by (simp add: ceil_div_def del: upt_rec_numeral)
qed simp

subsection \<open>A payment that never comes\<close>

text \<open>
  The ceiling of a turn follows the payment of that turn only. A payment above the limit that
  shares the bucket with smaller ones loses what it saved each time one of them has its turn:
  if one comes at most a quarter of a second before each of its own turns, it is never made.
\<close>

lemma small_payment_caps:
  assumes "0 < bytesPerSecond b" "small \<le> bytesPerSecond b" "0 \<le> small"
  shows "tokens (fst (takeTurn now small b)) \<le> of_int (bytesPerSecond b)"
  using assms by (auto simp: takeTurn_def Let_def refill_def)

lemma large_payment_starved:
  assumes "0 < bytesPerSecond b" "0 \<le> small" "small \<le> bytesPerSecond b" "later - now \<le> 250"
    "5 * bytesPerSecond b < 4 * large"
  shows "snd (takeTurn later large (fst (takeTurn now small b))) \<noteq> Paid"
proof -
  let ?b = "fst (takeTurn now small b)" and ?rate = "of_int (bytesPerSecond b) :: rat"
  have "?rate * of_int (later - now) \<le> ?rate * 250"
    using assms by (intro mult_left_mono) (auto simp del: of_int_diff)
  moreover have "refill later large ?b \<le> tokens ?b + of_int (later - now) / 1000 * ?rate"
    using assms by (simp add: refill_def)
  moreover have "(of_int (5 * bytesPerSecond b) :: rat) < of_int (4 * large)"
    using assms(5) by (simp only: of_int_less_iff)
  ultimately have "refill later large ?b < of_int large"
    using small_payment_caps [OF assms(1,3,2), of now] by (simp add: field_simps)
  then show ?thesis using assms by (simp add: takeTurn_def [of later] Let_def)
qed

text \<open>So with the turns of the two alternating, however long, none of the large payment's is the last.\<close>

lemma large_payment_never_made:
  assumes "0 < bytesPerSecond b" "0 \<le> small" "small \<le> bytesPerSecond b" "5 * bytesPerSecond b < 4 * large"
    "\<forall>(now, later)\<in>set rounds. later - now \<le> 250"
    "rounds = before @ (now, later) # after"
  shows "snd (takeTurn later large
     (runTurns (concat (map (\<lambda>(n, l). [(n, small), (l, large)]) before) @ [(now, small)]) b)) \<noteq> Paid"
  using assms by (simp add: runTurns_append large_payment_starved)

end
