(* ===== verification/Peer_Relay.thy ===== *)
theory Peer_Relay
  imports Relay_Frames
begin

text \<open>
  Carrying links between friends: \<open>packages/api/src/services/peer-relay.service.ts\<close> on top of the
  frames of \<open>Relay_Frames\<close>. One gateway is both ends of the story: it carries sessions for a
  dialler down the link of a holder, and it hosts sessions that others carry to it. The objects the
  code shares between closures (links, carried sessions, relayed sockets) live in lists and are
  named by their position; every stretch of code between two awaits is one event.
\<close>

subsection \<open>Constants and data\<close>

definition RELAY_MAX_SESSIONS :: nat where "RELAY_MAX_SESSIONS = 4"

definition RELAY_MAX_BUFFERED_BYTES :: nat where "RELAY_MAX_BUFFERED_BYTES = 4 * 1024 * 1024"

datatype RelayRefusal =
    NOT_CARRYING | AT_CAPACITY | NO_ROUTE | NOT_ADDRESSED | DECLINED | OVERFLOW | LINK_LOST

text \<open>A message of a carried link: whether it is binary, and its bytes.\<close>

type_synonym Message = "bool \<times> byte list"

text \<open>The dialler's socket, with the messages it was sent.\<close>

record CarriedClient =
  clientOpen :: bool
  received :: "Message list"

datatype Job = ToClient Message | ToHolder Message

text \<open>The promise \<open>reserve\<close> waits on: unresolved, resolved, and answered once \<open>reserve\<close> returned.\<close>

datatype Opening = Unresolved | Resolved "RelayRefusal option" | Answered "RelayRefusal option"

text \<open>
  A carried session. The chain of promises is the list of writes still to be paid for and made.
  The last three fields are history: what the holder and the dialler handed over, and what was put
  on the holder's link.
\<close>

record CarriedSession =
  cid :: nat
  creg :: nat
  client :: "CarriedClient option"
  inbox :: "Message list"
  pending :: nat
  queue :: "Job list"
  settle :: bool
  timer :: bool
  closed :: bool
  opened :: Opening
  fromHolder :: "Message list"
  fromClient :: "Message list"
  relayed :: "Message list"

datatype SocketEvent = SocketMessage Message | SocketClosed

record RelayedSocket =
  sockReg :: nat
  sockId :: nat
  sockOpen :: bool
  emitted :: "SocketEvent list"

text \<open>A link: its transport, with the frames put on it, and what it carries both ways.\<close>

record Registration =
  peerId :: string
  dialled :: bool
  transportOpen :: bool
  sent :: "(RelayOpcode \<times> nat \<times> byte list) list"
  reader :: RelayFrameReader
  carried :: "(nat \<times> nat) list"
  hosted :: "(nat \<times> nat) list"
  nextId :: nat

record Relay =
  regs :: "Registration list"
  links :: "nat list"
  sessions :: "CarriedSession list"
  sockets :: "RelayedSocket list"
  hosting :: "(nat \<times> nat) list"
  endpoint :: bool
  stopping :: bool

text \<open>JavaScript's \<open>Map\<close> in insertion order.\<close>

definition mapDelete :: "nat \<Rightarrow> (nat \<times> 'v) list \<Rightarrow> (nat \<times> 'v) list" where
  "mapDelete key m = filter (\<lambda>(k, v). k \<noteq> key) m"

definition mapSet :: "nat \<Rightarrow> 'v \<Rightarrow> (nat \<times> 'v) list \<Rightarrow> (nat \<times> 'v) list" where
  "mapSet key v m =
     (if key \<in> fst ` set m then map (\<lambda>(k, w). (k, if k = key then v else w)) m else m @ [(key, v)])"

definition updReg :: "nat \<Rightarrow> (Registration \<Rightarrow> Registration) \<Rightarrow> Relay \<Rightarrow> Relay" where
  "updReg r f s = s\<lparr>regs := (regs s)[r := f (regs s ! r)]\<rparr>"

definition updSession :: "nat \<Rightarrow> (CarriedSession \<Rightarrow> CarriedSession) \<Rightarrow> Relay \<Rightarrow> Relay" where
  "updSession k f s = s\<lparr>sessions := (sessions s)[k := f (sessions s ! k)]\<rparr>"

definition updSocket :: "nat \<Rightarrow> (RelayedSocket \<Rightarrow> RelayedSocket) \<Rightarrow> Relay \<Rightarrow> Relay" where
  "updSocket j f s = s\<lparr>sockets := (sockets s)[j := f (sockets s ! j)]\<rparr>"

definition sendOn :: "nat \<Rightarrow> RelayOpcode \<Rightarrow> nat \<Rightarrow> byte list \<Rightarrow> Relay \<Rightarrow> Relay" where
  "sendOn r op i load = updReg r (\<lambda>reg. reg\<lparr>sent := sent reg @ [(op, i, load)]\<rparr>)"

definition sendIfOpen :: "nat \<Rightarrow> RelayOpcode \<Rightarrow> nat \<Rightarrow> byte list \<Rightarrow> Relay \<Rightarrow> Relay" where
  "sendIfOpen r op i load s = (if transportOpen (regs s ! r) then sendOn r op i load s else s)"

subsection \<open>Relayed sockets\<close>

definition socketSend :: "nat \<Rightarrow> Message \<Rightarrow> Relay \<Rightarrow> Relay" where
  "socketSend j m s =
     (let sock = sockets s ! j in
      if \<not> sockOpen sock then s
      else sendIfOpen (sockReg sock) (if fst m then BINARY else TEXT) (sockId sock) (snd m) s)"

definition socketClose :: "nat \<Rightarrow> Relay \<Rightarrow> Relay" where
  "socketClose j s =
     (let sock = sockets s ! j; r = sockReg sock in
      if \<not> sockOpen sock then s
      else
        let s1 = updSocket j (\<lambda>q. q\<lparr>sockOpen := False\<rparr>) s;
            s2 = updReg r (\<lambda>reg. reg\<lparr>hosted := mapDelete (sockId sock) (hosted reg)\<rparr>) s1;
            s3 = sendIfOpen r CLOSE (sockId sock) [] s2
        in updSocket j (\<lambda>q. q\<lparr>emitted := emitted q @ [SocketClosed]\<rparr>) s3)"

definition socketDropped :: "nat \<Rightarrow> Relay \<Rightarrow> Relay" where
  "socketDropped j =
     updSocket j (\<lambda>q. if \<not> sockOpen q then q else q\<lparr>sockOpen := False, emitted := emitted q @ [SocketClosed]\<rparr>)"

definition socketDeliver :: "nat \<Rightarrow> Message \<Rightarrow> Relay \<Rightarrow> Relay" where
  "socketDeliver j m =
     updSocket j (\<lambda>q. if sockOpen q then q\<lparr>emitted := emitted q @ [SocketMessage m]\<rparr> else q)"

subsection \<open>Links and carried sessions\<close>

definition freshRegistration :: "string \<Rightarrow> bool \<Rightarrow> Registration" where
  "freshRegistration peer out =
     \<lparr>peerId = peer, dialled = out, transportOpen = True, sent = [], reader = freshReader,
      carried = [], hosted = [], nextId = (if out then 2 else 1)\<rparr>"

definition register :: "string \<Rightarrow> bool \<Rightarrow> Relay \<Rightarrow> Relay" where
  "register peer out s =
     s\<lparr>regs := regs s @ [freshRegistration peer out], links := links s @ [length (regs s)]\<rparr>"

definition carriedCount :: "Relay \<Rightarrow> nat" where
  "carriedCount s = sum_list (map (\<lambda>r. length (carried (regs s ! r))) (links s))"

definition routeTo :: "string \<Rightarrow> Relay \<Rightarrow> nat option" where
  "routeTo peer s = find (\<lambda>r. peerId (regs s ! r) = peer \<and> transportOpen (regs s ! r)) (links s)"

definition settled :: "CarriedSession \<Rightarrow> CarriedSession" where
  "settled c = c\<lparr>timer := False, settle := False\<rparr>"

definition clientClosed :: "CarriedSession \<Rightarrow> CarriedSession" where
  "clientClosed c = c\<lparr>client := map_option (\<lambda>w. w\<lparr>clientOpen := False\<rparr>) (client c)\<rparr>"

definition closeCarried :: "nat \<Rightarrow> Relay \<Rightarrow> Relay" where
  "closeCarried k s =
     (let c = sessions s ! k in
      if closed c then s
      else
        let s1 = updSession k (\<lambda>c. settled (c\<lparr>closed := True\<rparr>)) s;
            s2 = updReg (creg c) (\<lambda>reg. reg\<lparr>carried := mapDelete (cid c) (carried reg)\<rparr>) s1;
            s3 = sendIfOpen (creg c) CLOSE (cid c) [] s2
        in updSession k clientClosed s3)"

definition unregister :: "nat \<Rightarrow> Relay \<Rightarrow> Relay" where
  "unregister r s =
     (if r \<notin> set (links s) then s
      else
        let s1 = s\<lparr>links := removeAll r (links s)\<rparr>;
            s2 = foldl (\<lambda>t (i, k). closeCarried k t) s1 (carried (regs s1 ! r))
        in foldl (\<lambda>t (i, j). socketDropped j (updReg r (\<lambda>reg. reg\<lparr>hosted := mapDelete i (hosted reg)\<rparr>) t))
             s2 (hosted (regs s2 ! r)))"

definition destroyRelay :: "Relay \<Rightarrow> Relay" where
  "destroyRelay s = foldl (\<lambda>t r. unregister r t) (s\<lparr>stopping := True\<rparr>) (links s)"

text \<open>The holder is asked, and the place is held while it answers; a refusal is the left result.\<close>

definition freshSession :: "nat \<Rightarrow> nat \<Rightarrow> CarriedSession" where
  "freshSession i r =
     \<lparr>cid = i, creg = r, client = None, inbox = [], pending = 0, queue = [], settle = True, timer = True,
      closed = False, opened = Unresolved, fromHolder = [], fromClient = [], relayed = []\<rparr>"

definition reserveOpen :: "bool \<Rightarrow> string \<Rightarrow> byte list \<Rightarrow> Relay \<Rightarrow> RelayRefusal + Relay" where
  "reserveOpen carrying holder load s =
     (if \<not> carrying then Inl NOT_CARRYING
      else if RELAY_MAX_SESSIONS \<le> carriedCount s then Inl AT_CAPACITY
      else case routeTo holder s of
        None \<Rightarrow> Inl NO_ROUTE
      | Some r \<Rightarrow>
          let i = nextId (regs s ! r); k = length (sessions s);
              s1 = s\<lparr>sessions := sessions s @ [freshSession i r]\<rparr>;
              s2 = updReg r (\<lambda>reg. reg\<lparr>nextId := i + 2, carried := mapSet i k (carried reg)\<rparr>) s1
          in Inr (sendOn r OPEN i load s2))"

definition resolveOpening :: "RelayRefusal option \<Rightarrow> CarriedSession \<Rightarrow> CarriedSession" where
  "resolveOpening r c = (if opened c = Unresolved then c\<lparr>opened := Resolved r\<rparr> else c)"

definition reserveResume :: "nat \<Rightarrow> Relay \<Rightarrow> Relay option" where
  "reserveResume k s =
     (case opened (sessions s ! k) of
        Resolved refusal \<Rightarrow>
          let s1 = updSession k (\<lambda>c. settled (c\<lparr>opened := Answered refusal\<rparr>)) s; c = sessions s ! k in
          Some (if refusal = None then s1
                else updSession k (\<lambda>c. c\<lparr>closed := True\<rparr>)
                       (updReg (creg c) (\<lambda>reg. reg\<lparr>carried := mapDelete (cid c) (carried reg)\<rparr>) s1))
      | _ \<Rightarrow> None)"

definition jobBytes :: "Job \<Rightarrow> nat" where
  "jobBytes job = (case job of ToClient m \<Rightarrow> length (snd m) | ToHolder m \<Rightarrow> length (snd m))"

definition forward :: "nat \<Rightarrow> Job \<Rightarrow> Relay \<Rightarrow> Relay" where
  "forward k job s =
     (if closed (sessions s ! k) then s
      else
        let s1 = updSession k (\<lambda>c. c\<lparr>pending := pending c + jobBytes job\<rparr>) s in
        if RELAY_MAX_BUFFERED_BYTES < pending (sessions s1 ! k) then closeCarried k s1
        else updSession k (\<lambda>c. c\<lparr>queue := queue c @ [job]\<rparr>) s1)"

text \<open>
  The next write of a session has been paid for. It is skipped on a session closed meanwhile; a
  write that throws (\<open>works\<close> false) closes the session.
\<close>

definition writeJob :: "nat \<Rightarrow> Job \<Rightarrow> Relay \<Rightarrow> Relay" where
  "writeJob k job s =
     (let c = sessions s ! k in
      case job of
        ToClient m \<Rightarrow>
          updSession k (\<lambda>c. c\<lparr>client := map_option
            (\<lambda>w. if clientOpen w then w\<lparr>received := received w @ [m]\<rparr> else w) (client c)\<rparr>) s
      | ToHolder m \<Rightarrow>
          if transportOpen (regs s ! creg c)
          then updSession k (\<lambda>c. c\<lparr>relayed := relayed c @ [m]\<rparr>)
                 (sendOn (creg c) (if fst m then BINARY else TEXT) (cid c) (snd m) s)
          else s)"

definition queueTurn :: "bool \<Rightarrow> nat \<Rightarrow> Relay \<Rightarrow> Relay option" where
  "queueTurn works k s =
     (case queue (sessions s ! k) of
        [] \<Rightarrow> None
      | job # rest \<Rightarrow>
          let s1 = updSession k (\<lambda>c. c\<lparr>queue := rest\<rparr>) s;
              paid = updSession k (\<lambda>c. c\<lparr>pending := pending c - jobBytes job\<rparr>) in
          Some (if closed (sessions s ! k) then paid s1
                else if works then paid (writeJob k job s1)
                else closeCarried k s1))"

text \<open>A data frame from the holder, once it is known to be one.\<close>

definition messageToClient :: "nat \<Rightarrow> Message \<Rightarrow> Relay \<Rightarrow> Relay" where
  "messageToClient k m s =
     (case client (sessions s ! k) of
        None \<Rightarrow> updSession k (\<lambda>c. c\<lparr>inbox := inbox c @ [m]\<rparr>) s
      | Some w \<Rightarrow> forward k (ToClient m) s)"

definition toClient :: "nat \<Rightarrow> RelayFrame \<Rightarrow> Relay \<Rightarrow> Relay" where
  "toClient k f s =
     (case opcode f of
        OPEN \<Rightarrow> s
      | ACCEPT \<Rightarrow> updSession k (\<lambda>c. if settle c then resolveOpening None c else c) s
      | REFUSE \<Rightarrow> updSession k (\<lambda>c. if settle c then resolveOpening (Some DECLINED) c else c) s
      | CLOSE \<Rightarrow> closeCarried k s
      | TEXT \<Rightarrow> messageToClient k (False, payload f)
                  (updSession k (\<lambda>c. c\<lparr>fromHolder := fromHolder c @ [(False, payload f)]\<rparr>) s)
      | BINARY \<Rightarrow> messageToClient k (True, payload f)
                  (updSession k (\<lambda>c. c\<lparr>fromHolder := fromHolder c @ [(True, payload f)]\<rparr>) s))"

definition toHolder :: "nat \<Rightarrow> Message \<Rightarrow> Relay \<Rightarrow> Relay" where
  "toHolder k m s = forward k (ToHolder m) (updSession k (\<lambda>c. c\<lparr>fromClient := fromClient c @ [m]\<rparr>) s)"

definition attach :: "nat \<Rightarrow> Relay \<Rightarrow> Relay" where
  "attach k s =
     (if closed (sessions s ! k) then s
      else
        let waiting = inbox (sessions s ! k);
            s1 = updSession k (\<lambda>c. c\<lparr>client := Some \<lparr>clientOpen = True, received = []\<rparr>, inbox := []\<rparr>) s
        in foldl (\<lambda>t m. messageToClient k m t) s1 waiting)"

subsection \<open>Hosting\<close>

text \<open>The answer to an OPEN that is refused, as text, and as the bytes of that text.\<close>

fun refusalName :: "RelayRefusal \<Rightarrow> string" where
  "refusalName NOT_CARRYING = ''not_carrying''"
| "refusalName AT_CAPACITY = ''at_capacity''"
| "refusalName NO_ROUTE = ''no_route''"
| "refusalName NOT_ADDRESSED = ''not_addressed''"
| "refusalName DECLINED = ''declined''"
| "refusalName OVERFLOW = ''overflow''"
| "refusalName LINK_LOST = ''link_lost''"

definition refusalPayload :: "RelayRefusal \<Rightarrow> byte list" where
  "refusalPayload reason =
     map (\<lambda>c. of_nat (of_char c)) (''{'' @ [CHR 0x22] @ ''reason'' @ [CHR 0x22] @ '':'' @ [CHR 0x22] @ refusalName reason @ [CHR 0x22] @ ''}'')"

definition refuse :: "nat \<Rightarrow> nat \<Rightarrow> RelayRefusal \<Rightarrow> Relay \<Rightarrow> Relay" where
  "refuse r i reason = sendOn r REFUSE i (refusalPayload reason)"

text \<open>
  Until the authority is asked; \<open>parses\<close> is whether \<open>JSON.parse\<close> accepts the payload. The socket is
  in the map before the answer.
\<close>

definition host :: "(byte list \<Rightarrow> bool) \<Rightarrow> nat \<Rightarrow> RelayFrame \<Rightarrow> Relay \<Rightarrow> Relay" where
  "host parses r f s =
     (let i = unat (session f) in
      if \<not> endpoint s \<or> stopping s then refuse r i DECLINED s
      else if RELAY_MAX_SESSIONS \<le> length (hosted (regs s ! r)) then refuse r i AT_CAPACITY s
      else if \<not> parses (payload f) then refuse r i NOT_ADDRESSED s
      else
        let j = length (sockets s);
            s1 = s\<lparr>sockets := sockets s @ [\<lparr>sockReg = r, sockId = i, sockOpen = True, emitted = []\<rparr>],
                    hosting := hosting s @ [(r, i)]\<rparr>
        in updReg r (\<lambda>reg. reg\<lparr>hosted := mapSet i j (hosted reg)\<rparr>) s1)"

definition hostAnswered :: "nat \<Rightarrow> bool \<Rightarrow> Relay \<Rightarrow> Relay option" where
  "hostAnswered n admitted s =
     (if length (hosting s) \<le> n then None
      else case hosting s ! n of (r, i) \<Rightarrow>
        let s1 = s\<lparr>hosting := removeAt n (hosting s)\<rparr> in
        Some (if admitted then sendOn r ACCEPT i [] s1
              else refuse r i DECLINED (updReg r (\<lambda>reg. reg\<lparr>hosted := mapDelete i (hosted reg)\<rparr>) s1)))"

subsection \<open>Delivery\<close>

definition dispatch :: "(byte list \<Rightarrow> bool) \<Rightarrow> nat \<Rightarrow> RelayFrame \<Rightarrow> Relay \<Rightarrow> Relay" where
  "dispatch parses r f s =
     (if opcode f = OPEN then host parses r f s
      else
        let i = unat (session f) in
        case map_of (carried (regs s ! r)) i of
          Some k \<Rightarrow> toClient k f s
        | None \<Rightarrow>
            (case map_of (hosted (regs s ! r)) i of
               None \<Rightarrow> s
             | Some j \<Rightarrow>
                 if opcode f = CLOSE
                 then socketDropped j (updReg r (\<lambda>reg. reg\<lparr>hosted := mapDelete i (hosted reg)\<rparr>) s)
                 else if opcode f = TEXT \<or> opcode f = BINARY
                 then socketDeliver j (opcode f = BINARY, payload f) s
                 else s))"

definition deliver :: "(byte list \<Rightarrow> bool) \<Rightarrow> nat \<Rightarrow> byte list \<Rightarrow> Relay \<Rightarrow> Relay" where
  "deliver parses r data s =
     (case push data (reader (regs s ! r)) of
        (rd, frames) \<Rightarrow>
          let s1 = updReg r (\<lambda>reg. reg\<lparr>reader := rd\<rparr>) s in
          if failed rd then unregister r s1
          else foldl (\<lambda>t f. dispatch parses r f t) s1 frames)"

subsection \<open>Interleavings\<close>

datatype RelayEvent =
    Bind
  | Register string bool
  | TransportDown nat
  | CloseLink nat
  | Destroy
  | Reserve bool string "byte list"
  | OpenTimeout nat
  | ReserveResume nat
  | Attach nat
  | Abandon nat
  | ClientMessage nat Message
  | ClientClosing nat
  | ClientClose nat
  | QueueTurn bool nat
  | Deliver nat "byte list"
  | HostAnswered nat bool
  | SocketSend nat Message
  | SocketClose nat

text \<open>
  What may happen: a timer fires only while it is set, a session is attached or given back only
  once \<open>reserve\<close> handed it out, a client speaks only once attached.
\<close>

fun relayStep :: "(byte list \<Rightarrow> bool) \<Rightarrow> RelayEvent \<Rightarrow> Relay \<Rightarrow> Relay option" where
  "relayStep parses Bind s = Some (s\<lparr>endpoint := True\<rparr>)"
| "relayStep parses (Register peer out) s = Some (register peer out s)"
| "relayStep parses (TransportDown r) s =
     (if r < length (regs s) then Some (updReg r (\<lambda>reg. reg\<lparr>transportOpen := False\<rparr>) s) else None)"
| "relayStep parses (CloseLink r) s = Some (unregister r s)"
| "relayStep parses Destroy s = Some (destroyRelay s)"
| "relayStep parses (Reserve carrying holder load) s =
     (case reserveOpen carrying holder load s of Inl refusal \<Rightarrow> Some s | Inr s' \<Rightarrow> Some s')"
| "relayStep parses (OpenTimeout k) s =
     (if k < length (sessions s) \<and> timer (sessions s ! k)
      then Some (updSession k (resolveOpening (Some DECLINED)) s) else None)"
| "relayStep parses (ReserveResume k) s = (if k < length (sessions s) then reserveResume k s else None)"
| "relayStep parses (Attach k) s =
     (if k < length (sessions s) \<and> opened (sessions s ! k) = Answered None \<and> client (sessions s ! k) = None
      then Some (attach k s) else None)"
| "relayStep parses (Abandon k) s =
     (if k < length (sessions s) \<and> opened (sessions s ! k) = Answered None then Some (closeCarried k s) else None)"
| "relayStep parses (ClientMessage k m) s =
     (if k < length (sessions s) \<and> client (sessions s ! k) \<noteq> None then Some (toHolder k m s) else None)"
| "relayStep parses (ClientClosing k) s =
     (if k < length (sessions s) then Some (updSession k clientClosed s) else None)"
| "relayStep parses (ClientClose k) s =
     (if k < length (sessions s) \<and> client (sessions s ! k) \<noteq> None
      then Some (closeCarried k (updSession k clientClosed s)) else None)"
| "relayStep parses (QueueTurn works k) s = (if k < length (sessions s) then queueTurn works k s else None)"
| "relayStep parses (Deliver r data) s = (if r < length (regs s) then Some (deliver parses r data s) else None)"
| "relayStep parses (HostAnswered n admitted) s = hostAnswered n admitted s"
| "relayStep parses (SocketSend j m) s = (if j < length (sockets s) then Some (socketSend j m s) else None)"
| "relayStep parses (SocketClose j) s = (if j < length (sockets s) then Some (socketClose j s) else None)"

fun relayRun :: "(byte list \<Rightarrow> bool) \<Rightarrow> RelayEvent list \<Rightarrow> Relay \<Rightarrow> Relay option" where
  "relayRun parses [] s = Some s"
| "relayRun parses (e # es) s = (case relayStep parses e s of None \<Rightarrow> None | Some s' \<Rightarrow> relayRun parses es s')"

interpretation relay: event_run "relayStep parses" "relayRun parses" for parses
  by unfold_locales auto

definition startRelay :: Relay where
  "startRelay = \<lparr>regs = [], links = [], sessions = [], sockets = [], hosting = [], endpoint = False, stopping = False\<rparr>"

subsection \<open>What an operation touches\<close>

text \<open>The three columns of the link table the statements below speak of.\<close>

definition ups :: "Relay \<Rightarrow> bool list" where "ups s = map transportOpen (regs s)"

definition carrieds :: "Relay \<Rightarrow> (nat \<times> nat) list list" where "carrieds s = map carried (regs s)"

definition hosteds :: "Relay \<Rightarrow> (nat \<times> nat) list list" where "hosteds s = map hosted (regs s)"

named_theorems relay_simps

lemma upd_simps [relay_simps, simp]:
  "sessions (updReg r f s) = sessions s" "links (updReg r f s) = links s" "length (regs (updReg r f s)) = length (regs s)"
  "regs (updSession k g s) = regs s" "links (updSession k g s) = links s"
  "sessions (updSession k g s) = (sessions s)[k := g (sessions s ! k)]"
  "regs (updSocket j h s) = regs s" "links (updSocket j h s) = links s" "sessions (updSocket j h s) = sessions s"
  by (simp_all add: updReg_def updSession_def updSocket_def)

lemma column_update [simp]:
  "ups (updSession k g s) = ups s" "carrieds (updSession k g s) = carrieds s" "hosteds (updSession k g s) = hosteds s"
  "ups (updSocket j h s) = ups s" "carrieds (updSocket j h s) = carrieds s" "hosteds (updSocket j h s) = hosteds s"
  by (simp_all add: ups_def carrieds_def hosteds_def)

lemma column_reg:
  "ups (updReg r f s) = (ups s)[r := transportOpen (f (regs s ! r))]"
  "carrieds (updReg r f s) = (carrieds s)[r := carried (f (regs s ! r))]"
  "hosteds (updReg r f s) = (hosteds s)[r := hosted (f (regs s ! r))]"
  by (simp_all add: ups_def carrieds_def hosteds_def updReg_def map_update)

lemma column_length [simp]: "length (ups s) = length (regs s)" "length (carrieds s) = length (regs s)" "length (hosteds s) = length (regs s)"
  by (simp_all add: ups_def carrieds_def hosteds_def)

lemma column_nth:
  assumes "r < length (regs s)"
  shows "ups s ! r = transportOpen (regs s ! r)" "carrieds s ! r = carried (regs s ! r)" "hosteds s ! r = hosted (regs s ! r)"
  using assms by (simp_all add: ups_def carrieds_def hosteds_def)

lemma column_self:
  "(ups s)[r := transportOpen (regs s ! r)] = ups s"
  "(carrieds s)[r := carried (regs s ! r)] = carrieds s"
  "(hosteds s)[r := hosted (regs s ! r)] = hosteds s"
  by (simp_all add: ups_def carrieds_def hosteds_def map_update [symmetric])

lemma send_simps [simp]:
  "sessions (sendOn r op i load s) = sessions s" "links (sendOn r op i load s) = links s"
  "ups (sendOn r op i load s) = ups s" "carrieds (sendOn r op i load s) = carrieds s" "hosteds (sendOn r op i load s) = hosteds s"
  by (simp_all add: sendOn_def column_reg column_self)

lemma sendIfOpen_simps [simp]:
  "sessions (sendIfOpen r op i load s) = sessions s" "links (sendIfOpen r op i load s) = links s"
  "ups (sendIfOpen r op i load s) = ups s" "carrieds (sendIfOpen r op i load s) = carrieds s" "hosteds (sendIfOpen r op i load s) = hosteds s"
  by (simp_all add: sendIfOpen_def)

lemma length_regs_ups: "length (regs s) = length (ups s)" by simp

text \<open>The effect of closing on the session itself, and on the tables.\<close>

definition closeSession :: "CarriedSession \<Rightarrow> CarriedSession" where
  "closeSession c = (if closed c then c else clientClosed (settled (c\<lparr>closed := True\<rparr>)))"

lemma sessions_close: "sessions (closeCarried k s) = (sessions s)[k := closeSession (sessions s ! k)]"
  by (cases "k < length (sessions s)") (auto simp: closeCarried_def Let_def closeSession_def list_update_beyond)

lemma close_simps [simp]:
  "links (closeCarried k s) = links s" "ups (closeCarried k s) = ups s" "hosteds (closeCarried k s) = hosteds s"
  by (simp_all add: closeCarried_def Let_def column_reg column_self)

lemma carrieds_close:
  "carrieds (closeCarried k s) =
     (if closed (sessions s ! k) then carrieds s
      else let r = creg (sessions s ! k) in (carrieds s)[r := mapDelete (cid (sessions s ! k)) (carried (regs s ! r))])"
  by (simp add: closeCarried_def Let_def column_reg)

text \<open>Queueing a write, as an effect on the session.\<close>

definition forwardSession :: "Job \<Rightarrow> CarriedSession \<Rightarrow> CarriedSession" where
  "forwardSession job c =
     (if closed c then c
      else if RELAY_MAX_BUFFERED_BYTES < pending c + jobBytes job
        then closeSession (c\<lparr>pending := pending c + jobBytes job\<rparr>)
        else c\<lparr>pending := pending c + jobBytes job, queue := queue c @ [job]\<rparr>)"

lemma sessions_forward: "sessions (forward k job s) = (sessions s)[k := forwardSession job (sessions s ! k)]"
  by (cases "k < length (sessions s)") (auto simp: forward_def Let_def forwardSession_def sessions_close list_update_beyond)

lemma forward_simps [simp]:
  "links (forward k job s) = links s" "ups (forward k job s) = ups s" "hosteds (forward k job s) = hosteds s"
  by (simp_all add: forward_def Let_def)

definition messageSession :: "Message \<Rightarrow> CarriedSession \<Rightarrow> CarriedSession" where
  "messageSession m c =
     (case client c of None \<Rightarrow> c\<lparr>inbox := inbox c @ [m]\<rparr> | Some w \<Rightarrow> forwardSession (ToClient m) c)"

lemma sessions_message: "sessions (messageToClient k m s) = (sessions s)[k := messageSession m (sessions s ! k)]"
  by (auto simp: messageToClient_def messageSession_def sessions_forward split: option.split)

lemma message_simps [simp]:
  "links (messageToClient k m s) = links s" "ups (messageToClient k m s) = ups s" "hosteds (messageToClient k m s) = hosteds s"
  by (simp_all add: messageToClient_def split: option.split)

lemma write_simps [simp]:
  "links (writeJob k job s) = links s" "ups (writeJob k job s) = ups s" "hosteds (writeJob k job s) = hosteds s"
  "carrieds (writeJob k job s) = carrieds s" "length (sessions (writeJob k job s)) = length (sessions s)"
  by (simp_all add: writeJob_def Let_def split: Job.split)

end
