(* ===== verification/Peer_Relay_Order.thy ===== *)
theory Peer_Relay_Order
  imports Peer_Relay
begin

text \<open>
  The order and the backlog of carried sessions: what each operation of \<open>Peer_Relay\<close> does to the
  two streams of a session, and that none of them loses or reorders a message of an open one.
\<close>

subsection \<open>Order and backlog of one session\<close>

definition got :: "CarriedSession \<Rightarrow> Message list" where
  "got c = (case client c of None \<Rightarrow> [] | Some w \<Rightarrow> received w)"

fun clientJobs :: "Job list \<Rightarrow> Message list" where
  "clientJobs [] = []"
| "clientJobs (ToClient m # q) = m # clientJobs q"
| "clientJobs (ToHolder m # q) = clientJobs q"

fun holderJobs :: "Job list \<Rightarrow> Message list" where
  "holderJobs [] = []"
| "holderJobs (ToClient m # q) = holderJobs q"
| "holderJobs (ToHolder m # q) = m # holderJobs q"

lemma jobs_append [simp]:
  "clientJobs (p @ q) = clientJobs p @ clientJobs q" "holderJobs (p @ q) = holderJobs p @ holderJobs q"
  by (induction p rule: clientJobs.induct) auto

definition clientUp :: "CarriedSession \<Rightarrow> bool" where
  "clientUp c \<longleftrightarrow> (case client c of None \<Rightarrow> True | Some w \<Rightarrow> clientOpen w)"

text \<open>
  What the two ends got is a prefix of what they were sent, in order; while a session is open
  nothing is missing, it is all waiting in the queue, the inbox or, in the middle of an operation,
  in \<open>rc\<close> and \<open>rh\<close>; and the backlog is what the queue holds, within its ceiling.
\<close>

definition sessionOk :: "bool \<Rightarrow> Message list \<Rightarrow> Message list \<Rightarrow> CarriedSession \<Rightarrow> bool" where
  "sessionOk up rc rh c \<longleftrightarrow>
     (closed c \<or> pending c = sum_list (map jobBytes (queue c)) \<and> pending c \<le> RELAY_MAX_BUFFERED_BYTES)
     \<and> prefix (got c) (fromHolder c) \<and> prefix (relayed c) (fromClient c)
     \<and> (\<not> closed c \<and> clientUp c \<longrightarrow> fromHolder c = got c @ clientJobs (queue c) @ inbox c @ rc)
     \<and> (\<not> closed c \<and> up \<longrightarrow> fromClient c = relayed c @ holderJobs (queue c) @ rh)
     \<and> (if client c = None then clientJobs (queue c) = [] else inbox c = [])"

lemmas session_defs = sessionOk_def got_def clientUp_def

lemma effect_ids [simp]:
  "creg (closeSession c) = creg c" "cid (closeSession c) = cid c"
  "creg (forwardSession job c) = creg c" "cid (forwardSession job c) = cid c"
  "creg (messageSession m c) = creg c" "cid (messageSession m c) = cid c"
  "creg (resolveOpening r c) = creg c" "creg (clientClosed c) = creg c" "creg (settled c) = creg c"
  by (simp_all add: closeSession_def clientClosed_def settled_def forwardSession_def messageSession_def
      resolveOpening_def split: option.split)

lemma closeSession_ok: "sessionOk up rc rh c \<Longrightarrow> sessionOk up' rc' rh' (closeSession c)"
  by (auto simp: session_defs closeSession_def clientClosed_def settled_def split: option.splits if_splits)

lemma forward_client_ok:
  assumes "sessionOk up (m # rc) rh c" "client c \<noteq> None"
  shows "sessionOk up rc rh (forwardSession (ToClient m) c)"
proof (cases "closed c \<or> RELAY_MAX_BUFFERED_BYTES < pending c + jobBytes (ToClient m)")
  case True
  have "sessionOk up (m # rc) rh c \<Longrightarrow> closed c \<Longrightarrow> sessionOk up rc rh c" by (simp add: sessionOk_def)
  moreover have "sessionOk up rc rh (closeSession (c\<lparr>pending := n\<rparr>))" for n
    using assms(1) by (auto simp: session_defs closeSession_def clientClosed_def settled_def split: option.splits if_splits)
  ultimately show ?thesis using True assms by (auto simp: forwardSession_def)
next
  case False
  then show ?thesis using assms by (auto simp: session_defs forwardSession_def split: option.splits)
qed

lemma forward_holder_ok:
  assumes "sessionOk up rc (m # rh) c"
  shows "sessionOk up rc rh (forwardSession (ToHolder m) c)"
proof (cases "closed c \<or> RELAY_MAX_BUFFERED_BYTES < pending c + jobBytes (ToHolder m)")
  case True
  have "sessionOk up rc (m # rh) c \<Longrightarrow> closed c \<Longrightarrow> sessionOk up rc rh c" by (simp add: sessionOk_def)
  moreover have "sessionOk up rc rh (closeSession (c\<lparr>pending := n\<rparr>))" for n
    using assms(1) by (auto simp: session_defs closeSession_def clientClosed_def settled_def split: option.splits if_splits)
  ultimately show ?thesis using True assms by (auto simp: forwardSession_def)
next
  case False
  then show ?thesis using assms by (auto simp: session_defs forwardSession_def split: option.splits)
qed

lemma message_ok: "sessionOk up (m # rc) rh c \<Longrightarrow> sessionOk up rc rh (messageSession m c)"
proof (cases "client c")
  case None
  then show "sessionOk up (m # rc) rh c \<Longrightarrow> ?thesis" by (auto simp: session_defs messageSession_def)
next
  case (Some w)
  then show "sessionOk up (m # rc) rh c \<Longrightarrow> ?thesis" by (simp add: messageSession_def forward_client_ok)
qed

subsection \<open>Order and backlog of every session\<close>

definition sessionsOk :: "Relay \<Rightarrow> bool" where
  "sessionsOk s \<longleftrightarrow> (\<forall>k < length (sessions s). creg (sessions s ! k) < length (ups s)
     \<and> sessionOk (ups s ! creg (sessions s ! k)) [] [] (sessions s ! k))"

lemma sessionsOk_upd:
  assumes "sessionsOk s" "sessions s' = (sessions s)[k := c]" "ups s' = ups s"
    and "k < length (sessions s) \<Longrightarrow> creg c = creg (sessions s ! k)"
    and "\<And>up. k < length (sessions s) \<Longrightarrow> creg (sessions s ! k) < length (regs s) \<Longrightarrow> up = ups s ! creg (sessions s ! k)
       \<Longrightarrow> sessionOk up [] [] (sessions s ! k) \<Longrightarrow> sessionOk up [] [] c"
  shows "sessionsOk s'"
  unfolding sessionsOk_def
proof (intro allI impI)
  fix n assume "n < length (sessions s')"
  then show "creg (sessions s' ! n) < length (ups s') \<and> sessionOk (ups s' ! creg (sessions s' ! n)) [] [] (sessions s' ! n)"
    using assms length_regs_ups [of s] by (cases "n = k") (auto simp: sessionsOk_def simp del: column_length)
qed

lemma sessionsOk_same: "sessionsOk s \<Longrightarrow> sessions s' = sessions s \<Longrightarrow> ups s' = ups s \<Longrightarrow> sessionsOk s'"
  by (simp add: sessionsOk_def del: column_length)

lemma close_sessionsOk: "sessionsOk s \<Longrightarrow> sessionsOk (closeCarried k s)"
  by (erule sessionsOk_upd [OF _ sessions_close]) (auto intro: closeSession_ok)

lemma toClient_sessionsOk: "sessionsOk s \<Longrightarrow> sessionsOk (toClient k f s)"
proof -
  assume ok: "sessionsOk s"
  have data: "sessionsOk (messageToClient k m (updSession k (\<lambda>c. c\<lparr>fromHolder := fromHolder c @ [m]\<rparr>) s))" for m
  proof (rule sessionsOk_upd [OF ok])
    show "sessions (messageToClient k m (updSession k (\<lambda>c. c\<lparr>fromHolder := fromHolder c @ [m]\<rparr>) s))
       = (sessions s)[k := messageSession m ((sessions s ! k)\<lparr>fromHolder := fromHolder (sessions s ! k) @ [m]\<rparr>)]"
      by (cases "k < length (sessions s)") (simp_all add: sessions_message list_update_beyond)
    fix up assume "sessionOk up [] [] (sessions s ! k)"
    then have "sessionOk up [m] [] ((sessions s ! k)\<lparr>fromHolder := fromHolder (sessions s ! k) @ [m]\<rparr>)"
      by (auto simp: session_defs split: option.splits)
    then show "sessionOk up [] [] (messageSession m ((sessions s ! k)\<lparr>fromHolder := fromHolder (sessions s ! k) @ [m]\<rparr>))"
      by (rule message_ok)
  qed simp_all
  have settles: "sessionsOk (updSession k (\<lambda>c. if settle c then resolveOpening r c else c) s)" for r
    by (rule sessionsOk_upd [OF ok upd_simps(6)]) (auto simp: resolveOpening_def session_defs split: option.splits if_splits)
  show "sessionsOk (toClient k f s)"
    using ok data settles by (cases "opcode f") (simp_all add: toClient_def close_sessionsOk)
qed

lemma toHolder_sessionsOk: "sessionsOk s \<Longrightarrow> sessionsOk (toHolder k m s)"
proof -
  assume ok: "sessionsOk s"
  let ?c = "(sessions s ! k)\<lparr>fromClient := fromClient (sessions s ! k) @ [m]\<rparr>"
  show "sessionsOk (toHolder k m s)"
  proof (rule sessionsOk_upd [OF ok])
    show "sessions (toHolder k m s) = (sessions s)[k := forwardSession (ToHolder m) ?c]"
      by (cases "k < length (sessions s)") (simp_all add: toHolder_def sessions_forward list_update_beyond)
    fix up assume "sessionOk up [] [] (sessions s ! k)"
    then have "sessionOk up [] [m] ?c" by (auto simp: session_defs split: option.splits)
    then show "sessionOk up [] [] (forwardSession (ToHolder m) ?c)" by (rule forward_holder_ok)
  qed (simp_all add: toHolder_def)
qed

lemma messages_ok: "sessionOk up ms rh c \<Longrightarrow> sessionOk up [] rh (foldl (\<lambda>c m. messageSession m c) c ms)"
  by (induction ms arbitrary: c) (auto intro: message_ok)

lemma messages_ids [simp]: "creg (foldl (\<lambda>c m. messageSession m c) c ms) = creg c"
  by (induction ms arbitrary: c) auto

lemma sessions_messages:
  "k < length (sessions s) \<Longrightarrow>
   sessions (foldl (\<lambda>t m. messageToClient k m t) s ms) = (sessions s)[k := foldl (\<lambda>c m. messageSession m c) (sessions s ! k) ms]
   \<and> ups (foldl (\<lambda>t m. messageToClient k m t) s ms) = ups s"
  by (induction ms arbitrary: s) (auto simp: sessions_message)

lemma attach_sessionsOk:
  assumes "sessionsOk s" "k < length (sessions s)" "client (sessions s ! k) = None"
  shows "sessionsOk (attach k s)"
proof (cases "closed (sessions s ! k)")
  case False
  let ?c = "(sessions s ! k)\<lparr>client := Some \<lparr>clientOpen = True, received = []\<rparr>, inbox := []\<rparr>"
  let ?ms = "inbox (sessions s ! k)"
  show ?thesis
  proof (rule sessionsOk_upd [OF assms(1)])
    show "sessions (attach k s) = (sessions s)[k := foldl (\<lambda>c m. messageSession m c) ?c ?ms]" "ups (attach k s) = ups s"
      using False assms(2) by (auto simp: attach_def Let_def sessions_messages)
    fix up assume "sessionOk up [] [] (sessions s ! k)"
    then have "sessionOk up ?ms [] ?c" using assms(3) by (auto simp: session_defs)
    then show "sessionOk up [] [] (foldl (\<lambda>c m. messageSession m c) ?c ?ms)" by (rule messages_ok)
  qed simp
qed (simp add: attach_def assms(1))

definition writeSession :: "bool \<Rightarrow> Job \<Rightarrow> CarriedSession \<Rightarrow> CarriedSession" where
  "writeSession up job c =
     (case job of
        ToClient m \<Rightarrow> c\<lparr>client := map_option (\<lambda>w. if clientOpen w then w\<lparr>received := received w @ [m]\<rparr> else w) (client c)\<rparr>
      | ToHolder m \<Rightarrow> if up then c\<lparr>relayed := relayed c @ [m]\<rparr> else c)"

lemma sessions_write:
  "sessions (writeJob k job s)
     = (sessions s)[k := writeSession (transportOpen (regs s ! creg (sessions s ! k))) job (sessions s ! k)]"
  by (auto simp: writeJob_def writeSession_def Let_def split: Job.split)

lemma write_ok:
  assumes "sessionOk up [] [] c" "queue c = job # rest" "\<not> closed c"
  shows "sessionOk up [] [] (let c' = writeSession up job (c\<lparr>queue := rest\<rparr>) in c'\<lparr>pending := pending c' - jobBytes job\<rparr>)"
proof (cases job)
  case (ToClient m)
  then obtain w where "client c = Some w" using assms by (cases "client c") (auto simp: session_defs)
  then show ?thesis using assms ToClient by (auto simp: session_defs writeSession_def Let_def)
next
  case (ToHolder m)
  then show ?thesis using assms by (auto simp: session_defs writeSession_def Let_def split: option.splits)
qed

lemma queueTurn_sessionsOk:
  assumes "sessionsOk s" "k < length (sessions s)" "queueTurn works k s = Some s'"
  shows "sessionsOk s'"
proof -
  let ?c = "sessions s ! k"
  obtain job rest where q: "queue ?c = job # rest" using assms(3) by (auto simp: queueTurn_def split: list.splits)
  consider "closed ?c" | "\<not> closed ?c" works | "\<not> closed ?c" "\<not> works" by blast
  then show ?thesis
  proof cases
    case 1
    let ?d = "?c\<lparr>queue := rest, pending := pending ?c - jobBytes job\<rparr>"
    show ?thesis
    proof (rule sessionsOk_upd [OF assms(1), where c = ?d])
      show "sessions s' = (sessions s)[k := ?d]" "ups s' = ups s"
        using assms(2,3) 1 q by (auto simp: queueTurn_def Let_def)
      fix up assume "sessionOk up [] [] ?c"
      then show "sessionOk up [] [] ?d" using 1 q by (cases job) (auto simp: session_defs split: option.splits if_splits)
    qed simp
  next
    case 2
    let ?up = "transportOpen (regs s ! creg ?c)"
    let ?e = "writeSession ?up job (?c\<lparr>queue := rest\<rparr>)"
    let ?d = "?e\<lparr>pending := pending ?e - jobBytes job\<rparr>"
    show ?thesis
    proof (rule sessionsOk_upd [OF assms(1), where c = ?d])
      show "sessions s' = (sessions s)[k := ?d]" "ups s' = ups s"
        using assms(2,3) 2 q by (auto simp: queueTurn_def Let_def sessions_write)
      show "creg ?d = creg ?c" by (simp add: writeSession_def split: Job.split)
      fix up assume "sessionOk up [] [] ?c" "up = ups s ! creg ?c" "creg ?c < length (regs s)"
      then show "sessionOk up [] [] ?d" using write_ok [of up ?c job rest] 2 q by (simp add: Let_def column_nth)
    qed
  next
    case 3
    let ?d = "closeSession (?c\<lparr>queue := rest\<rparr>)"
    show ?thesis
    proof (rule sessionsOk_upd [OF assms(1), where c = ?d])
      show "sessions s' = (sessions s)[k := ?d]" "ups s' = ups s"
        using assms(2,3) 3 q by (auto simp: queueTurn_def Let_def sessions_close)
      fix up assume "sessionOk up [] [] ?c"
      then show "sessionOk up [] [] ?d" using 3 q
        by (cases job) (auto simp: session_defs closeSession_def clientClosed_def settled_def split: option.splits if_splits)
    qed simp
  qed
qed

lemma hosting_simps [simp]:
  "sessions (socketSend j m s) = sessions s" "ups (socketSend j m s) = ups s" "links (socketSend j m s) = links s" "carrieds (socketSend j m s) = carrieds s"
  "sessions (socketClose j s) = sessions s" "ups (socketClose j s) = ups s" "links (socketClose j s) = links s" "carrieds (socketClose j s) = carrieds s"
  "sessions (socketDropped j s) = sessions s" "ups (socketDropped j s) = ups s" "links (socketDropped j s) = links s" "carrieds (socketDropped j s) = carrieds s"
  "sessions (socketDeliver j m s) = sessions s" "ups (socketDeliver j m s) = ups s" "links (socketDeliver j m s) = links s" "carrieds (socketDeliver j m s) = carrieds s"
  by (simp_all add: socketSend_def socketClose_def socketDropped_def socketDeliver_def Let_def column_reg column_self)

lemma store_simps [simp]:
  "ups (s\<lparr>sockets := x, hosting := y\<rparr>) = ups s" "carrieds (s\<lparr>sockets := x, hosting := y\<rparr>) = carrieds s"
  "hosteds (s\<lparr>sockets := x, hosting := y\<rparr>) = hosteds s"
  "ups (s\<lparr>sockets := x\<rparr>) = ups s" "carrieds (s\<lparr>sockets := x\<rparr>) = carrieds s" "hosteds (s\<lparr>sockets := x\<rparr>) = hosteds s"
  "ups (s\<lparr>hosting := y\<rparr>) = ups s" "carrieds (s\<lparr>hosting := y\<rparr>) = carrieds s" "hosteds (s\<lparr>hosting := y\<rparr>) = hosteds s"
  "ups (s\<lparr>links := z\<rparr>) = ups s" "carrieds (s\<lparr>links := z\<rparr>) = carrieds s" "hosteds (s\<lparr>links := z\<rparr>) = hosteds s"
  "ups (s\<lparr>sessions := v\<rparr>) = ups s" "carrieds (s\<lparr>sessions := v\<rparr>) = carrieds s" "hosteds (s\<lparr>sessions := v\<rparr>) = hosteds s"
  "ups (s\<lparr>stopping := b\<rparr>) = ups s" "carrieds (s\<lparr>stopping := b\<rparr>) = carrieds s" "hosteds (s\<lparr>stopping := b\<rparr>) = hosteds s"
  "ups (s\<lparr>endpoint := b\<rparr>) = ups s" "carrieds (s\<lparr>endpoint := b\<rparr>) = carrieds s" "hosteds (s\<lparr>endpoint := b\<rparr>) = hosteds s"
  by (simp_all add: ups_def carrieds_def hosteds_def)

lemma host_simps [simp]:
  "sessions (host parses r f s) = sessions s" "ups (host parses r f s) = ups s" "links (host parses r f s) = links s"
  "carrieds (host parses r f s) = carrieds s"
proof -
  have "ups (updReg r (\<lambda>reg. reg\<lparr>hosted := h reg\<rparr>) (s\<lparr>sockets := x, hosting := y\<rparr>)) = ups s"
    "carrieds (updReg r (\<lambda>reg. reg\<lparr>hosted := h reg\<rparr>) (s\<lparr>sockets := x, hosting := y\<rparr>)) = carrieds s" for h x y
    using column_self [of s r] by (simp_all add: column_reg)
  then show "sessions (host parses r f s) = sessions s" "ups (host parses r f s) = ups s" "links (host parses r f s) = links s"
    "carrieds (host parses r f s) = carrieds s"
    by (simp_all add: host_def refuse_def Let_def)
qed

lemma hostAnswered_simps:
  assumes "hostAnswered n admitted s = Some s'"
  shows "sessions s' = sessions s" "ups s' = ups s" "links s' = links s" "carrieds s' = carrieds s"
proof -
  have "ups (updReg r (\<lambda>reg. reg\<lparr>hosted := h reg\<rparr>) (s\<lparr>hosting := y\<rparr>)) = ups s"
    "carrieds (updReg r (\<lambda>reg. reg\<lparr>hosted := h reg\<rparr>) (s\<lparr>hosting := y\<rparr>)) = carrieds s" for r h y
    using column_self [of s r] by (simp_all add: column_reg)
  then show "sessions s' = sessions s" "ups s' = ups s" "links s' = links s" "carrieds s' = carrieds s"
    using assms by (auto simp: hostAnswered_def Let_def refuse_def split: if_splits prod.splits)
qed

lemma dispatch_sessionsOk: "sessionsOk s \<Longrightarrow> sessionsOk (dispatch parses r f s)"
  by (auto simp: dispatch_def Let_def column_reg column_self toClient_sessionsOk split: option.split intro: sessionsOk_same)

text \<open>A property every operation of a loop keeps is kept by the loop.\<close>

lemma foldl_keeps: "P s \<Longrightarrow> (\<And>x s. x \<in> set xs \<Longrightarrow> P s \<Longrightarrow> P (f s x)) \<Longrightarrow> P (foldl f s xs)"
  by (induction xs arbitrary: s) auto

lemma unregister_keeps:
  assumes "P s" "\<And>t. P t \<Longrightarrow> P (t\<lparr>links := removeAll r (links t)\<rparr>)" "\<And>k t. P t \<Longrightarrow> P (closeCarried k t)"
    "\<And>i j t. P t \<Longrightarrow> P (socketDropped j (updReg r (\<lambda>reg. reg\<lparr>hosted := mapDelete i (hosted reg)\<rparr>) t))"
  shows "P (unregister r s)"
proof -
  have closes: "P t \<Longrightarrow> P (foldl (\<lambda>t (i, k). closeCarried k t) t xs)" for t xs
    by (rule foldl_keeps [where P = P]) (auto intro: assms(3))
  have drops: "P t \<Longrightarrow> P (foldl (\<lambda>t (i, j). socketDropped j (updReg r (\<lambda>reg. reg\<lparr>hosted := mapDelete i (hosted reg)\<rparr>) t)) t xs)" for t xs
    by (rule foldl_keeps [where P = P]) (auto intro: assms(4))
  show ?thesis
    by (simp add: unregister_def Let_def assms(1)) (intro impI drops closes assms(2) assms(1))
qed

lemma unregister_sessionsOk: "sessionsOk s \<Longrightarrow> sessionsOk (unregister r s)"
proof (erule unregister_keeps)
  show "sessionsOk t \<Longrightarrow> sessionsOk (t\<lparr>links := removeAll r (links t)\<rparr>)" for t by (erule sessionsOk_same) simp_all
  show "sessionsOk t \<Longrightarrow> sessionsOk (socketDropped j (updReg r (\<lambda>reg. reg\<lparr>hosted := mapDelete i (hosted reg)\<rparr>) t))" for i j t
    by (erule sessionsOk_same) (simp_all add: column_reg column_self)
qed (rule close_sessionsOk)

lemma destroy_sessionsOk: "sessionsOk s \<Longrightarrow> sessionsOk (destroyRelay s)"
  unfolding destroyRelay_def by (rule foldl_keeps) (simp_all add: unregister_sessionsOk sessionsOk_same [of s])

lemma deliver_sessionsOk: "sessionsOk s \<Longrightarrow> sessionsOk (deliver parses r data s)"
proof -
  assume "sessionsOk s"
  then have read: "sessionsOk (updReg r (\<lambda>reg. reg\<lparr>reader := rd\<rparr>) s)" for rd
    by (rule sessionsOk_same) (simp_all add: column_reg column_self)
  have "sessionsOk (foldl (\<lambda>t f. dispatch parses r f t) (updReg r (\<lambda>reg. reg\<lparr>reader := rd\<rparr>) s) frames)" for rd frames
    by (rule foldl_keeps [where P = sessionsOk]) (simp_all add: read dispatch_sessionsOk)
  then show ?thesis using unregister_sessionsOk [OF read] by (simp add: deliver_def Let_def split: prod.split)
qed

lemma routeTo_bound: "routeTo holder s = Some r \<Longrightarrow> r \<in> set (links s)"
  by (auto simp: routeTo_def dest: find_Some_in)

definition linksOk :: "Relay \<Rightarrow> bool" where
  "linksOk s \<longleftrightarrow> distinct (links s) \<and> (\<forall>r\<in>set (links s). r < length (regs s))"

lemma reserveOpen_sessionsOk:
  assumes "sessionsOk s" "linksOk s" "reserveOpen carrying holder load s = Inr s'"
  shows "sessionsOk s'"
proof -
  obtain r where r: "routeTo holder s = Some r" using assms(3) by (auto simp: reserveOpen_def split: if_splits option.splits)
  have "sessions s' = sessions s @ [freshSession (nextId (regs s ! r)) r]" "ups s' = ups s"
    using assms(3) r column_self(1) [of s r] by (auto simp: reserveOpen_def Let_def column_reg split: if_splits)
  moreover have "r < length (ups s)" using assms(2) routeTo_bound [OF r] by (auto simp: linksOk_def)
  moreover have "sessionOk up [] [] (freshSession i r)" for up i
    by (auto simp: session_defs freshSession_def)
  ultimately show ?thesis using assms(1)
    by (auto simp: sessionsOk_def nth_append freshSession_def less_Suc_eq simp del: column_length)
qed

lemma reserveResume_sessionsOk:
  assumes "sessionsOk s" "k < length (sessions s)" "reserveResume k s = Some s'"
  shows "sessionsOk s'"
proof -
  let ?c = "sessions s ! k"
  obtain refusal where o: "opened ?c = Resolved refusal" using assms(3) by (auto simp: reserveResume_def split: Opening.splits)
  let ?e = "settled (?c\<lparr>opened := Answered refusal\<rparr>)"
  let ?d = "if refusal = None then ?e else ?e\<lparr>closed := True\<rparr>"
  show ?thesis
  proof (rule sessionsOk_upd [OF assms(1), where c = ?d])
    show "sessions s' = (sessions s)[k := ?d]" "ups s' = ups s"
      using assms(2,3) o by (auto simp: reserveResume_def Let_def column_reg column_self settled_def)
    fix up assume "sessionOk up [] [] ?c"
    then show "sessionOk up [] [] ?d" by (auto simp: session_defs settled_def split: option.splits if_splits)
  qed (simp add: settled_def)
qed

end
