(* ===== verification/Peer_Relay_Tables.thy ===== *)
theory Peer_Relay_Tables
  imports Peer_Relay_Order
begin

text \<open>
  The tables of \<open>Peer_Relay\<close>: every entry of a link is an open session of a registered link and
  every open session has one; the number of entries and of hosted sockets is bounded.
\<close>

subsection \<open>The tables\<close>

definition nexts :: "Relay \<Rightarrow> nat list" where "nexts s = map nextId (regs s)"

lemma nexts_simps [simp]:
  "length (nexts s) = length (regs s)" "nexts (updSession k g s) = nexts s" "nexts (updSocket j h s) = nexts s"
  "nexts (s\<lparr>sockets := x, hosting := y\<rparr>) = nexts s" "nexts (s\<lparr>sockets := x\<rparr>) = nexts s" "nexts (s\<lparr>hosting := y\<rparr>) = nexts s"
  "nexts (s\<lparr>links := z\<rparr>) = nexts s" "nexts (s\<lparr>sessions := v\<rparr>) = nexts s" "nexts (s\<lparr>stopping := b\<rparr>) = nexts s" "nexts (s\<lparr>endpoint := b\<rparr>) = nexts s"
  "nexts (updReg r f s) = (nexts s)[r := nextId (f (regs s ! r))]"
  by (simp_all add: nexts_def updReg_def updSession_def updSocket_def map_update)

lemma nexts_self [simp]: "(nexts s)[r := nextId (regs s ! r)] = nexts s"
  by (simp add: nexts_def map_update [symmetric])

lemma nexts_send [simp]: "nexts (sendOn r op i load s) = nexts s" "nexts (sendIfOpen r op i load s) = nexts s"
  by (simp_all add: sendOn_def sendIfOpen_def)

lemma nexts_close [simp]: "nexts (closeCarried k s) = nexts s"
  by (simp add: closeCarried_def Let_def)

lemma nexts_forward [simp]: "nexts (forward k job s) = nexts s"
  by (simp add: forward_def Let_def)

lemma nexts_ops [simp]:
  "nexts (messageToClient k m s) = nexts s" "nexts (writeJob k job s) = nexts s"
  "nexts (socketSend j m s) = nexts s" "nexts (socketClose j s) = nexts s" "nexts (socketDropped j s) = nexts s" "nexts (socketDeliver j m s) = nexts s"
  by (simp_all add: messageToClient_def writeJob_def socketSend_def socketClose_def socketDropped_def socketDeliver_def Let_def
      split: option.split Job.split)

text \<open>
  Every entry of a link's table is an open session of that link, which is registered (or, while it
  is being unregistered, in \<open>X\<close>), and every open session has its entry.
\<close>

definition tablesOk :: "nat set \<Rightarrow> Relay \<Rightarrow> bool" where
  "tablesOk X s \<longleftrightarrow>
     linksOk s
     \<and> (\<forall>r < length (regs s). \<forall>(i, k) \<in> set (carrieds s ! r).
          (r \<in> set (links s) \<or> r \<in> X) \<and> k < length (sessions s) \<and> creg (sessions s ! k) = r \<and> cid (sessions s ! k) = i
          \<and> \<not> closed (sessions s ! k))
     \<and> (\<forall>k < length (sessions s). creg (sessions s ! k) < length (regs s) \<and> cid (sessions s ! k) < nexts s ! creg (sessions s ! k)
          \<and> (\<not> closed (sessions s ! k) \<longrightarrow> (cid (sessions s ! k), k) \<in> set (carrieds s ! creg (sessions s ! k))))
     \<and> distinct (map (\<lambda>c. (creg c, cid c)) (sessions s))"

lemma tables_entry:
  assumes "tablesOk X s" "r < length (regs s)" "(i, k) \<in> set (carrieds s ! r)"
  shows "r \<in> set (links s) \<or> r \<in> X" "k < length (sessions s)" "creg (sessions s ! k) = r" "cid (sessions s ! k) = i" "\<not> closed (sessions s ! k)"
  using assms by (auto simp: tablesOk_def)

lemma tables_session:
  assumes "tablesOk X s" "k < length (sessions s)"
  shows "creg (sessions s ! k) < length (regs s)" "cid (sessions s ! k) < nexts s ! creg (sessions s ! k)"
    "\<not> closed (sessions s ! k) \<Longrightarrow> (cid (sessions s ! k), k) \<in> set (carrieds s ! creg (sessions s ! k))"
  using assms by (auto simp: tablesOk_def)

lemma tables_unique:
  assumes "tablesOk X s" "k < length (sessions s)" "n < length (sessions s)"
    "creg (sessions s ! k) = creg (sessions s ! n)" "cid (sessions s ! k) = cid (sessions s ! n)"
  shows "k = n"
  using assms nth_eq_iff_index_eq [of "map (\<lambda>c. (creg c, cid c)) (sessions s)" k n] by (auto simp: tablesOk_def)

text \<open>The invariant from another state, by what it is allowed to look at.\<close>

lemma tablesI:
  assumes "linksOk s"
    and "\<And>r i k. r < length (regs s) \<Longrightarrow> (i, k) \<in> set (carrieds s ! r) \<Longrightarrow>
       (r \<in> set (links s) \<or> r \<in> X) \<and> k < length (sessions s) \<and> creg (sessions s ! k) = r \<and> cid (sessions s ! k) = i \<and> \<not> closed (sessions s ! k)"
    and "\<And>k. k < length (sessions s) \<Longrightarrow> creg (sessions s ! k) < length (regs s) \<and> cid (sessions s ! k) < nexts s ! creg (sessions s ! k)"
    and "\<And>k. k < length (sessions s) \<Longrightarrow> \<not> closed (sessions s ! k) \<Longrightarrow> (cid (sessions s ! k), k) \<in> set (carrieds s ! creg (sessions s ! k))"
    and "distinct (map (\<lambda>c. (creg c, cid c)) (sessions s))"
  shows "tablesOk X s"
  using assms unfolding tablesOk_def by blast

lemma regs_length: "carrieds s' = carrieds s \<Longrightarrow> length (regs s') = length (regs s)"
  by (metis column_length(2))

lemma same_ids:
  assumes "sessions s' = (sessions s)[k := c]" "k < length (sessions s) \<Longrightarrow> creg c = creg (sessions s ! k) \<and> cid c = cid (sessions s ! k)"
  shows "map (\<lambda>c. (creg c, cid c)) (sessions s') = map (\<lambda>c. (creg c, cid c)) (sessions s)"
  using assms by (cases "k < length (sessions s)") (auto simp: map_update list_update_beyond intro!: nth_equalityI simp: nth_list_update)

lemma tables_quiet:
  assumes "tablesOk X s" "sessions s' = (sessions s)[k := c]" "links s' = links s" "carrieds s' = carrieds s" "nexts s' = nexts s"
    and "k < length (sessions s) \<Longrightarrow> creg c = creg (sessions s ! k) \<and> cid c = cid (sessions s ! k) \<and> closed c = closed (sessions s ! k)"
  shows "tablesOk X s'"
proof -
  have same: "creg (sessions s' ! n) = creg (sessions s ! n)" "cid (sessions s' ! n) = cid (sessions s ! n)" "closed (sessions s' ! n) = closed (sessions s ! n)"
    if "n < length (sessions s)" for n
    using assms(2,6) that by (cases "n = k"; simp)+
  have len: "length (sessions s') = length (sessions s)" by (simp add: assms(2))
  show ?thesis
  proof (rule tablesI)
    show "linksOk s'" using assms(1,3) regs_length [OF assms(4)] by (simp add: tablesOk_def linksOk_def)
    show "distinct (map (\<lambda>c. (creg c, cid c)) (sessions s'))" using assms(1) same_ids [OF assms(2)] assms(6) by (simp add: tablesOk_def)
  qed (use assms(1) regs_length [OF assms(4)] same len tables_entry [OF assms(1)] tables_session [OF assms(1)] in \<open>auto simp: assms(3-5)\<close>)
qed

lemma tables_same:
  assumes "tablesOk X s" "sessions s' = sessions s" "links s' = links s" "carrieds s' = carrieds s" "nexts s' = nexts s"
  shows "tablesOk X s'"
  using assms regs_length [OF assms(4)] by (simp add: tablesOk_def linksOk_def)

lemma mapDelete_simps [simp]: "set (mapDelete i m) = {(j, v) \<in> set m. j \<noteq> i}" "length (mapDelete i m) \<le> length m"
  by (auto simp: mapDelete_def)

text \<open>Taking one session out of its table and marking it closed.\<close>

lemma tables_remove:
  assumes ok: "tablesOk X s" and k: "k < length (sessions s)"
    and c: "closed c" "creg c = creg (sessions s ! k)" "cid c = cid (sessions s ! k)"
    and s': "sessions s' = (sessions s)[k := c]" "links s' = links s" "nexts s' = nexts s"
      "carrieds s' = (carrieds s)[creg c := mapDelete (cid c) (carrieds s ! creg c)]"
  shows "tablesOk X s'"
proof (rule tablesI)
  have len: "length (regs s') = length (regs s)" using s'(4) by (metis column_length(2) length_list_update)
  have r: "creg c < length (regs s)" using tables_session(1) [OF ok k] c by simp
  show "linksOk s'" using ok len by (simp add: tablesOk_def linksOk_def s')
  show "distinct (map (\<lambda>c. (creg c, cid c)) (sessions s'))" using ok same_ids [OF s'(1)] c by (simp add: tablesOk_def)
  fix n
  {
    fix r i
    assume a: "r < length (regs s')" "(i, n) \<in> set (carrieds s' ! r)"
    then have b: "r < length (regs s)" "(i, n) \<in> set (carrieds s ! r)" "r = creg c \<Longrightarrow> i \<noteq> cid c"
      using len by (cases "r = creg c"; auto simp: s')+
    have "n \<noteq> k" using tables_entry(3,4) [OF ok b(1,2)] b(3) c by auto
    then show "(r \<in> set (links s') \<or> r \<in> X) \<and> n < length (sessions s') \<and> creg (sessions s' ! n) = r \<and> cid (sessions s' ! n) = i
       \<and> \<not> closed (sessions s' ! n)"
      using tables_entry [OF ok b(1,2)] by (simp add: s')
  }
  assume n: "n < length (sessions s')"
  then have n': "n < length (sessions s)" by (simp add: s')
  show "creg (sessions s' ! n) < length (regs s') \<and> cid (sessions s' ! n) < nexts s' ! creg (sessions s' ! n)"
    using tables_session(1,2) [OF ok n'] tables_session(1,2) [OF ok k] c len by (cases "n = k") (simp_all add: s' k)
  assume "\<not> closed (sessions s' ! n)"
  then have "n \<noteq> k" using c k by (auto simp: s')
  then have o: "(cid (sessions s ! n), n) \<in> set (carrieds s ! creg (sessions s ! n))" "sessions s' ! n = sessions s ! n"
    using tables_session(3) [OF ok n'] \<open>\<not> closed (sessions s' ! n)\<close> by (auto simp: s')
  have "creg (sessions s ! n) = creg c \<Longrightarrow> cid (sessions s ! n) \<noteq> cid c"
    using tables_unique [OF ok n' k] \<open>n \<noteq> k\<close> c by auto
  then show "(cid (sessions s' ! n), n) \<in> set (carrieds s' ! creg (sessions s' ! n))"
    using o tables_session(1) [OF ok n'] r by (auto simp: s' nth_list_update)
qed

lemma close_tables:
  assumes "tablesOk X s" "k < length (sessions s)"
  shows "tablesOk X (closeCarried k s)"
proof (cases "closed (sessions s ! k)")
  case True
  then show ?thesis using assms by (simp add: closeCarried_def)
next
  case False
  let ?c = "closeSession (sessions s ! k)"
  have "closed ?c" by (simp add: closeSession_def clientClosed_def settled_def)
  moreover have "carrieds (closeCarried k s) = (carrieds s)[creg ?c := mapDelete (cid ?c) (carrieds s ! creg ?c)]"
    using False tables_session(1) [OF assms] by (simp add: carrieds_close Let_def column_nth)
  ultimately show ?thesis
    by (intro tables_remove [OF assms, where c = ?c]) (simp_all add: sessions_close)
qed

lemma forward_tables:
  assumes "tablesOk X s" "k < length (sessions s)"
  shows "tablesOk X (forward k job s)"
proof -
  let ?s = "updSession k (\<lambda>c. c\<lparr>pending := pending c + jobBytes job\<rparr>) s"
  have s: "tablesOk X ?s" by (rule tables_quiet [OF assms(1) upd_simps(6)]) simp_all
  have "tablesOk X (updSession k (\<lambda>c. c\<lparr>queue := queue c @ [job]\<rparr>) ?s)"
    by (rule tables_quiet [OF s upd_simps(6)]) simp_all
  then show ?thesis using assms s close_tables [OF s, of k] by (simp add: forward_def Let_def)
qed

lemma message_tables:
  assumes "tablesOk X s" "k < length (sessions s)"
  shows "tablesOk X (messageToClient k m s) \<and> k < length (sessions (messageToClient k m s))"
proof (cases "client (sessions s ! k)")
  case None
  have "tablesOk X (updSession k (\<lambda>c. c\<lparr>inbox := inbox c @ [m]\<rparr>) s)"
    by (rule tables_quiet [OF assms(1) upd_simps(6)]) simp_all
  then show ?thesis using None assms by (simp add: messageToClient_def)
next
  case (Some w)
  then show ?thesis using forward_tables [OF assms] assms by (simp add: messageToClient_def sessions_forward)
qed

lemma toClient_tables:
  assumes "tablesOk X s" "k < length (sessions s)"
  shows "tablesOk X (toClient k f s)"
proof -
  have "tablesOk X (updSession k (\<lambda>c. c\<lparr>fromHolder := fromHolder c @ [m]\<rparr>) s)" for m
    by (rule tables_quiet [OF assms(1) upd_simps(6)]) simp_all
  then have "tablesOk X (messageToClient k m (updSession k (\<lambda>c. c\<lparr>fromHolder := fromHolder c @ [m]\<rparr>) s))" for m
    using message_tables assms(2) by simp
  moreover have "tablesOk X (updSession k (\<lambda>c. if settle c then resolveOpening r c else c) s)" for r
    by (rule tables_quiet [OF assms(1) upd_simps(6)]) (simp_all add: resolveOpening_def)
  ultimately show ?thesis using assms close_tables [OF assms]
    by (cases "opcode f") (simp_all add: toClient_def)
qed

lemma toHolder_tables:
  assumes "tablesOk X s" "k < length (sessions s)"
  shows "tablesOk X (toHolder k m s)"
proof -
  have "tablesOk X (updSession k (\<lambda>c. c\<lparr>fromClient := fromClient c @ [m]\<rparr>) s)"
    by (rule tables_quiet [OF assms(1) upd_simps(6)]) simp_all
  then show ?thesis unfolding toHolder_def using assms(2) by (intro forward_tables) simp_all
qed

lemma attach_tables:
  assumes "tablesOk X s" "k < length (sessions s)"
  shows "tablesOk X (attach k s)"
proof -
  have "tablesOk X (updSession k (\<lambda>c. c\<lparr>client := v, inbox := []\<rparr>) s)" for v
    by (rule tables_quiet [OF assms(1) upd_simps(6)]) simp_all
  then have "tablesOk X (foldl (\<lambda>t m. messageToClient k m t) (updSession k (\<lambda>c. c\<lparr>client := v, inbox := []\<rparr>) s) ms)
     \<and> k < length (sessions (foldl (\<lambda>t m. messageToClient k m t) (updSession k (\<lambda>c. c\<lparr>client := v, inbox := []\<rparr>) s) ms))" for v ms
    using assms(2)
    by (intro foldl_keeps [where P = "\<lambda>t. tablesOk X t \<and> k < length (sessions t)"]) (auto simp: message_tables)
  then show ?thesis using assms(1) by (simp add: attach_def Let_def)
qed

lemma queueTurn_tables:
  assumes "tablesOk X s" "k < length (sessions s)" "queueTurn works k s = Some s'"
  shows "tablesOk X s'"
proof -
  obtain job rest where q: "queue (sessions s ! k) = job # rest" using assms(3) by (auto simp: queueTurn_def split: list.splits)
  let ?s = "updSession k (\<lambda>c. c\<lparr>queue := rest\<rparr>) s" and ?paid = "updSession k (\<lambda>c. c\<lparr>pending := pending c - jobBytes job\<rparr>)"
  have s: "tablesOk X ?s" by (rule tables_quiet [OF assms(1) upd_simps(6)]) simp_all
  have w: "tablesOk X (writeJob k job ?s)"
    by (rule tables_quiet [OF s sessions_write]) (auto simp: writeSession_def split: Job.split)
  have paid: "tablesOk X t \<Longrightarrow> tablesOk X (?paid t)" for t
    by (erule tables_quiet [OF _ upd_simps(6)]) simp_all
  have "s' = (if closed (sessions s ! k) then ?paid ?s else if works then ?paid (writeJob k job ?s) else closeCarried k ?s)"
    using assms(3) q by (simp add: queueTurn_def Let_def)
  then show ?thesis using paid [OF s] paid [OF w] close_tables [OF s, of k] assms(2) by simp
qed

lemma closeAll_tables:
  assumes "tablesOk {r} s" "r < length (regs s)" "set (carrieds s ! r) \<subseteq> set es" "\<forall>(i, k)\<in>set es. k < length (sessions s)"
  shows "tablesOk {r} (foldl (\<lambda>t (i, k). closeCarried k t) s es) \<and> carrieds (foldl (\<lambda>t (i, k). closeCarried k t) s es) ! r = []"
  using assms
proof (induction es arbitrary: s)
  case (Cons e es)
  obtain i k where e: "e = (i, k)" by (cases e)
  let ?s = "closeCarried k s"
  have k: "k < length (sessions s)" using Cons.prems(4) by (simp add: e)
  have t: "tablesOk {r} ?s" by (rule close_tables [OF Cons.prems(1) k])
  have len: "length (regs ?s) = length (regs s)" by (metis close_simps(2) length_regs_ups)
  have "(j, n) \<in> set es" if "(j, n) \<in> set (carrieds ?s ! r)" for j n
  proof -
    have open_n: "\<not> closed (sessions ?s ! n)" using tables_entry(5) [OF t] that Cons.prems(2) len by simp
    have closed_k: "closed (sessions ?s ! k)" using k by (simp add: sessions_close closeSession_def clientClosed_def settled_def)
    have "set (carrieds ?s ! r) \<subseteq> set (carrieds s ! r)"
      using Cons.prems(2) tables_session(1) [OF Cons.prems(1) k]
      by (auto simp: carrieds_close Let_def nth_list_update column_nth split: if_splits)
    then have "(j, n) \<in> set (e # es)" using that Cons.prems(3) by blast
    then show ?thesis using open_n closed_k by (auto simp: e)
  qed
  then have "set (carrieds ?s ! r) \<subseteq> set es" by (auto intro: subrelI)
  moreover have "\<forall>(i, k)\<in>set es. k < length (sessions ?s)" using Cons.prems(4) by (auto simp: sessions_close)
  ultimately show ?case using Cons.IH [OF t] Cons.prems(2) len by (simp add: e)
qed auto

lemma hosted_update_same:
  "carrieds (updReg r (\<lambda>reg. reg\<lparr>hosted := h reg\<rparr>) t) = carrieds t" "ups (updReg r (\<lambda>reg. reg\<lparr>hosted := h reg\<rparr>) t) = ups t"
  by (simp_all add: column_reg column_self)

lemma unregister_tables:
  assumes "tablesOk {} s"
  shows "tablesOk {} (unregister r s)"
proof (cases "r \<in> set (links s)")
  case True
  let ?s = "s\<lparr>links := removeAll r (links s)\<rparr>"
  let ?closed = "foldl (\<lambda>t (i, k). closeCarried k t) ?s (carried (regs ?s ! r))"
  have r: "r < length (regs s)" using assms True by (auto simp: tablesOk_def linksOk_def)
  have "tablesOk {r} ?s"
  proof (rule tablesI)
    show "linksOk ?s" using assms by (auto simp: tablesOk_def linksOk_def distinct_removeAll)
    show "distinct (map (\<lambda>c. (creg c, cid c)) (sessions ?s))" using assms by (simp add: tablesOk_def)
  qed (use tables_entry [OF assms] tables_session [OF assms] in auto)
  moreover have "set (carrieds ?s ! r) \<subseteq> set (carried (regs ?s ! r))" using r by (simp add: column_nth)
  moreover have "\<forall>(i, k)\<in>set (carried (regs ?s ! r)). k < length (sessions ?s)"
    using tables_entry(2) [OF assms r] r by (auto simp: column_nth)
  ultimately have t: "tablesOk {r} ?closed" "carrieds ?closed ! r = []" using closeAll_tables [of r ?s] r by auto
  have "tablesOk {} ?closed"
  proof (rule tablesI)
    fix q i k assume a: "q < length (regs ?closed)" "(i, k) \<in> set (carrieds ?closed ! q)"
    then have "q \<noteq> r" using t(2) by auto
    then show "(q \<in> set (links ?closed) \<or> q \<in> {}) \<and> k < length (sessions ?closed) \<and> creg (sessions ?closed ! k) = q
       \<and> cid (sessions ?closed ! k) = i \<and> \<not> closed (sessions ?closed ! k)"
      using tables_entry [OF t(1) a] by simp
  next
    show "linksOk ?closed" "distinct (map (\<lambda>c. (creg c, cid c)) (sessions ?closed))" using t(1) by (auto simp: tablesOk_def)
  qed (use tables_session [OF t(1)] in auto)
  then have "tablesOk {} (foldl (\<lambda>t (i, j). socketDropped j (updReg r (\<lambda>reg. reg\<lparr>hosted := mapDelete i (hosted reg)\<rparr>) t))
      ?closed (hosted (regs ?closed ! r)))"
    by (rule foldl_keeps) (auto intro: tables_same simp: hosted_update_same)
  then show ?thesis using True by (simp add: unregister_def Let_def)
qed (simp add: unregister_def assms)

lemma destroy_tables: "tablesOk {} s \<Longrightarrow> tablesOk {} (destroyRelay s)"
  unfolding destroyRelay_def
  by (rule foldl_keeps [where P = "tablesOk {}"]) (simp_all add: unregister_tables tables_same [of "{}" s])

lemma nexts_host [simp]: "nexts (host parses r f s) = nexts s"
proof -
  have "nexts (updReg r (\<lambda>reg. reg\<lparr>hosted := h reg\<rparr>) (s\<lparr>sockets := x, hosting := y\<rparr>)) = nexts s" for h x y
    using nexts_self [of s r] by simp
  then show ?thesis by (simp add: host_def refuse_def Let_def)
qed

lemma dispatch_tables:
  assumes "tablesOk {} s" "r < length (regs s)"
  shows "tablesOk {} (dispatch parses r f s)"
proof (cases "opcode f = OPEN")
  case True
  have "tablesOk {} (host parses r f s)" by (rule tables_same [OF assms(1)]) simp_all
  then show ?thesis using True by (simp add: dispatch_def)
next
  case False
  let ?i = "unat (session f)"
  show ?thesis
  proof (cases "map_of (carried (regs s ! r)) ?i")
    case (Some k)
    then have "(?i, k) \<in> set (carrieds s ! r)" using assms(2) by (auto simp: column_nth dest: map_of_SomeD)
    then have "k < length (sessions s)" by (rule tables_entry(2) [OF assms])
    then show ?thesis using False Some toClient_tables [OF assms(1)] by (simp add: dispatch_def Let_def)
  next
    case None
    have "tablesOk {} (socketDropped j (updReg r (\<lambda>reg. reg\<lparr>hosted := mapDelete ?i (hosted reg)\<rparr>) s))" for j
      by (rule tables_same [OF assms(1)]) (simp_all add: hosted_update_same)
    moreover have "tablesOk {} (socketDeliver j m s)" for j m by (rule tables_same [OF assms(1)]) simp_all
    ultimately show ?thesis using assms(1) False None by (simp add: dispatch_def Let_def split: option.split)
  qed
qed

lemma regs_dispatch: "length (regs (dispatch parses r f s)) = length (regs s)"
proof -
  have "ups (toClient k f s) = ups s" for k by (cases "opcode f") (simp_all add: toClient_def)
  then have "ups (dispatch parses r f s) = ups s"
    by (simp add: dispatch_def Let_def hosted_update_same split: option.split)
  then show ?thesis by (metis length_regs_ups)
qed

lemma deliver_tables:
  assumes "tablesOk {} s" "r < length (regs s)"
  shows "tablesOk {} (deliver parses r data s)"
proof -
  have read: "tablesOk {} (updReg r (\<lambda>reg. reg\<lparr>reader := rd\<rparr>) s)" for rd
    by (rule tables_same [OF assms(1)]) (simp_all add: column_reg column_self)
  have "tablesOk {} (foldl (\<lambda>t f. dispatch parses r f t) (updReg r (\<lambda>reg. reg\<lparr>reader := rd\<rparr>) s) frames)
     \<and> r < length (regs (foldl (\<lambda>t f. dispatch parses r f t) (updReg r (\<lambda>reg. reg\<lparr>reader := rd\<rparr>) s) frames))" for rd frames
    by (rule foldl_keeps [where P = "\<lambda>t. tablesOk {} t \<and> r < length (regs t)"])
       (simp_all add: read assms(2) dispatch_tables regs_dispatch)
  then show ?thesis using unregister_tables [OF read] by (simp add: deliver_def Let_def split: prod.split)
qed

lemma reserveOpen_tables:
  assumes "tablesOk {} s" "reserveOpen carrying holder load s = Inr s'"
  shows "tablesOk {} s'"
proof -
  obtain r where r: "routeTo holder s = Some r" using assms(2) by (auto simp: reserveOpen_def split: if_splits option.splits)
  let ?i = "nextId (regs s ! r)" and ?k = "length (sessions s)"
  have rl: "r \<in> set (links s)" "r < length (regs s)"
    using routeTo_bound [OF r] assms(1) by (auto simp: tablesOk_def linksOk_def)
  have next_r: "nexts s ! r = ?i" using rl by (simp add: nexts_def)
  have fresh: "(creg (sessions s ! k), cid (sessions s ! k)) \<noteq> (r, ?i)" if "k < length (sessions s)" for k
    using tables_session(2) [OF assms(1) that] next_r by auto
  have new_key: "?i \<notin> fst ` set (carrieds s ! r)"
  proof
    assume "?i \<in> fst ` set (carrieds s ! r)"
    then obtain k where k: "(?i, k) \<in> set (carrieds s ! r)" by auto
    show False using fresh [OF tables_entry(2) [OF assms(1) rl(2) k]] tables_entry(3,4) [OF assms(1) rl(2) k] by simp
  qed
  have s': "sessions s' = sessions s @ [freshSession ?i r]" "links s' = links s" "nexts s' = (nexts s)[r := ?i + 2]"
    "carrieds s' = (carrieds s)[r := carrieds s ! r @ [(?i, ?k)]]"
    using assms(2) r new_key rl(2) by (auto simp: reserveOpen_def Let_def column_reg mapSet_def column_nth split: if_splits)
  have len: "length (regs s') = length (regs s)" using s'(4) by (metis column_length(2) length_list_update)
  have old: "sessions s' ! k = sessions s ! k" if "k < length (sessions s)" for k using that by (simp add: s' nth_append)
  show ?thesis
  proof (rule tablesI)
    show "linksOk s'" using assms(1) len by (simp add: tablesOk_def linksOk_def s')
    have "distinct (map (\<lambda>c. (creg c, cid c)) (sessions s))" using assms(1) by (simp add: tablesOk_def)
    then show "distinct (map (\<lambda>c. (creg c, cid c)) (sessions s'))"
      using fresh by (auto simp: s' freshSession_def in_set_conv_nth) blast
    fix k
    {
      fix q i assume a: "q < length (regs s')" "(i, k) \<in> set (carrieds s' ! q)"
      then consider "(i, k) \<in> set (carrieds s ! q)" "q < length (regs s)" | "q = r" "i = ?i" "k = ?k"
        using len by (cases "q = r") (auto simp: s')
      then show "(q \<in> set (links s') \<or> q \<in> {}) \<and> k < length (sessions s') \<and> creg (sessions s' ! k) = q \<and> cid (sessions s' ! k) = i
         \<and> \<not> closed (sessions s' ! k)"
      proof cases
        case 1
        then show ?thesis using tables_entry [OF assms(1) 1(2,1)] old by (simp add: s')
      next
        case 2
        then show ?thesis using rl by (simp add: s' freshSession_def)
      qed
    }
    assume "k < length (sessions s')"
    then consider "k < length (sessions s)" | "k = ?k" by (auto simp: s' less_Suc_eq)
    then show "creg (sessions s' ! k) < length (regs s') \<and> cid (sessions s' ! k) < nexts s' ! creg (sessions s' ! k)"
    proof cases
      case 1
      then show ?thesis using tables_session(1,2) [OF assms(1) 1] next_r len rl
        by (cases "creg (sessions s ! k) = r") (auto simp: old s'(3))
    qed (use rl len in \<open>auto simp: s' freshSession_def\<close>)
    assume "\<not> closed (sessions s' ! k)"
    with \<open>k < length (sessions s')\<close> show "(cid (sessions s' ! k), k) \<in> set (carrieds s' ! creg (sessions s' ! k))"
      using tables_session(1,3) [OF assms(1), of k] rl
      by (cases "k = ?k") (auto simp: s' freshSession_def nth_append nth_list_update)
  qed
qed

lemma reserveResume_tables:
  assumes "tablesOk {} s" "k < length (sessions s)" "reserveResume k s = Some s'"
  shows "tablesOk {} s'"
proof -
  let ?c = "sessions s ! k"
  obtain refusal where o: "opened ?c = Resolved refusal" using assms(3) by (auto simp: reserveResume_def split: Opening.splits)
  let ?e = "settled (?c\<lparr>opened := Answered refusal\<rparr>)"
  show ?thesis
  proof (cases refusal)
    case None
    show ?thesis
      by (rule tables_quiet [OF assms(1), where k = k and c = ?e])
         (use assms(2,3) o None in \<open>auto simp: reserveResume_def Let_def settled_def\<close>)
  next
    case (Some why)
    show ?thesis
      by (rule tables_remove [OF assms(1,2), where c = "?e\<lparr>closed := True\<rparr>"])
         (use assms(2,3) o Some tables_session(1) [OF assms(1,2)] in
          \<open>auto simp: reserveResume_def Let_def settled_def column_reg column_nth\<close>)
  qed
qed

lemma register_tables: "tablesOk {} s \<Longrightarrow> tablesOk {} (register peer out s)"
proof -
  assume ok: "tablesOk {} s"
  have cols: "carrieds (register peer out s) = carrieds s @ [[]]" "nexts (register peer out s) = nexts s @ [if out then 2 else 1]"
    by (simp_all add: register_def carrieds_def nexts_def freshRegistration_def)
  have reg: "length (regs (register peer out s)) = Suc (length (regs s))" "sessions (register peer out s) = sessions s"
    "links (register peer out s) = links s @ [length (regs s)]"
    by (simp_all add: register_def)
  show ?thesis
  proof (rule tablesI)
    fix q i k assume a: "q < length (regs (register peer out s))" "(i, k) \<in> set (carrieds (register peer out s) ! q)"
    then have "q < length (regs s)" "(i, k) \<in> set (carrieds s ! q)"
      by (auto simp: cols nth_append reg less_Suc_eq split: if_splits)
    from tables_entry [OF ok this] show "(q \<in> set (links (register peer out s)) \<or> q \<in> {}) \<and> k < length (sessions (register peer out s))
       \<and> creg (sessions (register peer out s) ! k) = q \<and> cid (sessions (register peer out s) ! k) = i \<and> \<not> closed (sessions (register peer out s) ! k)"
      by (simp add: reg)
  next
    show "linksOk (register peer out s)" "distinct (map (\<lambda>c. (creg c, cid c)) (sessions (register peer out s)))"
      using ok by (auto simp: tablesOk_def linksOk_def register_def less_Suc_eq)
  qed (use tables_session [OF ok] in \<open>auto simp: cols nth_append reg less_Suc_eq\<close>)
qed

lemma register_sessionsOk: "sessionsOk s \<Longrightarrow> sessionsOk (register peer out s)"
  by (auto simp: sessionsOk_def register_def ups_def nth_append)

lemma transportDown_sessionsOk: "sessionsOk s \<Longrightarrow> sessionsOk (updReg r (\<lambda>reg. reg\<lparr>transportOpen := False\<rparr>) s)"
  unfolding sessionsOk_def
proof (intro allI impI)
  fix k assume ok: "\<forall>k < length (sessions s). creg (sessions s ! k) < length (ups s) \<and> sessionOk (ups s ! creg (sessions s ! k)) [] [] (sessions s ! k)"
    and "k < length (sessions (updReg r (\<lambda>reg. reg\<lparr>transportOpen := False\<rparr>) s))"
  then have k: "creg (sessions s ! k) < length (ups s)" "sessionOk (ups s ! creg (sessions s ! k)) [] [] (sessions s ! k)" by auto
  then have "sessionOk False [] [] (sessions s ! k)" by (auto simp: sessionOk_def)
  then show "creg (sessions (updReg r (\<lambda>reg. reg\<lparr>transportOpen := False\<rparr>) s) ! k) < length (ups (updReg r (\<lambda>reg. reg\<lparr>transportOpen := False\<rparr>) s))
     \<and> sessionOk (ups (updReg r (\<lambda>reg. reg\<lparr>transportOpen := False\<rparr>) s) ! creg (sessions (updReg r (\<lambda>reg. reg\<lparr>transportOpen := False\<rparr>) s) ! k)) [] []
         (sessions (updReg r (\<lambda>reg. reg\<lparr>transportOpen := False\<rparr>) s) ! k)"
    using k by (cases "creg (sessions s ! k) = r") (auto simp: column_reg)
qed

subsection \<open>Capacity\<close>

definition boundsOk :: "Relay \<Rightarrow> bool" where
  "boundsOk s \<longleftrightarrow> linksOk s \<and> sum_list (map (\<lambda>r. length (carrieds s ! r)) (links s)) \<le> RELAY_MAX_SESSIONS
     \<and> list_all (\<lambda>h. length h \<le> RELAY_MAX_SESSIONS) (hosteds s)"

lemma carriedCount_column: "linksOk s \<Longrightarrow> carriedCount s = sum_list (map (\<lambda>r. length (carrieds s ! r)) (links s))"
  unfolding carriedCount_def linksOk_def by (intro arg_cong [where f = sum_list]) (auto simp: column_nth)

lemma bounds_shrink:
  assumes "boundsOk s" "links s' = links s" "length (regs s') = length (regs s)" "hosteds s' = hosteds s"
    "\<And>r. r < length (regs s) \<Longrightarrow> length (carrieds s' ! r) \<le> length (carrieds s ! r)"
  shows "boundsOk s'"
proof -
  have "sum_list (map (\<lambda>r. length (carrieds s' ! r)) (links s)) \<le> sum_list (map (\<lambda>r. length (carrieds s ! r)) (links s))"
    using assms by (intro sum_list_mono) (auto simp: boundsOk_def linksOk_def)
  then show ?thesis using assms by (simp add: boundsOk_def linksOk_def)
qed

lemma bounds_same:
  assumes "boundsOk s" "links s' = links s" "carrieds s' = carrieds s" "hosteds s' = hosteds s"
  shows "boundsOk s'"
  using assms regs_length [OF assms(3)] by (simp add: boundsOk_def linksOk_def)

lemma bounds_hosted:
  assumes "boundsOk s" "links s' = links s" "carrieds s' = carrieds s" "hosteds s' = (hosteds s)[r := h]" "length h \<le> RELAY_MAX_SESSIONS"
  shows "boundsOk s'"
  using assms regs_length [OF assms(3)] set_update_subset_insert [of "hosteds s" r h]
  by (auto simp: boundsOk_def linksOk_def list_all_iff)

lemma close_bounds: "boundsOk s \<Longrightarrow> boundsOk (closeCarried k s)"
proof (erule bounds_shrink)
  show len: "length (regs (closeCarried k s)) = length (regs s)" by (metis close_simps(2) length_regs_ups)
  fix r assume "r < length (regs s)"
  then show "length (carrieds (closeCarried k s) ! r) \<le> length (carrieds s ! r)"
    by (cases "creg (sessions s ! k) = r") (auto simp: carrieds_close Let_def column_nth)
qed simp_all

lemma forward_bounds: "boundsOk s \<Longrightarrow> boundsOk (forward k job s)"
proof -
  assume ok: "boundsOk s"
  have s: "boundsOk (updSession k g s)" for g by (rule bounds_same [OF ok]) simp_all
  have t: "boundsOk (updSession k h (updSession k g s))" for g h by (rule bounds_same [OF s]) simp_all
  show ?thesis using ok t close_bounds [OF s] by (simp add: forward_def Let_def)
qed

lemma message_bounds: "boundsOk s \<Longrightarrow> boundsOk (messageToClient k m s)"
  using bounds_same [of s "updSession k g s" for g] by (auto simp: messageToClient_def forward_bounds split: option.split)

lemma toClient_bounds: "boundsOk s \<Longrightarrow> boundsOk (toClient k f s)"
proof -
  assume ok: "boundsOk s"
  have s: "boundsOk (updSession k g s)" for g by (rule bounds_same [OF ok]) simp_all
  show ?thesis using ok s close_bounds message_bounds [OF s] by (cases "opcode f") (simp_all add: toClient_def)
qed

lemma attach_bounds: "boundsOk s \<Longrightarrow> boundsOk (attach k s)"
proof -
  assume ok: "boundsOk s"
  have "boundsOk (foldl (\<lambda>t m. messageToClient k m t) (updSession k g s) ms)" for g ms
    by (rule foldl_keeps [where P = boundsOk]) (simp_all add: message_bounds bounds_same [OF ok])
  then show ?thesis using ok by (simp add: attach_def Let_def)
qed

lemma queueTurn_bounds: "boundsOk s \<Longrightarrow> queueTurn works k s = Some s' \<Longrightarrow> boundsOk s'"
proof -
  assume ok: "boundsOk s" and q: "queueTurn works k s = Some s'"
  have s: "boundsOk (updSession k g s)" for g by (rule bounds_same [OF ok]) simp_all
  have "boundsOk (updSession k h (updSession k g s))" "boundsOk (updSession k h (writeJob k job (updSession k g s)))" for g h job
    by (rule bounds_same [OF ok]; simp)+
  then show ?thesis using q close_bounds [OF s] by (auto simp: queueTurn_def Let_def split: list.splits if_splits)
qed

lemma hosted_bound: "boundsOk s \<Longrightarrow> r < length (regs s) \<Longrightarrow> length (hosted (regs s ! r)) \<le> RELAY_MAX_SESSIONS"
  by (auto simp: boundsOk_def list_all_length column_nth)

lemma unhost_bounds:
  assumes "boundsOk s"
  shows "boundsOk (updReg r (\<lambda>reg. reg\<lparr>hosted := mapDelete i (hosted reg)\<rparr>) s)"
proof (cases "r < length (regs s)")
  case True
  have "length (mapDelete i (hosted (regs s ! r))) \<le> RELAY_MAX_SESSIONS"
    using hosted_bound [OF assms True] by (rule order_trans [OF mapDelete_simps(2)])
  then show ?thesis by (intro bounds_hosted [OF assms]) (simp_all add: column_reg column_self)
next
  case False
  have "updReg r f s = s" for f using False by (simp add: updReg_def list_update_beyond)
  then show ?thesis using assms by simp
qed

lemma socketDropped_bounds: "boundsOk s \<Longrightarrow> boundsOk (socketDropped j s)"
  by (erule bounds_same) (simp_all add: socketDropped_def)

lemma socketClose_bounds: "boundsOk s \<Longrightarrow> boundsOk (socketClose j s)"
proof -
  assume ok: "boundsOk s"
  let ?i = "sockId (sockets s ! j)" and ?r = "sockReg (sockets s ! j)"
  have "boundsOk (updSocket j f s)" for f by (rule bounds_same [OF ok]) simp_all
  then have "boundsOk (updReg ?r (\<lambda>reg. reg\<lparr>hosted := mapDelete ?i (hosted reg)\<rparr>) (updSocket j f s))" for f by (rule unhost_bounds)
  then have "boundsOk (updSocket j g (sendIfOpen ?r CLOSE ?i [] (updReg ?r (\<lambda>reg. reg\<lparr>hosted := mapDelete ?i (hosted reg)\<rparr>) (updSocket j f s))))" for f g
    by (rule bounds_same) simp_all
  then show ?thesis using ok by (simp add: socketClose_def Let_def)
qed

lemma mapSet_length: "length (mapSet i v m) \<le> Suc (length m)"
  by (simp add: mapSet_def)

lemma host_bounds:
  assumes "boundsOk s" "r < length (regs s)"
  shows "boundsOk (host parses r f s)"
proof -
  have refused: "boundsOk (refuse r i why s)" for i why
    by (rule bounds_same [OF assms(1)]) (simp_all add: refuse_def)
  have "boundsOk (updReg r (\<lambda>reg. reg\<lparr>hosted := mapSet i j (hosted reg)\<rparr>) (s\<lparr>sockets := x, hosting := y\<rparr>))"
    if "\<not> RELAY_MAX_SESSIONS \<le> length (hosted (regs s ! r))" for i j x y
    by (rule bounds_hosted [OF assms(1), where r = r and h = "mapSet i j (hosted (regs s ! r))"])
       (use that mapSet_length [of i j "hosted (regs s ! r)"] column_self(2) [of s r] in \<open>auto simp: column_reg\<close>)
  then show ?thesis using refused by (simp add: host_def Let_def)
qed

lemma hostAnswered_bounds: "boundsOk s \<Longrightarrow> hostAnswered n admitted s = Some s' \<Longrightarrow> boundsOk s'"
proof -
  assume ok: "boundsOk s" and h: "hostAnswered n admitted s = Some s'"
  have s: "boundsOk (s\<lparr>hosting := y\<rparr>)" for y by (rule bounds_same [OF ok]) simp_all
  have "boundsOk (sendOn r op i load (s\<lparr>hosting := y\<rparr>))" for r op i load y
    by (rule bounds_same [OF s]) simp_all
  moreover have "boundsOk (refuse r i why (updReg r (\<lambda>reg. reg\<lparr>hosted := mapDelete i (hosted reg)\<rparr>) (s\<lparr>hosting := y\<rparr>)))" for r i why y
    by (rule bounds_same [OF unhost_bounds [OF s]]) (simp_all add: refuse_def)
  ultimately show ?thesis using h by (auto simp: hostAnswered_def Let_def split: if_splits prod.splits)
qed

lemma dispatch_bounds:
  assumes "boundsOk s" "r < length (regs s)"
  shows "boundsOk (dispatch parses r f s)"
  using assms toClient_bounds host_bounds socketDropped_bounds [OF unhost_bounds] bounds_same [of s "socketDeliver j m s" for j m]
  by (auto simp: dispatch_def Let_def socketDeliver_def split: option.split)

lemma unregister_bounds: "boundsOk s \<Longrightarrow> boundsOk (unregister r s)"
proof (erule unregister_keeps)
  fix t assume "boundsOk t"
  moreover have "sum_list (map g (removeAll r xs)) \<le> sum_list (map g xs)" for g :: "nat \<Rightarrow> nat" and xs
    by (induction xs) auto
  ultimately show "boundsOk (t\<lparr>links := removeAll r (links t)\<rparr>)"
    by (auto simp: boundsOk_def linksOk_def distinct_removeAll intro: order_trans)
next
  show "boundsOk t \<Longrightarrow> boundsOk (socketDropped j (updReg r (\<lambda>reg. reg\<lparr>hosted := mapDelete i (hosted reg)\<rparr>) t))" for i j t
    by (intro socketDropped_bounds unhost_bounds)
qed (rule close_bounds)

lemma destroy_bounds: "boundsOk s \<Longrightarrow> boundsOk (destroyRelay s)"
  unfolding destroyRelay_def
  by (rule foldl_keeps [where P = boundsOk]) (simp_all add: unregister_bounds bounds_same [of s])

lemma deliver_bounds:
  assumes "boundsOk s" "r < length (regs s)"
  shows "boundsOk (deliver parses r data s)"
proof -
  have read: "boundsOk (updReg r (\<lambda>reg. reg\<lparr>reader := rd\<rparr>) s)" for rd
    by (rule bounds_same [OF assms(1)]) (simp_all add: column_reg column_self)
  have "boundsOk (foldl (\<lambda>t f. dispatch parses r f t) (updReg r (\<lambda>reg. reg\<lparr>reader := rd\<rparr>) s) frames)
     \<and> r < length (regs (foldl (\<lambda>t f. dispatch parses r f t) (updReg r (\<lambda>reg. reg\<lparr>reader := rd\<rparr>) s) frames))" for rd frames
    by (rule foldl_keeps [where P = "\<lambda>t. boundsOk t \<and> r < length (regs t)"])
       (simp_all add: read assms(2) dispatch_bounds regs_dispatch)
  then show ?thesis using unregister_bounds [OF read] by (simp add: deliver_def Let_def split: prod.split)
qed

lemma sum_list_bump:
  assumes "distinct rs" "r \<in> set rs" "\<And>q. q \<noteq> r \<Longrightarrow> g q = f q" "g r \<le> Suc (f r)"
  shows "sum_list (map g rs) \<le> Suc (sum_list (map f rs :: nat list))"
  using assms(1,2)
proof (induction rs)
  case (Cons q rs)
  show ?case
  proof (cases "q = r")
    case True
    then have "map g rs = map f rs" using Cons.prems(1) by (intro map_cong refl assms(3)) auto
    then have "sum_list (map g rs) = sum_list (map f rs)" by (rule arg_cong)
    then show ?thesis using True assms(4) by simp
  next
    case False
    then show ?thesis using Cons assms(3) by auto
  qed
qed simp

lemma reserveOpen_bounds:
  assumes "boundsOk s" "reserveOpen carrying holder load s = Inr s'"
  shows "boundsOk s'"
proof -
  obtain r where r: "routeTo holder s = Some r" "carriedCount s < RELAY_MAX_SESSIONS"
    using assms(2) by (auto simp: reserveOpen_def split: if_splits option.splits)
  let ?i = "nextId (regs s ! r)"
  have links: "linksOk s" "r \<in> set (links s)" "r < length (regs s)"
    using assms(1) routeTo_bound [OF r(1)] by (auto simp: boundsOk_def linksOk_def)
  have s': "links s' = links s" "hosteds s' = hosteds s" "carrieds s' = (carrieds s)[r := mapSet ?i (length (sessions s)) (carrieds s ! r)]"
    using assms(2) r(1) column_self(3) [of s r] links(3) by (auto simp: reserveOpen_def Let_def column_reg column_nth split: if_splits)
  have len: "length (regs s') = length (regs s)" using s'(3) by (metis column_length(2) length_list_update)
  have "sum_list (map (\<lambda>q. length (carrieds s' ! q)) (links s)) \<le> Suc (sum_list (map (\<lambda>q. length (carrieds s ! q)) (links s)))"
    by (rule sum_list_bump [where r = r])
       (use links mapSet_length [of ?i "length (sessions s)" "carrieds s ! r"] in \<open>auto simp: linksOk_def s'\<close>)
  then show ?thesis using assms(1) r(2) carriedCount_column [OF links(1)] len by (simp add: boundsOk_def linksOk_def s')
qed

lemma reserveResume_bounds: "boundsOk s \<Longrightarrow> reserveResume k s = Some s' \<Longrightarrow> boundsOk s'"
proof -
  assume ok: "boundsOk s" and s': "reserveResume k s = Some s'"
  let ?r = "creg (sessions s ! k)" and ?i = "cid (sessions s ! k)"
  have quiet: "boundsOk (updSession k g s)" for g by (rule bounds_same [OF ok]) simp_all
  have "boundsOk (updSession k h (updReg ?r (\<lambda>reg. reg\<lparr>carried := mapDelete ?i (carried reg)\<rparr>) (updSession k g s)))" for g h
  proof (rule bounds_shrink [OF ok])
    fix r assume "r < length (regs s)"
    then show "length (carrieds (updSession k h (updReg ?r (\<lambda>reg. reg\<lparr>carried := mapDelete ?i (carried reg)\<rparr>) (updSession k g s))) ! r) \<le> length (carrieds s ! r)"
      by (cases "r = ?r") (auto simp: column_reg column_nth)
  qed (simp_all add: column_reg column_self)
  then show ?thesis using quiet s' by (auto simp: reserveResume_def Let_def split: Opening.splits if_splits)
qed

lemma register_bounds: "boundsOk s \<Longrightarrow> boundsOk (register peer out s)"
proof -
  assume ok: "boundsOk s"
  have cols: "carrieds (register peer out s) = carrieds s @ [[]]" "hosteds (register peer out s) = hosteds s @ [[]]"
    "links (register peer out s) = links s @ [length (regs s)]" "length (regs (register peer out s)) = Suc (length (regs s))"
    by (simp_all add: register_def carrieds_def hosteds_def freshRegistration_def)
  have "map (\<lambda>r. length ((carrieds s @ [[]]) ! r)) (links s) = map (\<lambda>r. length (carrieds s ! r)) (links s)"
    using ok by (auto simp: boundsOk_def linksOk_def nth_append)
  then show ?thesis using ok by (auto simp: boundsOk_def linksOk_def cols nth_append less_Suc_eq cong: map_cong)
qed

end
