(* ===== verification/Peer_Relay_Properties.thy ===== *)
theory Peer_Relay_Properties
  imports Peer_Relay_Tables
begin

text \<open>
  What the relay promises in every interleaving of its events, by induction over the run, and the
  one promise it does not keep: a session closed before the holder answered.
\<close>

subsection \<open>Every interleaving\<close>

definition relayOk :: "Relay \<Rightarrow> bool" where
  "relayOk s \<longleftrightarrow> sessionsOk s \<and> tablesOk {} s \<and> boundsOk s"

lemma relayOk_quiet:
  assumes "relayOk s" "sessions s' = (sessions s)[k := c]" "ups s' = ups s" "links s' = links s" "carrieds s' = carrieds s"
    "hosteds s' = hosteds s" "nexts s' = nexts s"
    and "k < length (sessions s) \<Longrightarrow> creg c = creg (sessions s ! k) \<and> cid c = cid (sessions s ! k) \<and> closed c = closed (sessions s ! k)"
    and "\<And>up. sessionOk up [] [] (sessions s ! k) \<Longrightarrow> sessionOk up [] [] c"
  shows "relayOk s'"
  using assms(1) sessionsOk_upd [OF _ assms(2,3)] tables_quiet [OF _ assms(2,4,5,7)] bounds_same [OF _ assms(4,5,6)] assms(8,9)
  by (auto simp: relayOk_def)

lemma relayOk_same:
  assumes "relayOk s" "sessions s' = sessions s" "ups s' = ups s" "links s' = links s" "carrieds s' = carrieds s"
    "hosteds s' = hosteds s" "nexts s' = nexts s"
  shows "relayOk s'"
  using assms sessionsOk_same tables_same bounds_same by (simp add: relayOk_def) metis

lemma close_relayOk: "relayOk s \<Longrightarrow> k < length (sessions s) \<Longrightarrow> relayOk (closeCarried k s)"
  by (simp add: relayOk_def close_sessionsOk close_tables close_bounds)

lemma clientClosed_relayOk: "relayOk s \<Longrightarrow> relayOk (updSession k clientClosed s)"
  by (erule relayOk_quiet [OF _ upd_simps(6)]) (auto simp: clientClosed_def session_defs split: option.splits if_splits)

lemma reserve_relayOk:
  assumes "relayOk s" "reserveOpen carrying holder load s = Inr s'"
  shows "relayOk s'"
proof -
  have "linksOk s" using assms(1) by (simp add: relayOk_def boundsOk_def)
  then show ?thesis
    using assms(1) reserveOpen_sessionsOk [OF _ _ assms(2)] reserveOpen_tables [OF _ assms(2)] reserveOpen_bounds [OF _ assms(2)]
    by (simp add: relayOk_def)
qed

lemma toHolder_bounds: "boundsOk s \<Longrightarrow> boundsOk (toHolder k m s)"
  unfolding toHolder_def by (rule forward_bounds) (erule bounds_same; simp)

lemma relayStep_ok:
  assumes "relayStep parses e s = Some s'" "relayOk s"
  shows "relayOk s'"
proof (cases e)
  case Bind
  then have "s' = s\<lparr>endpoint := True\<rparr>" using assms by simp
  then show ?thesis by (auto intro!: relayOk_same [OF assms(2)])
next
  case (Register peer out)
  then show ?thesis using assms register_sessionsOk register_tables register_bounds by (auto simp: relayOk_def)
next
  case (TransportDown r)
  let ?s = "updReg r (\<lambda>reg. reg\<lparr>transportOpen := False\<rparr>) s"
  have "tablesOk {} ?s" "boundsOk ?s" using assms(2)
    by (auto simp: relayOk_def column_reg column_self intro: tables_same bounds_same)
  then show ?thesis using assms TransportDown transportDown_sessionsOk by (auto simp: relayOk_def split: if_splits)
next
  case (CloseLink r)
  then show ?thesis using assms unregister_sessionsOk unregister_tables unregister_bounds by (auto simp: relayOk_def)
next
  case Destroy
  then show ?thesis using assms destroy_sessionsOk destroy_tables destroy_bounds by (auto simp: relayOk_def)
next
  case (Reserve carrying holder load)
  then show ?thesis using assms reserve_relayOk by (auto split: sum.splits)
next
  case (OpenTimeout k)
  then have "s' = updSession k (resolveOpening (Some DECLINED)) s" using assms(1) by (simp split: if_splits)
  moreover have "relayOk (updSession k (resolveOpening (Some DECLINED)) s)"
    by (rule relayOk_quiet [OF assms(2) upd_simps(6)]) (auto simp: resolveOpening_def session_defs split: option.splits if_splits)
  ultimately show ?thesis by simp
next
  case (ReserveResume k)
  then have "k < length (sessions s)" "reserveResume k s = Some s'" using assms(1) by (auto split: if_splits)
  then show ?thesis using assms(2) reserveResume_sessionsOk reserveResume_tables reserveResume_bounds by (auto simp: relayOk_def)
next
  case (Attach k)
  then show ?thesis using assms attach_sessionsOk attach_tables attach_bounds by (auto simp: relayOk_def split: if_splits)
next
  case (Abandon k)
  then show ?thesis using assms close_relayOk by (auto split: if_splits)
next
  case (ClientMessage k m)
  then have "s' = toHolder k m s" "k < length (sessions s)" using assms(1) by (auto split: if_splits)
  then show ?thesis using assms(2) toHolder_sessionsOk [of s k m] toHolder_tables [of "{}" s k m] toHolder_bounds [of s k m]
    by (simp add: relayOk_def)
next
  case (ClientClosing k)
  then show ?thesis using assms clientClosed_relayOk by (auto split: if_splits)
next
  case (ClientClose k)
  then show ?thesis using assms close_relayOk [OF clientClosed_relayOk] by (auto split: if_splits)
next
  case (QueueTurn works k)
  then show ?thesis using assms queueTurn_sessionsOk queueTurn_tables queueTurn_bounds by (auto simp: relayOk_def split: if_splits)
next
  case (Deliver r data)
  then show ?thesis using assms deliver_sessionsOk deliver_tables deliver_bounds by (auto simp: relayOk_def split: if_splits)
next
  case (HostAnswered n admitted)
  then have h: "hostAnswered n admitted s = Some s'" using assms(1) by simp
  have "nexts s' = nexts s" using h
    by (auto simp: hostAnswered_def Let_def refuse_def split: if_splits prod.splits)
  then show ?thesis using assms(2) hostAnswered_simps [OF h] hostAnswered_bounds [OF _ h] sessionsOk_same tables_same
    by (simp add: relayOk_def) metis
next
  case (SocketSend j m)
  then have "s' = socketSend j m s" using assms(1) by (simp split: if_splits)
  moreover have "hosteds (socketSend j m s) = hosteds s" by (simp add: socketSend_def Let_def)
  ultimately show ?thesis by (auto intro!: relayOk_same [OF assms(2)])
next
  case (SocketClose j)
  then have "s' = socketClose j s" using assms(1) by (simp split: if_splits)
  moreover have "sessionsOk (socketClose j s)" "tablesOk {} (socketClose j s)" "boundsOk (socketClose j s)"
    using assms(2) socketClose_bounds by (auto simp: relayOk_def intro: sessionsOk_same tables_same)
  ultimately show ?thesis by (simp add: relayOk_def)
qed

lemma start_relayOk: "relayOk startRelay"
  by (simp add: relayOk_def sessionsOk_def tablesOk_def boundsOk_def linksOk_def startRelay_def hosteds_def)

lemma reachable_relayOk: "relayRun parses es startRelay = Some s \<Longrightarrow> relayOk s"
  by (rule relay.run_invariant [where P = relayOk, OF _ _ start_relayOk]) (auto intro: relayStep_ok)

subsection \<open>What the relay promises\<close>


text \<open>Five dials for one holder: the fifth is refused.\<close>

definition fiveDials :: "RelayEvent list" where
  "fiveDials = Register ''h'' False # replicate 5 (Reserve True ''h'' [])"

lemma fiveDials_run: "\<exists>s. relayRun parses fiveDials startRelay = Some s \<and> carriedCount s = 4 \<and> length (sessions s) = 4"
  by (simp add: fiveDials_def numeral_eq_Suc register_def reserveOpen_def startRelay_def freshRegistration_def RELAY_MAX_SESSIONS_def
      carriedCount_def routeTo_def updReg_def sendOn_def mapSet_def freshSession_def Let_def)



text \<open>A frame read in one piece by a reader with nothing pending.\<close>

lemma push_wire:
  assumes "fitsFrame f"
  shows "push (wire f) \<lparr>buffer = [], failed = False\<rparr> = (\<lparr>buffer = [], failed = False\<rparr>, [f])"
  using decode_wires [of "[f]"] assms by (simp add: push_def readLoop_decode)

definition holderFrame :: "RelayOpcode \<Rightarrow> byte list \<Rightarrow> RelayFrame" where
  "holderFrame op load = \<lparr>opcode = op, session = 1, payload = load\<rparr>"

text \<open>A dial that is accepted, a message before the socket exists, one after, and an answer.\<close>

definition relayedTalk :: "RelayEvent list" where
  "relayedTalk =
     [Register ''h'' False, Reserve True ''h'' [], Deliver 0 (wire (holderFrame ACCEPT [])), ReserveResume 0,
      Deliver 0 (wire (holderFrame TEXT [7])), Attach 0, Deliver 0 (wire (holderFrame BINARY [8, 9])),
      QueueTurn True 0, ClientMessage 0 (False, [5]), QueueTurn True 0, QueueTurn True 0]"

lemmas relay_eval =
  relayedTalk_def register_def reserveOpen_def startRelay_def freshRegistration_def RELAY_MAX_SESSIONS_def RELAY_MAX_BUFFERED_BYTES_def
  carriedCount_def routeTo_def updReg_def updSession_def sendOn_def mapSet_def freshSession_def freshReader_def Let_def
  deliver_def push_wire fitsFrame_def holderFrame_def RELAY_MAX_FRAME_BYTES_def dispatch_def toClient_def resolveOpening_def
  reserveResume_def settled_def messageToClient_def attach_def forward_def jobBytes_def queueTurn_def writeJob_def toHolder_def


subsection \<open>A reservation nobody answers\<close>

text \<open>
  Closing a session clears its timer and its \<open>settle\<close> without calling it. A session whose holder
  has not answered yet is then waited for by nothing.
\<close>

definition forgotten :: "CarriedSession \<Rightarrow> bool" where
  "forgotten c \<longleftrightarrow> opened c = Unresolved \<and> \<not> settle c \<and> \<not> timer c"

definition stuck :: "nat \<Rightarrow> Relay \<Rightarrow> bool" where
  "stuck k s \<longleftrightarrow> k < length (sessions s) \<and> forgotten (sessions s ! k)"

lemma forgotten_effects [simp]:
  "forgotten c \<Longrightarrow> forgotten (closeSession c)" "forgotten c \<Longrightarrow> forgotten (forwardSession job c)"
  "forgotten c \<Longrightarrow> forgotten (messageSession m c)" "forgotten c \<Longrightarrow> forgotten (writeSession up job c)"
  "forgotten c \<Longrightarrow> forgotten (clientClosed c)" "forgotten c \<Longrightarrow> \<not> settle c" "forgotten c \<Longrightarrow> \<not> timer c"
  "forgotten (c\<lparr>pending := n\<rparr>) = forgotten c" "forgotten (c\<lparr>queue := q\<rparr>) = forgotten c" "forgotten (c\<lparr>inbox := ms\<rparr>) = forgotten c"
  "forgotten (c\<lparr>client := w\<rparr>) = forgotten c" "forgotten (c\<lparr>fromHolder := ms\<rparr>) = forgotten c" "forgotten (c\<lparr>fromClient := ms\<rparr>) = forgotten c"
  by (auto simp: forgotten_def closeSession_def clientClosed_def settled_def forwardSession_def messageSession_def writeSession_def
      split: option.split Job.split)

lemma stuck_upd:
  assumes "stuck k s" "sessions s' = (sessions s)[n := c]" "forgotten (sessions s ! n) \<Longrightarrow> forgotten c"
  shows "stuck k s'"
  using assms by (cases "n = k") (auto simp: stuck_def)

lemma stuck_same: "stuck k s \<Longrightarrow> sessions s' = sessions s \<Longrightarrow> stuck k s'"
  by (simp add: stuck_def)

lemma stuck_session: "stuck k s \<Longrightarrow> (\<And>c. forgotten c \<Longrightarrow> forgotten (g c)) \<Longrightarrow> stuck k (updSession n g s)"
  by (rule stuck_upd [OF _ upd_simps(6)])

lemma stuck_ops:
  assumes "stuck k s"
  shows "stuck k (closeCarried n s)" "stuck k (messageToClient n m s)" "stuck k (forward n job s)" "stuck k (writeJob n job s)"
proof -
  show "stuck k (closeCarried n s)" by (rule stuck_upd [OF assms sessions_close]) simp
  show "stuck k (messageToClient n m s)" by (rule stuck_upd [OF assms sessions_message]) simp
  show "stuck k (forward n job s)" by (rule stuck_upd [OF assms sessions_forward]) simp
  show "stuck k (writeJob n job s)" by (rule stuck_upd [OF assms sessions_write]) simp
qed

lemma stuck_toClient: "stuck k s \<Longrightarrow> stuck k (toClient n f s)"
  by (cases "opcode f") (auto simp: toClient_def stuck_ops stuck_session)

lemma stuck_unregister: "stuck k s \<Longrightarrow> stuck k (unregister r s)"
  by (erule unregister_keeps) (auto simp: stuck_ops intro: stuck_same)

lemma stuck_deliver: "stuck k s \<Longrightarrow> stuck k (deliver parses r data s)"
proof -
  assume ok: "stuck k s"
  have read: "stuck k (updReg r (\<lambda>reg. reg\<lparr>reader := rd\<rparr>) s)" for rd by (rule stuck_same [OF ok]) simp
  have one: "stuck k t \<Longrightarrow> stuck k (dispatch parses r f t)" for f t
    by (auto simp: dispatch_def Let_def stuck_toClient split: option.split intro: stuck_same)
  have "stuck k (foldl (\<lambda>t f. dispatch parses r f t) (updReg r (\<lambda>reg. reg\<lparr>reader := rd\<rparr>) s) frames)" for rd frames
    by (rule foldl_keeps [where P = "stuck k"]) (simp_all add: read one)
  then show ?thesis using stuck_unregister [OF read] by (simp add: deliver_def Let_def split: prod.split)
qed

lemma stuck_attach: "stuck k s \<Longrightarrow> stuck k (attach n s)"
proof -
  assume ok: "stuck k s"
  have "stuck k (foldl (\<lambda>t m. messageToClient n m t) (updSession n (\<lambda>c. c\<lparr>client := w, inbox := []\<rparr>) s) ms)" for w ms
    by (rule foldl_keeps [where P = "stuck k"]) (simp_all add: stuck_ops stuck_session ok)
  then show ?thesis using ok by (simp add: attach_def Let_def)
qed

lemma stuck_step:
  assumes "relayStep parses e s = Some s'" "stuck k s"
  shows "stuck k s'"
proof (cases e)
  case Destroy
  have "stuck k (destroyRelay s)" unfolding destroyRelay_def
    by (rule foldl_keeps [where P = "stuck k"]) (simp_all add: stuck_unregister stuck_same [OF assms(2)])
  then show ?thesis using assms Destroy by simp
next
  case (Reserve carrying holder load)
  then consider "s' = s" | c where "sessions s' = sessions s @ [c]"
    using assms(1) by (auto simp: reserveOpen_def Let_def split: if_splits option.splits)
  then show ?thesis using assms(2) by cases (auto simp: stuck_def nth_append)
next
  case (OpenTimeout n)
  show ?thesis using assms OpenTimeout by (cases "n = k") (auto simp: stuck_def split: if_splits)
next
  case (ReserveResume n)
  then have r: "reserveResume n s = Some s'" using assms(1) by (simp split: if_splits)
  then obtain refusal where o: "opened (sessions s ! n) = Resolved refusal" by (auto simp: reserveResume_def split: Opening.splits)
  then have "n \<noteq> k" using assms(2) by (auto simp: stuck_def forgotten_def simp del: forgotten_effects)
  moreover have "length (sessions s') = length (sessions s)" "sessions s' ! k = sessions s ! k"
    using r o \<open>n \<noteq> k\<close> by (auto simp: reserveResume_def Let_def)
  ultimately show ?thesis using assms(2) by (simp add: stuck_def)
next
  case (QueueTurn works n)
  then have "queueTurn works n s = Some s'" using assms(1) by (simp split: if_splits)
  then show ?thesis using assms(2)
    by (auto simp: queueTurn_def Let_def stuck_ops stuck_session split: list.splits if_splits)
next
  case (HostAnswered n admitted)
  then show ?thesis using assms hostAnswered_simps(1) [of n admitted s s'] by (auto intro: stuck_same)
next
  case (ClientMessage n m)
  then have "s' = toHolder n m s" using assms(1) by (simp split: if_splits)
  then show ?thesis using assms(2) by (simp add: toHolder_def stuck_ops stuck_session)
next
  case (Register peer out)
  then show ?thesis using assms by (auto simp: register_def intro: stuck_same)
qed (use assms in \<open>auto simp: stuck_unregister stuck_deliver stuck_attach stuck_ops stuck_session intro: stuck_same split: if_splits\<close>)

text \<open>
  When a carried session is closed before the holder has answered, because the link dropped or
  the holder let go, the call that reserved it never returns: whatever happens afterwards its
  promise stays unresolved, so the dialler is neither refused nor attached.
\<close>

lemma closed_reservation_never_answers:
  assumes "k < length (sessions s)" "opened (sessions s ! k) = Unresolved" "\<not> closed (sessions s ! k)"
    and "relayRun parses later (closeCarried k s) = Some t"
  shows "opened (sessions t ! k) = Unresolved \<and> relayStep parses (ReserveResume k) t = None
     \<and> relayStep parses (Attach k) t = None \<and> relayStep parses (OpenTimeout k) t = None"
proof -
  have closing: "stuck k (closeCarried k s)"
    using assms(1-3)
    by (simp add: stuck_def sessions_close closeSession_def forgotten_def clientClosed_def settled_def del: forgotten_effects)
  have "stuck k t" by (rule relay.run_invariant [where P = "stuck k", OF _ assms(4) closing]) (auto intro: stuck_step)
  then show ?thesis by (auto simp: stuck_def forgotten_def reserveResume_def simp del: forgotten_effects)
qed

text \<open>The holder's link drops while it thinks about an OPEN.\<close>

lemma closed_reservation_never_answers_witness:
  "\<exists>s t. relayRun (\<lambda>_. True) [Register ''h'' False, Reserve True ''h'' []] startRelay = Some s
     \<and> relayRun (\<lambda>_. True) [Register ''h'' False, Reserve True ''h'' [], CloseLink 0] startRelay = Some t
     \<and> sessions t = sessions (closeCarried 0 s) \<and> opened (sessions t ! 0) = Unresolved"
proof -
  have "\<exists>s t. relayRun (\<lambda>_. True) [Register ''h'' False, Reserve True ''h'' []] startRelay = Some s
     \<and> relayRun (\<lambda>_. True) [Register ''h'' False, Reserve True ''h'' [], CloseLink 0] startRelay = Some t
     \<and> sessions t = sessions (closeCarried 0 s)
     \<and> length (sessions s) = 1 \<and> opened (sessions s ! 0) = Unresolved \<and> \<not> closed (sessions s ! 0)"
    by (simp add: relay_eval unregister_def closeCarried_def sendIfOpen_def mapDelete_def)
  then obtain s t where st: "relayRun (\<lambda>_. True) [Register ''h'' False, Reserve True ''h'' []] startRelay = Some s"
    "relayRun (\<lambda>_. True) [Register ''h'' False, Reserve True ''h'' [], CloseLink 0] startRelay = Some t"
    "sessions t = sessions (closeCarried 0 s)" "length (sessions s) = 1" "opened (sessions s ! 0) = Unresolved" "\<not> closed (sessions s ! 0)"
    by blast
  then show ?thesis using closed_reservation_never_answers [of 0 s "\<lambda>_. True" "[]" "closeCarried 0 s"] by auto
qed

text \<open>
  A reservation that times out is forgotten here and never given back to the holder: all it was
  ever sent is the OPEN, so a holder that accepts late keeps its side open.
\<close>

lemma timed_out_reservation_sends_no_close:
  "\<exists>s. relayRun parses [Register ''h'' False, Reserve True ''h'' load, OpenTimeout 0, ReserveResume 0] startRelay = Some s
     \<and> sent (regs s ! 0) = [(OPEN, 1, load)] \<and> carried (regs s ! 0) = [] \<and> closed (sessions s ! 0)"
  by (simp add: relay_eval mapDelete_def)

text \<open>Frames that arrive before the socket does are kept without being counted.\<close>

lemma inbox_is_not_counted:
  "client (sessions s ! k) = None \<Longrightarrow> k < length (sessions s) \<Longrightarrow>
   pending (sessions (messageToClient k m s) ! k) = pending (sessions s ! k)
   \<and> inbox (sessions (messageToClient k m s) ! k) = inbox (sessions s ! k) @ [m]"
  by (simp add: messageToClient_def)

end
