(* ===== verification/Js_Regex.thy ===== *)
theory Js_Regex
  imports Mcs_Prelude
begin

text \<open>
  The part of JavaScript's strings and regular expressions the modelled code uses: lower case,
  and a backtracking matcher. Strings are lists of characters below 256. A match attempt yields
  all its results in the order the engine tries them, so the first one is the match.
\<close>

subsection \<open>Characters\<close>

definition lowerChar :: "char \<Rightarrow> char" where
  "lowerChar c =
     (let n = of_char c :: nat in
      if 65 \<le> n \<and> n \<le> 90 \<or> 192 \<le> n \<and> n \<le> 222 \<and> n \<noteq> 215 then char_of (n + 32) else c)"

definition toLowerCase :: "string \<Rightarrow> string" where
  "toLowerCase s = map lowerChar s"

definition isDigit :: "char \<Rightarrow> bool" where
  "isDigit c \<longleftrightarrow> (let n = of_char c :: nat in 48 \<le> n \<and> n \<le> 57)"

definition isWord :: "char \<Rightarrow> bool" where
  "isWord c \<longleftrightarrow> (let n = of_char c :: nat in
     48 \<le> n \<and> n \<le> 57 \<or> 65 \<le> n \<and> n \<le> 90 \<or> 97 \<le> n \<and> n \<le> 122 \<or> n = 95)"

text \<open>The same on bits, for evaluation.\<close>

lemma lowerChar_bits [code]:
  "lowerChar (Char b0 b1 b2 b3 b4 b5 b6 b7) =
     (if b6 \<and> \<not> b5
         \<and> (if b7 then \<not> (b0 \<and> b1 \<and> b2 \<and> b4) else (b0 \<or> b1 \<or> b2 \<or> b3 \<or> b4) \<and> \<not> (b4 \<and> b3 \<and> (b2 \<or> b1 \<and> b0)))
      then Char b0 b1 b2 b3 b4 True b6 b7 else Char b0 b1 b2 b3 b4 b5 b6 b7)"
  by (cases b0; cases b1; cases b2; cases b3; cases b4; cases b5; cases b6; cases b7) (simp_all add: lowerChar_def char_of_def bit_0)

lemma isDigit_bits [code]:
  "isDigit (Char b0 b1 b2 b3 b4 b5 b6 b7) \<longleftrightarrow> \<not> b7 \<and> \<not> b6 \<and> b5 \<and> b4 \<and> \<not> (b3 \<and> (b2 \<or> b1))"
  by (cases b0; cases b1; cases b2; cases b3; cases b4; cases b5; cases b6; cases b7) (simp_all add: isDigit_def)

lemma isWord_bits [code]:
  "isWord (Char b0 b1 b2 b3 b4 b5 b6 b7) \<longleftrightarrow>
     \<not> b7 \<and> (if b6 then (b0 \<or> b1 \<or> b2 \<or> b3 \<or> b4) \<and> \<not> (b4 \<and> b3 \<and> (b2 \<or> b1 \<and> b0))
                  \<or> (b0 \<and> b1 \<and> b2 \<and> b3 \<and> b4 \<and> \<not> b5)
             else b5 \<and> b4 \<and> \<not> (b3 \<and> (b2 \<or> b1)))"
  by (cases b0; cases b1; cases b2; cases b3; cases b4; cases b5; cases b6; cases b7) (simp_all add: isWord_def)

text \<open>The classes of the expressions, by name.\<close>

definition isChar :: "char \<Rightarrow> char \<Rightarrow> bool" where "isChar c d \<longleftrightarrow> d = c"
definition isLetter :: "char \<Rightarrow> char \<Rightarrow> bool" where "isLetter c d \<longleftrightarrow> lowerChar d = c"
definition oneOf :: "string \<Rightarrow> char \<Rightarrow> bool" where "oneOf cs d \<longleftrightarrow> d \<in> set cs"
definition noneOf :: "string \<Rightarrow> char \<Rightarrow> bool" where "noneOf cs d \<longleftrightarrow> d \<notin> set cs"
definition blankOr :: "string \<Rightarrow> char \<Rightarrow> bool" where "blankOr cs d \<longleftrightarrow> isSpace d \<or> d \<in> set cs"
definition notDigit :: "char \<Rightarrow> bool" where "notDigit d \<longleftrightarrow> \<not> isDigit d"

text \<open>The non-negative decimal numeral of a list of digits, and the digits of a number.\<close>

definition digitValue :: "char \<Rightarrow> nat" where
  "digitValue c = of_char c - 48"

definition parseDigits :: "string \<Rightarrow> nat" where
  "parseDigits s = foldl (\<lambda>n c. n * 10 + digitValue c) 0 s"

fun showNat :: "nat \<Rightarrow> string" where
  "showNat n = (if n < 10 then [char_of (n + 48)] else showNat (n div 10) @ [char_of (n mod 10 + 48)])"

declare showNat.simps [simp del]

definition padStart :: "nat \<Rightarrow> char \<Rightarrow> string \<Rightarrow> string" where
  "padStart n c s = replicate (n - length s) c @ s"

subsection \<open>Expressions\<close>

text \<open>
  Classes, sequence, alternatives, greedy repetition (zero or more, and between two bounds), a
  capturing group, word boundary, the two anchors, and looking ahead.
\<close>

datatype rx =
    One
  | Cls "char \<Rightarrow> bool"
  | Cat rx rx
  | Or rx rx
  | Star rx
  | Times nat nat rx
  | Group nat rx
  | Bound
  | Start
  | Finish
  | Ahead rx
  | NotAhead rx

text \<open>Where the matcher stands: what was read, last first; what is left; the groups so far.\<close>

record cursor =
  seen :: string
  left :: string
  groups :: "(nat \<times> string) list"

definition atBoundary :: "cursor \<Rightarrow> bool" where
  "atBoundary p \<longleftrightarrow>
     (seen p \<noteq> [] \<and> isWord (hd (seen p))) \<noteq> (left p \<noteq> [] \<and> isWord (hd (left p)))"

text \<open>Greedy repetition of an attempt, which has to consume something each time.\<close>

primrec many :: "(cursor \<Rightarrow> cursor list) \<Rightarrow> nat \<Rightarrow> cursor \<Rightarrow> cursor list" where
  "many f 0 p = [p]"
| "many f (Suc n) p = concat (map (\<lambda>q. if length (left q) < length (left p) then many f n q else []) (f p)) @ [p]"

primrec exactly :: "(cursor \<Rightarrow> cursor list) \<Rightarrow> nat \<Rightarrow> cursor \<Rightarrow> cursor list" where
  "exactly f 0 p = [p]"
| "exactly f (Suc n) p = concat (map (exactly f n) (f p))"

fun attempt :: "rx \<Rightarrow> cursor \<Rightarrow> cursor list" where
  "attempt One p = [p]"
| "attempt (Cls P) p =
     (case left p of
        [] \<Rightarrow> []
      | c # cs \<Rightarrow> if P c then [p\<lparr>seen := c # seen p, left := cs\<rparr>] else [])"
| "attempt (Cat r q) p = concat (map (attempt q) (attempt r p))"
| "attempt (Or r q) p = attempt r p @ attempt q p"
| "attempt (Star r) p = many (attempt r) (length (left p)) p"
| "attempt (Times n m r) p = concat (map (many (attempt r) (m - n)) (exactly (attempt r) n p))"
| "attempt (Group n r) p =
     map (\<lambda>q. q\<lparr>groups := (n, take (length (left p) - length (left q)) (left p)) # groups q\<rparr>) (attempt r p)"
| "attempt Bound p = (if atBoundary p then [p] else [])"
| "attempt Start p = (if seen p = [] then [p] else [])"
| "attempt Finish p = (if left p = [] then [p] else [])"
| "attempt (Ahead r) p = (case attempt r p of [] \<Rightarrow> [] | q # _ \<Rightarrow> [p\<lparr>groups := groups q\<rparr>])"
| "attempt (NotAhead r) p = (if attempt r p = [] then [p] else [])"

definition lit :: "string \<Rightarrow> rx" where
  "lit s = foldr (\<lambda>c r. Cat (Cls (isChar c)) r) s One"

text \<open>The same under the flag \<open>i\<close>, for a literal written in lower case.\<close>

definition liti :: "string \<Rightarrow> rx" where
  "liti s = foldr (\<lambda>c r. Cat (Cls (isLetter c)) r) s One"

definition opt :: "rx \<Rightarrow> rx" where
  "opt r = Times 0 1 r"

definition cats :: "rx list \<Rightarrow> rx" where
  "cats rs = foldr Cat rs One"

fun ors :: "rx list \<Rightarrow> rx" where
  "ors [] = Cls (\<lambda>_. False)"
| "ors [r] = r"
| "ors (r # rs) = Or r (ors rs)"

subsection \<open>Searching\<close>

text \<open>
  \<open>exec\<close>: the leftmost position with a match, and its first result; the answer is what precedes the
  match, the match, what follows it, and the groups.
\<close>

record found =
  before :: string
  matched :: string
  after :: string
  captured :: "nat \<rightharpoonup> string"

fun execFrom :: "rx \<Rightarrow> string \<Rightarrow> string \<Rightarrow> found option" where
  "execFrom r sn [] =
     (case attempt r \<lparr>seen = sn, left = [], groups = []\<rparr> of
        q # _ \<Rightarrow> Some \<lparr>before = rev sn, matched = [], after = [], captured = map_of (groups q)\<rparr>
      | [] \<Rightarrow> None)"
| "execFrom r sn (c # cs) =
     (case attempt r \<lparr>seen = sn, left = c # cs, groups = []\<rparr> of
        q # _ \<Rightarrow> Some \<lparr>before = rev sn, matched = take (length (c # cs) - length (left q)) (c # cs),
                       after = left q, captured = map_of (groups q)\<rparr>
      | [] \<Rightarrow> execFrom r (c # sn) cs)"

definition exec :: "rx \<Rightarrow> string \<Rightarrow> found option" where
  "exec r s = execFrom r [] s"

definition test :: "rx \<Rightarrow> string \<Rightarrow> bool" where
  "test r s \<longleftrightarrow> exec r s \<noteq> None"

text \<open>\<open>replace\<close> without the flag \<open>g\<close>: the first match only, the replacement taken literally.\<close>

definition replaceFirst :: "rx \<Rightarrow> string \<Rightarrow> string \<Rightarrow> string" where
  "replaceFirst r s new = (case exec r s of None \<Rightarrow> s | Some f \<Rightarrow> before f @ new @ after f)"

text \<open>With it: every match, left to right, each search going on where the last one ended.\<close>

function replaceFrom :: "rx \<Rightarrow> string \<Rightarrow> string \<Rightarrow> string \<Rightarrow> string" where
  "replaceFrom r new sn [] = (if attempt r \<lparr>seen = sn, left = [], groups = []\<rparr> = [] then [] else new)"
| "replaceFrom r new sn (c # cs) =
     (case attempt r \<lparr>seen = sn, left = c # cs, groups = []\<rparr> of
        [] \<Rightarrow> c # replaceFrom r new (c # sn) cs
      | q # _ \<Rightarrow>
          if length (left q) < length (c # cs) then new @ replaceFrom r new (seen q) (left q)
          else new @ c # replaceFrom r new (c # sn) cs)"
  by pat_completeness auto
termination by (relation "measure (\<lambda>(r, new, sn, xs). length xs)") auto

definition replaceAll :: "rx \<Rightarrow> string \<Rightarrow> string \<Rightarrow> string" where
  "replaceAll r s new = replaceFrom r new [] s"

subsection \<open>What a match is\<close>

text \<open>An attempt only moves forward over the string it was given.\<close>

definition within_text :: "cursor \<Rightarrow> cursor \<Rightarrow> bool" where
  "within_text p q \<longleftrightarrow> rev (seen q) @ left q = rev (seen p) @ left p \<and> length (left q) \<le> length (left p)"

lemma within_trans: "within_text p q \<Longrightarrow> within_text q r \<Longrightarrow> within_text p r"
  by (simp add: within_text_def)

lemma many_within:
  assumes "\<And>p q. q \<in> set (f p) \<Longrightarrow> within_text p q"
  shows "q \<in> set (many f n p) \<Longrightarrow> within_text p q"
proof (induction n arbitrary: p)
  case (Suc n)
  then show ?case using assms within_trans by (auto simp: within_text_def split: if_splits) fastforce+
qed (simp add: within_text_def)

lemma exactly_within:
  assumes "\<And>p q. q \<in> set (f p) \<Longrightarrow> within_text p q"
  shows "q \<in> set (exactly f n p) \<Longrightarrow> within_text p q"
  using assms within_trans by (induction n arbitrary: p) (auto simp: within_text_def, fastforce+)

lemma attempt_within: "q \<in> set (attempt r p) \<Longrightarrow> within_text p q"
proof (induction r arbitrary: p q)
  case (Cat r1 r2)
  then show ?case using within_trans by fastforce
next
  case (Star r)
  then show ?case using many_within [of "attempt r"] by auto
next
  case (Times n m r)
  then obtain mid where "mid \<in> set (exactly (attempt r) n p)" "q \<in> set (many (attempt r) (m - n) mid)" by auto
  then show ?case using exactly_within [of "attempt r" mid n p] many_within [of "attempt r" q "m - n" mid] Times.IH within_trans by blast
next
  case (Group n r)
  then show ?case by (fastforce simp: within_text_def)
next
  case (Ahead r)
  then show ?case by (auto simp: within_text_def split: list.splits)
next
  case (Cls P)
  then show ?case by (cases "left p") (auto simp: within_text_def split: if_splits)
qed (auto simp: within_text_def split: if_splits)

lemma suffix_drop:
  assumes "u @ l = v @ xs" "length l \<le> length xs"
  shows "drop (length xs - length l) xs = l"
proof -
  have "length u = length v + (length xs - length l)" using arg_cong [OF assms(1), of length] assms(2) by simp
  moreover have "drop (length u) (v @ xs) = l" using assms(1) by (metis append_eq_conv_conj)
  ultimately show ?thesis by simp
qed

lemma exec_splits: "exec r s = Some f \<Longrightarrow> s = before f @ matched f @ after f"
proof -
  have "execFrom r sn xs = Some f \<Longrightarrow> rev sn @ xs = before f @ matched f @ after f" for sn xs
  proof (induction r sn xs rule: execFrom.induct)
    case (1 r sn)
    then show ?case by (auto split: list.splits)
  next
    case (2 r sn c cs)
    show ?case
    proof (cases "attempt r \<lparr>seen = sn, left = c # cs, groups = []\<rparr>")
      case Nil
      then show ?thesis using 2 by simp
    next
      case (Cons q qs)
      have w: "within_text \<lparr>seen = sn, left = c # cs, groups = []\<rparr> q" by (rule attempt_within [of _ r]) (simp add: Cons)
      let ?n = "length (c # cs) - length (left q)"
      have "rev (seen q) @ left q = rev sn @ c # cs" "length (left q) \<le> length (c # cs)"
        using w by (simp_all add: within_text_def)
      then have "drop ?n (c # cs) = left q"
        by (intro suffix_drop [of "rev (seen q)" _ "rev sn"]) simp_all
      then have "c # cs = take ?n (c # cs) @ left q" by (metis append_take_drop_id)
      then show ?thesis using 2 Cons by auto
    qed
  qed
  from this [of "[]" s] show "exec r s = Some f \<Longrightarrow> ?thesis" by (simp add: exec_def)
qed

subsection \<open>Expressions that consume\<close>

fun consuming :: "rx \<Rightarrow> bool" where
  "consuming (Cls P) = True"
| "consuming (Cat r q) = (consuming r \<or> consuming q)"
| "consuming (Or r q) = (consuming r \<and> consuming q)"
| "consuming (Times n m r) = (0 < n \<and> consuming r)"
| "consuming (Group n r) = consuming r"
| "consuming r = False"

lemma exactly_consumes:
  assumes "\<And>p q. q \<in> set (f p) \<Longrightarrow> within_text p q \<and> length (left q) < length (left p)"
  shows "q \<in> set (exactly f (Suc n) p) \<Longrightarrow> length (left q) < length (left p)"
proof -
  assume "q \<in> set (exactly f (Suc n) p)"
  then obtain r where r: "r \<in> set (f p)" "q \<in> set (exactly f n r)" by auto
  have "within_text r q" by (rule exactly_within [OF _ r(2)]) (use assms in blast)
  then show ?thesis using assms [OF r(1)] by (simp add: within_text_def)
qed

lemma attempt_consumes: "consuming r \<Longrightarrow> q \<in> set (attempt r p) \<Longrightarrow> length (left q) < length (left p)"
proof (induction r arbitrary: p q)
  case (Cls P)
  then show ?case by (cases "left p") (auto split: if_splits)
next
  case (Cat r1 r2)
  then obtain mid where m: "mid \<in> set (attempt r1 p)" "q \<in> set (attempt r2 mid)" by auto
  have "length (left mid) \<le> length (left p)" "length (left q) \<le> length (left mid)"
    using attempt_within [OF m(1)] attempt_within [OF m(2)] by (simp_all add: within_text_def)
  then show ?case using Cat.IH(1) [OF _ m(1)] Cat.IH(2) [OF _ m(2)] Cat.prems(1) by fastforce
next
  case (Times n m r)
  then obtain k where n: "n = Suc k" by (cases n) auto
  from Times.prems obtain mid where mid: "mid \<in> set (exactly (attempt r) n p)" "q \<in> set (many (attempt r) (m - n) mid)" by auto
  have "length (left mid) < length (left p)"
    by (rule exactly_consumes [of "attempt r" mid k]) (use Times.IH Times.prems mid n attempt_within in auto)
  moreover have "within_text mid q" by (rule many_within [OF _ mid(2)]) (rule attempt_within)
  ultimately show ?case by (simp add: within_text_def)
qed auto

lemma exec_consumes:
  assumes "consuming r" "exec r s = Some f"
  shows "length (before f) + length (after f) < length s"
proof -
  have "execFrom r sn xs = Some f \<Longrightarrow> consuming r \<Longrightarrow> matched f \<noteq> []" for sn xs
  proof (induction r sn xs rule: execFrom.induct)
    case (1 r sn)
    then show ?case using attempt_consumes [of r _ "\<lparr>seen = sn, left = [], groups = []\<rparr>"]
      by (auto split: list.splits)
  next
    case (2 r sn c cs)
    show ?case
    proof (cases "attempt r \<lparr>seen = sn, left = c # cs, groups = []\<rparr>")
      case Nil
      then show ?thesis using 2 by simp
    next
      case (Cons q qs)
      have "length (left q) < length (c # cs)"
        using attempt_consumes [OF 2(3), of q "\<lparr>seen = sn, left = c # cs, groups = []\<rparr>"] Cons by simp
      then show ?thesis using 2(2) Cons by auto
    qed
  qed
  then have "matched f \<noteq> []" using assms by (auto simp: exec_def)
  moreover have "length s = length (before f) + length (matched f) + length (after f)"
    using arg_cong [OF exec_splits [OF assms(2)], of length] by simp
  ultimately show ?thesis by simp
qed

subsection \<open>What the found match tells\<close>

text \<open>The match is the first result of an attempt where it starts.\<close>

lemma exec_attempt:
  assumes "exec r s = Some f"
  obtains q where "q \<in> set (attempt r \<lparr>seen = rev (before f), left = matched f @ after f, groups = []\<rparr>)"
    and "left q = after f" and "captured f = map_of (groups q)"
proof -
  have "execFrom r sn xs = Some f \<Longrightarrow> \<exists>q. q \<in> set (attempt r \<lparr>seen = rev (before f), left = matched f @ after f, groups = []\<rparr>)
      \<and> left q = after f \<and> captured f = map_of (groups q)" for sn xs
  proof (induction r sn xs rule: execFrom.induct)
    case (1 r sn)
    obtain q qs where q: "attempt r \<lparr>seen = sn, left = [], groups = []\<rparr> = q # qs" "f = \<lparr>before = rev sn, matched = [], after = [], captured = map_of (groups q)\<rparr>"
      using 1 by (auto split: list.splits)
    have "within_text \<lparr>seen = sn, left = [], groups = []\<rparr> q" by (rule attempt_within [of _ r]) (simp add: q(1))
    then show ?case using q by (auto simp: within_text_def)
  next
    case (2 r sn c cs)
    show ?case
    proof (cases "attempt r \<lparr>seen = sn, left = c # cs, groups = []\<rparr>")
      case Nil
      then show ?thesis using 2 by simp
    next
      case (Cons q qs)
      have w: "within_text \<lparr>seen = sn, left = c # cs, groups = []\<rparr> q" by (rule attempt_within [of _ r]) (simp add: Cons)
      let ?n = "length (c # cs) - length (left q)"
      have "drop ?n (c # cs) = left q"
        by (rule suffix_drop [of "rev (seen q)" _ "rev sn"]) (use w in \<open>simp_all add: within_text_def\<close>)
      then have "take ?n (c # cs) @ left q = c # cs" by (metis append_take_drop_id)
      then show ?thesis using 2(2) Cons by auto
    qed
  qed
  then show ?thesis using assms that by (auto simp: exec_def)
qed

fun captures :: "nat \<Rightarrow> rx \<Rightarrow> bool" where
  "captures n (Group m r) = (m = n \<or> captures n r)"
| "captures n (Cat r q) = (captures n r \<or> captures n q)"
| "captures n (Or r q) = (captures n r \<and> captures n q)"
| "captures n r = False"

text \<open>What every step of a repetition keeps, the repetition keeps.\<close>

lemma many_lifts:
  assumes "\<And>p. R p p" and trans: "\<And>p q r. R p q \<Longrightarrow> R q r \<Longrightarrow> R p r" and step: "\<And>p q. q \<in> set (f p) \<Longrightarrow> R p q"
  shows "q \<in> set (many f n p) \<Longrightarrow> R p q"
proof (induction n arbitrary: p)
  case (Suc n)
  then consider "q = p" | m where "m \<in> set (f p)" "q \<in> set (many f n m)" by (auto split: if_splits)
  then show ?case
  proof cases
    case 2
    then show ?thesis using trans [OF step [OF 2(1)]] Suc.IH by blast
  qed (simp add: assms(1))
qed (simp add: assms(1))

lemma exactly_lifts:
  assumes "\<And>p. R p p" and trans: "\<And>p q r. R p q \<Longrightarrow> R q r \<Longrightarrow> R p r" and step: "\<And>p q. q \<in> set (f p) \<Longrightarrow> R p q"
  shows "q \<in> set (exactly f n p) \<Longrightarrow> R p q"
proof (induction n arbitrary: p)
  case (Suc n)
  then obtain m where m: "m \<in> set (f p)" "q \<in> set (exactly f n m)" by auto
  show ?case by (rule trans [OF step [OF m(1)] Suc.IH [OF m(2)]])
qed (simp add: assms(1))

definition keepsGroups :: "cursor \<Rightarrow> cursor \<Rightarrow> bool" where
  "keepsGroups p q \<longleftrightarrow> fst ` set (groups p) \<subseteq> fst ` set (groups q)"

lemma keeps_refl: "keepsGroups p p" and keeps_trans: "keepsGroups p q \<Longrightarrow> keepsGroups q r \<Longrightarrow> keepsGroups p r"
  by (auto simp: keepsGroups_def)

lemma attempt_groups: "q \<in> set (attempt r p) \<Longrightarrow> keepsGroups p q"
proof (induction r arbitrary: p q)
  case (Cat r1 r2)
  then obtain m where m: "m \<in> set (attempt r1 p)" "q \<in> set (attempt r2 m)" by auto
  show ?case by (rule keeps_trans [OF Cat.IH(1) [OF m(1)] Cat.IH(2) [OF m(2)]])
next
  case (Or r1 r2)
  then consider "q \<in> set (attempt r1 p)" | "q \<in> set (attempt r2 p)" by auto
  then show ?case using Or.IH by cases blast+
next
  case (Star r)
  then have q: "q \<in> set (many (attempt r) (length (left p)) p)" by simp
  show ?case by (rule many_lifts [of keepsGroups, OF keeps_refl keeps_trans Star.IH q])
next
  case (Times n m r)
  then obtain k where k: "k \<in> set (exactly (attempt r) n p)" "q \<in> set (many (attempt r) (m - n) k)" by auto
  show ?case
    by (rule keeps_trans [OF exactly_lifts [of keepsGroups, OF keeps_refl keeps_trans Times.IH k(1)]
          many_lifts [of keepsGroups, OF keeps_refl keeps_trans Times.IH k(2)]])
next
  case (Group n r)
  then obtain m where m: "m \<in> set (attempt r p)" and "fst ` set (groups q) = insert n (fst ` set (groups m))" by auto
  then show ?case using Group.IH [OF m] by (auto simp: keepsGroups_def)
next
  case (Ahead r)
  show ?case
  proof (cases "attempt r p")
    case (Cons m ms)
    then show ?thesis using Ahead.prems Ahead.IH [of m p] by (simp add: keepsGroups_def)
  qed (use Ahead.prems in simp)
next
  case (Cls P)
  then show ?case by (cases "left p") (auto simp: keepsGroups_def split: if_splits)
qed (auto simp: keepsGroups_def split: if_splits)

lemma attempt_captures: "captures n r \<Longrightarrow> q \<in> set (attempt r p) \<Longrightarrow> n \<in> fst ` set (groups q)"
proof (induction r arbitrary: p q)
  case (Cat r1 r2)
  then obtain m where m: "m \<in> set (attempt r1 p)" "q \<in> set (attempt r2 m)" by auto
  then show ?case using Cat.IH(1) [OF _ m(1)] Cat.IH(2) [OF _ m(2)] attempt_groups [OF m(2)] Cat.prems(1) by (auto simp: keepsGroups_def)
next
  case (Group m r)
  then show ?case by fastforce
qed auto

lemma exec_captures:
  assumes "captures n r" "exec r s = Some f"
  shows "captured f n \<noteq> None"
proof -
  obtain q where "q \<in> set (attempt r \<lparr>seen = rev (before f), left = matched f @ after f, groups = []\<rparr>)"
    "captured f = map_of (groups q)" by (rule exec_attempt [OF assms(2)])
  then show ?thesis using attempt_captures [OF assms(1)] by (simp add: map_of_eq_None_iff)
qed

text \<open>What is matched is made of the characters of the classes.\<close>

fun madeOf :: "(char \<Rightarrow> bool) \<Rightarrow> rx \<Rightarrow> bool" where
  "madeOf P (Cls Q) = (\<forall>c. Q c \<longrightarrow> P c)"
| "madeOf P (Cat r q) = (madeOf P r \<and> madeOf P q)"
| "madeOf P (Or r q) = (madeOf P r \<and> madeOf P q)"
| "madeOf P (Star r) = madeOf P r"
| "madeOf P (Times n m r) = madeOf P r"
| "madeOf P (Group n r) = madeOf P r"
| "madeOf P r = True"

definition reads :: "(char \<Rightarrow> bool) \<Rightarrow> cursor \<Rightarrow> cursor \<Rightarrow> bool" where
  "reads P p q \<longleftrightarrow> (\<exists>cs. left p = cs @ left q \<and> list_all P cs)"

lemma reads_refl [simp]: "reads P p p" and reads_groups [simp]: "reads P p (p\<lparr>groups := g\<rparr>)"
  by (simp_all add: reads_def)

lemma reads_trans: "reads P p q \<Longrightarrow> reads P q r \<Longrightarrow> reads P p r"
  unfolding reads_def by (metis append.assoc list_all_append)

lemma attempt_reads: "madeOf P r \<Longrightarrow> q \<in> set (attempt r p) \<Longrightarrow> reads P p q"
proof (induction r arbitrary: p q)
  case (Cat r1 r2)
  then obtain m where "m \<in> set (attempt r1 p)" "q \<in> set (attempt r2 m)" by auto
  then have "reads P p m" "reads P m q" using Cat.IH Cat.prems(1) by simp_all
  then show ?case by (rule reads_trans)
next
  case (Or r1 r2)
  then show ?case by auto
next
  case (Star r)
  then have q: "q \<in> set (many (attempt r) (length (left p)) p)" by simp
  show ?case by (rule many_lifts [of "reads P", OF reads_refl reads_trans _ q]) (use Star in auto)
next
  case (Times n m r)
  then obtain k where k: "k \<in> set (exactly (attempt r) n p)" "q \<in> set (many (attempt r) (m - n) k)" by auto
  have step: "reads P x y" if "y \<in> set (attempt r x)" for x y using Times.IH that Times.prems(1) by simp
  have "reads P p k" by (rule exactly_lifts [of "reads P", OF reads_refl reads_trans step k(1)])
  moreover have "reads P k q" by (rule many_lifts [of "reads P", OF reads_refl reads_trans step k(2)])
  ultimately show ?case by (rule reads_trans)
next
  case (Group n r)
  then show ?case by (fastforce simp: reads_def)
next
  case (Ahead r)
  then show ?case by (auto split: list.splits)
next
  case (Cls Q)
  then show ?case by (cases "left p") (auto simp: reads_def split: if_splits)
qed (auto split: if_splits)

lemma exec_madeOf:
  assumes "madeOf P r" "exec r s = Some f"
  shows "list_all P (matched f)"
proof -
  obtain q where q: "q \<in> set (attempt r \<lparr>seen = rev (before f), left = matched f @ after f, groups = []\<rparr>)" "left q = after f"
    by (rule exec_attempt [OF assms(2)])
  then show ?thesis using attempt_reads [OF assms(1) q(1)] by (auto simp: reads_def)
qed

text \<open>An expression between the two anchors matches the whole string or not at all.\<close>

lemma exec_anchored:
  assumes "exec (Cat Start (Cat r (Cat Finish One))) s = Some f"
  shows "before f = []" "after f = []" "matched f = s"
proof -
  obtain q where q: "q \<in> set (attempt (Cat Start (Cat r (Cat Finish One))) \<lparr>seen = rev (before f), left = matched f @ after f, groups = []\<rparr>)"
    "left q = after f" by (rule exec_attempt [OF assms])
  then show "before f = []" "after f = []" by (auto split: if_splits)
  then show "matched f = s" using exec_splits [OF assms] by simp
qed

end
