(* ===== verification/Quality.thy ===== *)
theory Quality
  imports Js_Regex "HOL-Library.Multiset" "HOL-Library.Product_Lexorder"
begin

text \<open>
  How good a file is: \<open>packages/api/src/services/quality.service.ts\<close>, on the file facts and the
  summaries of \<open>packages/shared/src/models/media.model.ts\<close>. Sizes, bit rates, dimensions and
  durations are whole numbers as the media services report them; the two ratios the code compares
  with a constant are compared by multiplying out, which agrees with the doubles below \<open>2^52\<close>.
  Codec names are not names of properties every JavaScript object has.
\<close>

subsection \<open>Data\<close>

record MediaFileInfo =
  path :: string
  fileSize :: int
  container :: "string option"
  videoCodec :: "string option"
  audioCodec :: "string option"
  width :: "int option"
  height :: "int option"
  durationMs :: "int option"
  bitrate :: "int option"
  quickHash :: "string option"
  contentId :: "string option"
  checksum :: "string option"
  edition :: "string option"

record QualityVariant =
  vlabel :: string
  vVideoCodec :: "string option"
  vResolution :: "string option"
  vHdr :: "string option"
  vAudioCodec :: "string option"
  vAudioChannels :: "string option"
  vContainer :: "string option"
  vCount :: int
  vBytes :: int

record QualitySummary =
  slabel :: string
  mixed :: bool
  dominant :: "QualityVariant option"
  variants :: "QualityVariant list"
  fileCount :: int
  totalBytes :: int

subsection \<open>Tables\<close>

definition RESOLUTION_BANDS :: "(int \<times> string) list" where
  "RESOLUTION_BANDS = [(3000, ''2160p''), (1600, ''1080p''), (1100, ''720p''), (800, ''576p''), (1, ''480p'')]"

definition HEIGHT_BANDS :: "(int \<times> string) list" where
  "HEIGHT_BANDS = [(1700, ''2160p''), (900, ''1080p''), (650, ''720p''), (540, ''576p''), (1, ''480p'')]"

definition VIDEO_CODEC_ALIASES :: "(string \<times> string) list" where
  "VIDEO_CODEC_ALIASES =
     [(''hevc'', ''x265''), (''h265'', ''x265''), (''h.265'', ''x265''), (''x265'', ''x265''),
      (''avc'', ''x264''), (''h264'', ''x264''), (''h.264'', ''x264''), (''x264'', ''x264''), (''avc1'', ''x264''),
      (''mpeg4'', ''xvid''), (''xvid'', ''xvid''), (''divx'', ''xvid''), (''msmpeg4v3'', ''xvid''),
      (''av1'', ''av1''), (''vp9'', ''vp9''), (''vp8'', ''vp8''), (''mpeg2video'', ''mpeg2''), (''mpeg2'', ''mpeg2'')]"

definition AUDIO_CODEC_ALIASES :: "(string \<times> string) list" where
  "AUDIO_CODEC_ALIASES =
     [(''e-ac-3'', ''eac3''), (''eac3'', ''eac3''), (''ec3'', ''eac3''), (''ddp'', ''eac3''),
      (''ac-3'', ''ac3''), (''ac3'', ''ac3''), (''dd'', ''ac3''),
      (''dts-hd'', ''dtshd''), (''dtshd'', ''dtshd''), (''dtsma'', ''dtshd''), (''dts'', ''dts''),
      (''truehd'', ''truehd''), (''mlp'', ''truehd''), (''aac'', ''aac''), (''aac-lc'', ''aac''), (''mp3'', ''mp3''),
      (''flac'', ''flac''), (''opus'', ''opus''), (''vorbis'', ''vorbis''), (''pcm'', ''pcm''), (''lpcm'', ''pcm'')]"

definition CODEC_EFFICIENCY :: "(string \<times> int) list" where
  "CODEC_EFFICIENCY =
     [(''av1'', 4), (''x265'', 3), (''vp9'', 3), (''x264'', 2), (''vp8'', 1), (''xvid'', 1), (''mpeg2'', 0)]"

definition UNKNOWN_CODEC_EFFICIENCY :: int where "UNKNOWN_CODEC_EFFICIENCY = 2"

definition SEPARATE_CUT_FLOOR_MS :: int where "SEPARATE_CUT_FLOOR_MS = 30000"

subsection \<open>Describing a file\<close>

text \<open>\<open>findIndex\<close> over a table of bands; \<open>None\<close> is its \<open>-1\<close>.\<close>

definition bandIndex :: "(int \<times> string) list \<Rightarrow> int option \<Rightarrow> nat option" where
  "bandIndex bands value =
     (case value of
        None \<Rightarrow> None
      | Some n \<Rightarrow> if n \<le> 0 then None else find (\<lambda>i. fst (bands ! i) \<le> n) [0..<length bands])"

definition resolutionLabel :: "int option \<Rightarrow> int option \<Rightarrow> string option" where
  "resolutionLabel h w =
     (case (bandIndex RESOLUTION_BANDS w, bandIndex HEIGHT_BANDS h) of
        (None, None) \<Rightarrow> None
      | (Some i, None) \<Rightarrow> Some (snd (RESOLUTION_BANDS ! i))
      | (None, Some j) \<Rightarrow> Some (snd (RESOLUTION_BANDS ! j))
      | (Some i, Some j) \<Rightarrow> Some (snd (RESOLUTION_BANDS ! min i j)))"

definition normalizeCodec :: "(string \<times> string) list \<Rightarrow> string option \<Rightarrow> string option" where
  "normalizeCodec aliases codec =
     (case codec of
        None \<Rightarrow> None
      | Some c \<Rightarrow>
          let cleaned = filter (\<lambda>d. \<not> isSpace d) (toLowerCase (js_trim c)) in
          if cleaned = [] then None
          else Some (case map_of aliases cleaned of None \<Rightarrow> cleaned | Some known \<Rightarrow> known))"

definition normalizeVideoCodec :: "string option \<Rightarrow> string option" where
  "normalizeVideoCodec = normalizeCodec VIDEO_CODEC_ALIASES"

definition normalizeAudioCodec :: "string option \<Rightarrow> string option" where
  "normalizeAudioCodec = normalizeCodec AUDIO_CODEC_ALIASES"

definition HDR_DV :: rx where
  "HDR_DV = cats [Bound, ors [cats [lit ''dolby'', opt (Cls (oneOf '' ._-'')), lit ''vision''], lit ''dovi'',
     cats [Bound, lit ''dv'', Bound]], Bound]"

definition detectHdr :: "MediaFileInfo \<Rightarrow> string option" where
  "detectHdr file =
     (let haystack = toLowerCase (path file) in
      if test HDR_DV haystack then Some ''DV''
      else if test (Or (lit ''hdr10+'') (lit ''hdr10plus'')) haystack then Some ''HDR10+''
      else if test (cats [Bound, lit ''hdr'', opt (lit ''10''), Bound]) haystack then Some ''HDR10''
      else if test (cats [Bound, lit ''hlg'', Bound]) haystack then Some ''HLG''
      else None)"

definition CHANNELS :: rx where
  "CHANNELS = cats [Bound, Group 1 (Cls (oneOf ''123456789'')), Cls (oneOf ''._''),
     Group 2 (Cls (oneOf ''01'')), Bound]"

definition detectChannels :: "MediaFileInfo \<Rightarrow> string option" where
  "detectChannels file =
     (case exec CHANNELS (path file) of
        None \<Rightarrow> None
      | Some f \<Rightarrow> Some (the (captured f 1) @ ''.'' @ the (captured f 2)))"

definition qlabel :: "string option \<Rightarrow> string option \<Rightarrow> string option \<Rightarrow> string" where
  "qlabel codec resolution hdr =
     (let parts = map the (filter (\<lambda>p. p \<noteq> None \<and> p \<noteq> Some []) [codec, resolution, hdr]) in
      if parts = [] then ''unknown'' else joinWith ('' '' @ [CHR 0xB7] @ '' '') parts)"

text \<open>\<open>Array.prototype.join\<close> writes nothing for a null.\<close>

definition variantKey :: "QualityVariant \<Rightarrow> string" where
  "variantKey v =
     joinWith ''|'' (map (\<lambda>p. case p of None \<Rightarrow> [] | Some s \<Rightarrow> s)
       [vVideoCodec v, vResolution v, vHdr v, vAudioCodec v, vAudioChannels v, vContainer v])"

definition describe :: "MediaFileInfo \<Rightarrow> QualityVariant" where
  "describe file =
     (let codec = normalizeVideoCodec (videoCodec file);
          resolution = resolutionLabel (height file) (width file);
          hdr = detectHdr file
      in \<lparr>vlabel = qlabel codec resolution hdr, vVideoCodec = codec, vResolution = resolution, vHdr = hdr,
          vAudioCodec = normalizeAudioCodec (audioCodec file), vAudioChannels = detectChannels file,
          vContainer = map_option toLowerCase (container file), vCount = 1, vBytes = max 0 (fileSize file)\<rparr>)"

subsection \<open>Summaries\<close>

text \<open>The map of variants by key, in insertion order.\<close>

type_synonym Grouped = "(string \<times> QualityVariant) list"

fun addVariant :: "QualityVariant \<Rightarrow> Grouped \<Rightarrow> Grouped" where
  "addVariant v [] = [(variantKey v, v)]"
| "addVariant v ((key, existing) # grouped) =
     (if key = variantKey v
      then (key, existing\<lparr>vCount := vCount existing + vCount v, vBytes := vBytes existing + vBytes v\<rparr>) # grouped
      else (key, existing) # addVariant v grouped)"

definition assemble :: "Grouped \<Rightarrow> int \<Rightarrow> int \<Rightarrow> QualitySummary" where
  "assemble grouped files byteTotal =
     (let vs = sort_key (\<lambda>v. (- vCount v, - vBytes v)) (map snd grouped);
          top = (case vs of [] \<Rightarrow> None | v # _ \<Rightarrow> Some v)
      in \<lparr>slabel = (if 1 < length vs then ''mixed'' else case top of None \<Rightarrow> ''unknown'' | Some v \<Rightarrow> vlabel v),
          mixed = (1 < length vs), dominant = top, variants = vs, fileCount = files, totalBytes = byteTotal\<rparr>)"

definition summarise :: "MediaFileInfo option list \<Rightarrow> QualitySummary" where
  "summarise files =
     (let present = map the (filter (\<lambda>f. f \<noteq> None) files) in
      assemble (foldl (\<lambda>g file. addVariant (describe file) g) [] present) (int (length present))
        (foldl (\<lambda>n file. n + max 0 (fileSize file)) 0 present))"

definition mergeSummaries :: "QualitySummary option list \<Rightarrow> QualitySummary" where
  "mergeSummaries summaries =
     (let present = map the (filter (\<lambda>s. s \<noteq> None) summaries) in
      assemble (foldl (\<lambda>g s. foldl (\<lambda>g v. addVariant v g) g (variants s)) [] present)
        (foldl (\<lambda>n s. n + fileCount s) 0 present) (foldl (\<lambda>n s. n + totalBytes s) 0 present))"

subsection \<open>Comparing\<close>

datatype QualityAdvantage = ByResolution | ByCodec | ByBitrate | BySize

record QualityComparison =
  order :: int
  advantage :: "QualityAdvantage option"
  reason :: "string option"

definition orUnknown :: "string option \<Rightarrow> string" where
  "orUnknown s = (case s of None \<Rightarrow> ''unknown'' | Some t \<Rightarrow> t)"

definition efficiency :: "string option \<Rightarrow> int" where
  "efficiency codec =
     (case codec of
        None \<Rightarrow> UNKNOWN_CODEC_EFFICIENCY
      | Some c \<Rightarrow> (case map_of CODEC_EFFICIENCY c of None \<Rightarrow> UNKNOWN_CODEC_EFFICIENCY | Some e \<Rightarrow> e))"

text \<open>The significance is one part in \<open>parts\<close>: ten for a bit rate, twenty for a size.\<close>

definition significantOrder :: "int option \<Rightarrow> int option \<Rightarrow> int \<Rightarrow> int" where
  "significantOrder candidate current parts =
     (case (candidate, current) of
        (Some a, Some b) \<Rightarrow>
          if a \<le> 0 \<or> b \<le> 0 then 0
          else if parts * \<bar>a - b\<bar> < max a b then 0
          else sgn (a - b)
      | _ \<Rightarrow> 0)"

definition orZero :: "int option \<Rightarrow> int" where
  "orZero n = (case n of None \<Rightarrow> 0 | Some v \<Rightarrow> v)"

definition compareFiles :: "MediaFileInfo option \<Rightarrow> MediaFileInfo option \<Rightarrow> QualityComparison" where
  "compareFiles candidate current =
     (case (candidate, current) of
        (Some a, Some b) \<Rightarrow>
          let ha = orZero (height a); hb = orZero (height b);
              ra = resolutionLabel (height a) (width a); rb = resolutionLabel (height b) (width b) in
          if ra \<noteq> rb \<and> (ha \<noteq> 0 \<or> hb \<noteq> 0)
          then \<lparr>order = sgn (ha - hb), advantage = Some ByResolution,
                reason = Some (if 0 < ha - hb then ''higher resolution ('' @ orUnknown ra @ '' over '' @ orUnknown rb @ '')''
                               else ''lower resolution ('' @ orUnknown ra @ '' against '' @ orUnknown rb @ '')'')\<rparr>
          else
            let ca = normalizeVideoCodec (videoCodec a); cb = normalizeVideoCodec (videoCodec b);
                ea = efficiency ca; eb = efficiency cb in
            if ea \<noteq> eb
            then \<lparr>order = sgn (ea - eb), advantage = Some ByCodec,
                  reason = Some (if 0 < ea - eb then ''more efficient codec ('' @ orUnknown ca @ '' over '' @ orUnknown cb @ '')''
                                 else ''less efficient codec ('' @ orUnknown ca @ '' against '' @ orUnknown cb @ '')'')\<rparr>
            else
              let bit = significantOrder (bitrate a) (bitrate b) 10 in
              if bit \<noteq> 0
              then \<lparr>order = bit, advantage = Some ByBitrate,
                    reason = Some (if 0 < bit then ''higher bitrate at equal resolution'' else ''lower bitrate'')\<rparr>
              else
                let big = significantOrder (Some (fileSize a)) (Some (fileSize b)) 20 in
                if big \<noteq> 0
                then \<lparr>order = big, advantage = Some BySize,
                      reason = Some (if 0 < big then ''larger file at equal resolution and codec'' else ''smaller file'')\<rparr>
                else \<lparr>order = 0, advantage = None, reason = None\<rparr>
      | _ \<Rightarrow> \<lparr>order = 0, advantage = None, reason = None\<rparr>)"

definition isBetter :: "MediaFileInfo option \<Rightarrow> MediaFileInfo option \<Rightarrow> bool" where
  "isBetter candidate current \<longleftrightarrow> 0 < order (compareFiles candidate current)"

definition isConflicting :: "MediaFileInfo option \<Rightarrow> MediaFileInfo option \<Rightarrow> bool" where
  "isConflicting l r \<longleftrightarrow>
     (case (l, r) of
        (Some a, Some b) \<Rightarrow>
          (case (durationMs a, durationMs b) of
             (Some x, Some y) \<Rightarrow>
               0 < max x y \<and> (120000 < \<bar>x - y\<bar> \<or> SEPARATE_CUT_FLOOR_MS < \<bar>x - y\<bar> \<and> max x y < 20 * \<bar>x - y\<bar>)
           | _ \<Rightarrow> False)
      | _ \<Rightarrow> False)"

lemma isConflicting_sym: "isConflicting l r = isConflicting r l"
  by (simp add: isConflicting_def max.commute abs_minus_commute split: option.splits)

subsection \<open>Neither copy beats the other back\<close>

lemma significantOrder_swap: "significantOrder b a n = - significantOrder a b n"
  by (auto simp: significantOrder_def max.commute abs_minus_commute sgn_if split: option.splits)

text \<open>
  Two copies never beat each other in turn: the verdict from the other side is the opposite
  one, on the same ground. So a sync that replaces a copy by a better one does not replace it back.
\<close>

lemma compare_is_antisymmetric:
  "order (compareFiles b a) = - order (compareFiles a b)
   \<and> advantage (compareFiles b a) = advantage (compareFiles a b)
   \<and> \<not> (isBetter a b \<and> isBetter b a)"
proof -
  have "order (compareFiles b a) = - order (compareFiles a b) \<and> advantage (compareFiles b a) = advantage (compareFiles a b)"
  proof (cases "a = None \<or> b = None")
    case True
    then show ?thesis by (auto simp: compareFiles_def split: option.splits)
  next
    case False
    then obtain x y where ab: "a = Some x" "b = Some y" by auto
    note swap = significantOrder_swap [of "bitrate y" "bitrate x" 10] significantOrder_swap [of "Some (fileSize y)" "Some (fileSize x)" 20]
    show ?thesis by (auto simp: compareFiles_def ab Let_def swap sgn_if)
  qed
  then show ?thesis by (simp add: isBetter_def)
qed

text \<open>
  Three copies may beat each other in a circle: differences below the significance do not add up.
\<close>

definition copyOf :: "int \<Rightarrow> int \<Rightarrow> MediaFileInfo" where
  "copyOf rate bytes = \<lparr>path = ''a.mkv'', fileSize = bytes, container = None, videoCodec = Some ''x264'', audioCodec = None,
     width = Some 1920, height = Some 1080, durationMs = None, bitrate = Some rate, quickHash = None,
     contentId = None, checksum = None, edition = None\<rparr>"

lemma better_runs_in_a_circle:
  "isBetter (Some (copyOf 100 1300)) (Some (copyOf 109 1150)) \<and> isBetter (Some (copyOf 109 1150)) (Some (copyOf 118 1000))
   \<and> isBetter (Some (copyOf 118 1000)) (Some (copyOf 100 1300))"
  by (simp add: isBetter_def compareFiles_def copyOf_def significantOrder_def Let_def)

text \<open>
  The label reads both dimensions and the order only the height: two files of different resolution
  and one height are equal, and a wide master loses to a taller one of a lower resolution.
\<close>

definition framed :: "int \<Rightarrow> int \<Rightarrow> MediaFileInfo" where
  "framed w h = (copyOf 100 1000)\<lparr>width := Some w, height := Some h\<rparr>"

lemma height_overrules_resolution:
  "resolutionLabel (Some 804) (Some 1920) = Some ''1080p'' \<and> resolutionLabel (Some 850) (Some 1280) = Some ''720p''
   \<and> isBetter (Some (framed 1280 850)) (Some (framed 1920 804))
   \<and> \<not> isBetter (Some (framed 1920 800)) (Some (framed 1280 800))"
  by (simp add: resolutionLabel_def bandIndex_def RESOLUTION_BANDS_def HEIGHT_BANDS_def upt_rec isBetter_def compareFiles_def
      framed_def copyOf_def orZero_def Let_def)

subsection \<open>Grouping\<close>

definition grouped :: "QualityVariant list \<Rightarrow> Grouped" where
  "grouped vs = foldl (\<lambda>g v. addVariant v g) [] vs"

text \<open>What the map holds under a key: the first variant with it, and the sums over all of them.\<close>

definition groupOf :: "QualityVariant list \<Rightarrow> string \<Rightarrow> QualityVariant option" where
  "groupOf vs key =
     (case filter (\<lambda>v. variantKey v = key) vs of
        [] \<Rightarrow> None
      | v # ws \<Rightarrow> Some (v\<lparr>vCount := sum_list (map vCount (v # ws)), vBytes := sum_list (map vBytes (v # ws))\<rparr>))"

lemma variantKey_counts [simp]: "variantKey (v\<lparr>vCount := n, vBytes := m\<rparr>) = variantKey v"
  by (simp add: variantKey_def)

lemma map_of_addVariant:
  "map_of (addVariant v g) key =
     (if key = variantKey v
      then Some (case map_of g key of
          None \<Rightarrow> v
        | Some e \<Rightarrow> e\<lparr>vCount := vCount e + vCount v, vBytes := vBytes e + vBytes v\<rparr>)
      else map_of g key)"
  by (induction v g rule: addVariant.induct) auto

lemma addVariant_keys: "fst ` set (addVariant v g) = insert (variantKey v) (fst ` set g)"
  by (induction v g rule: addVariant.induct) auto

lemma addVariant_distinct: "distinct (map fst g) \<Longrightarrow> distinct (map fst (addVariant v g))"
proof (induction v g rule: addVariant.induct)
  case (2 v key e g)
  then show ?case using addVariant_keys [of v g] by (auto simp flip: set_map)
qed simp

lemma addVariant_keyed: "list_all (\<lambda>(k, w). variantKey w = k) g \<Longrightarrow> list_all (\<lambda>(k, w). variantKey w = k) (addVariant v g)"
  by (induction v g rule: addVariant.induct) auto

lemma grouped_snoc: "grouped (vs @ [v]) = addVariant v (grouped vs)"
  by (simp add: grouped_def)

lemma grouped_ok: "distinct (map fst (grouped vs)) \<and> list_all (\<lambda>(k, w). variantKey w = k) (grouped vs)"
  by (induction vs rule: rev_induct) (auto simp: grouped_def addVariant_distinct addVariant_keyed)

lemma groupOf_snoc:
  "groupOf (vs @ [v]) key =
     (if key = variantKey v
      then Some (case groupOf vs key of
          None \<Rightarrow> v
        | Some e \<Rightarrow> e\<lparr>vCount := vCount e + vCount v, vBytes := vBytes e + vBytes v\<rparr>)
      else groupOf vs key)"
  by (auto simp: groupOf_def add_ac split: list.splits)

lemma map_of_grouped: "map_of (grouped vs) key = groupOf vs key"
proof (induction vs rule: rev_induct)
  case Nil
  then show ?case by (simp add: grouped_def groupOf_def)
next
  case (snoc v vs)
  then show ?case by (auto simp: grouped_snoc map_of_addVariant groupOf_snoc)
qed

text \<open>Maps with the same answers hold the same variants, whatever the order of insertion.\<close>

lemma mset_grouped_eq:
  assumes "\<And>key. groupOf vs key = groupOf ws key"
  shows "mset (map snd (grouped vs)) = mset (map snd (grouped ws))"
proof -
  have d: "distinct (map fst (grouped vs))" "distinct (map fst (grouped ws))" using grouped_ok by blast+
  have "set (grouped vs) = set (grouped ws)"
    using assms by (intro map_of_inject_set [THEN iffD1, OF d]) (auto simp: map_of_grouped)
  then have "mset (grouped vs) = mset (grouped ws)"
    using d by (simp add: set_eq_iff_mset_eq_distinct [symmetric] distinct_map)
  then show ?thesis by simp
qed

lemma filter_grouped:
  "filter (\<lambda>v. variantKey v = key) (map snd (grouped vs)) = (case groupOf vs key of None \<Rightarrow> [] | Some v \<Rightarrow> [v])"
proof -
  have "distinct (map fst g) \<Longrightarrow> list_all (\<lambda>(k, w). variantKey w = k) g \<Longrightarrow>
    filter (\<lambda>v. variantKey v = key) (map snd g) = (case map_of g key of None \<Rightarrow> [] | Some v \<Rightarrow> [v])" for g
  proof (induction g)
    case (Cons e g)
    have "map_of g key = None \<Longrightarrow> filter (\<lambda>v. variantKey v = key) (map snd g) = []" using Cons by auto
    then show ?case using Cons by (cases e) (auto simp: map_of_eq_None_iff)
  qed simp
  then show ?thesis using grouped_ok by (simp add: map_of_grouped)
qed

text \<open>Of a permutation of the map's values only the multiset matters, each key being there once.\<close>

lemma filter_perm_grouped:
  assumes "mset ws = mset (map snd (grouped vs))"
  shows "filter (\<lambda>v. variantKey v = key) ws = (case groupOf vs key of None \<Rightarrow> [] | Some v \<Rightarrow> [v])"
proof -
  have "mset (filter (\<lambda>v. variantKey v = key) ws) = mset (case groupOf vs key of None \<Rightarrow> [] | Some v \<Rightarrow> [v])"
    using assms filter_grouped [of key vs] by (metis mset_filter)
  then show ?thesis by (auto simp del: mset_filter split: option.splits)
qed

definition sumVariants :: "QualityVariant list \<Rightarrow> QualityVariant option" where
  "sumVariants vs =
     (case vs of [] \<Rightarrow> None
      | v # ws \<Rightarrow> Some (v\<lparr>vCount := sum_list (map vCount (v # ws)), vBytes := sum_list (map vBytes (v # ws))\<rparr>))"

lemma groupOf_sum: "groupOf vs key = sumVariants (filter (\<lambda>v. variantKey v = key) vs)"
  by (simp add: groupOf_def sumVariants_def)

lemma sumVariants_parts:
  "sumVariants (concat (map (\<lambda>p. case sumVariants p of None \<Rightarrow> [] | Some v \<Rightarrow> [v]) ps)) = sumVariants (concat ps)"
proof -
  have counts: "sum_list (map vCount (concat (map (\<lambda>p. case sumVariants p of None \<Rightarrow> [] | Some v \<Rightarrow> [v]) ps))) = sum_list (map vCount (concat ps))"
    "sum_list (map vBytes (concat (map (\<lambda>p. case sumVariants p of None \<Rightarrow> [] | Some v \<Rightarrow> [v]) ps))) = sum_list (map vBytes (concat ps))" for ps
    by (induction ps) (auto simp: sumVariants_def split: list.splits)
  show ?thesis
  proof (induction ps)
    case (Cons p ps)
    show ?case
    proof (cases p)
      case Nil
      then show ?thesis using Cons by (simp add: sumVariants_def)
    next
      case (Cons v ws)
      then show ?thesis using counts [of ps] by (simp add: sumVariants_def add_ac)
    qed
  qed simp
qed

lemma groupOf_parts:
  assumes "list_all2 (\<lambda>ws vs. mset ws = mset (map snd (grouped vs))) wss vss"
  shows "groupOf (concat wss) key = groupOf (concat vss) key"
proof -
  let ?f = "filter (\<lambda>v. variantKey v = key)"
  have "map ?f wss = map (\<lambda>vs. case groupOf vs key of None \<Rightarrow> [] | Some v \<Rightarrow> [v]) vss"
    using assms by (induction rule: list_all2_induct) (auto simp: filter_perm_grouped)
  then have "?f (concat wss) = concat (map (\<lambda>p. case sumVariants p of None \<Rightarrow> [] | Some v \<Rightarrow> [v]) (map ?f vss))"
    by (simp add: filter_concat groupOf_sum comp_def)
  then show ?thesis using sumVariants_parts [of "map ?f vss"] by (simp add: groupOf_sum filter_concat)
qed

subsection \<open>One definition of mixed\<close>

definition present :: "'a option list \<Rightarrow> 'a list" where
  "present xs = map the (filter (\<lambda>x. x \<noteq> None) xs)"

lemma present_Some: "present (map Some xs) = xs"
  by (induction xs) (auto simp: present_def)

lemma foldl_add: "foldl (\<lambda>n x. n + f x) (a :: int) xs = a + sum_list (map f xs)"
  by (induction xs arbitrary: a) auto

lemma summarise_grouped:
  "summarise files = assemble (grouped (map describe (present files))) (int (length (present files)))
     (sum_list (map (\<lambda>f. max 0 (fileSize f)) (present files)))"
proof -
  have "foldl (\<lambda>g file. addVariant (describe file) g) g fs = foldl (\<lambda>g v. addVariant v g) g (map describe fs)" for g fs
    by (induction fs arbitrary: g) auto
  then show ?thesis by (simp add: summarise_def Let_def foldl_add grouped_def present_def)
qed

lemma merge_grouped:
  "mergeSummaries (map Some ss) = assemble (grouped (concat (map variants ss))) (sum_list (map fileCount ss)) (sum_list (map totalBytes ss))"
proof -
  have "foldl (\<lambda>g s. foldl (\<lambda>g v. addVariant v g) g (variants s)) g ss = foldl (\<lambda>g v. addVariant v g) g (concat (map variants ss))" for g
    by (induction ss arbitrary: g) auto
  then show ?thesis using present_Some [of ss]
    by (simp add: mergeSummaries_def Let_def foldl_add grouped_def present_def)
qed

lemma assemble_variants: "mset (variants (assemble g n b)) = mset (map snd g)"
  "mixed (assemble g n b) \<longleftrightarrow> 1 < length g" "fileCount (assemble g n b) = n" "totalBytes (assemble g n b) = b"
  by (simp_all add: assemble_def Let_def)

lemma assemble_label:
  assumes "mset (map snd g) = mset (map snd h)"
  shows "slabel (assemble g n b) = slabel (assemble h n' b')"
proof -
  let ?s = "sort_key (\<lambda>v. (- vCount v, - vBytes v))"
  have same: "mset (?s (map snd g)) = mset (?s (map snd h))" using assms by simp
  have len: "length (?s (map snd g)) = length (?s (map snd h))" using mset_eq_length [OF same] .
  show ?thesis
  proof (cases "1 < length (?s (map snd g))")
    case True
    then show ?thesis using len by (simp add: assemble_def Let_def)
  next
    case False
    then have "?s (map snd g) = ?s (map snd h)" using same len
      by (cases "?s (map snd g)"; cases "?s (map snd h)") (auto simp: length_Suc_conv)
    then show ?thesis by (simp add: assemble_def Let_def)
  qed
qed

text \<open>
  (C36) Folding the summaries of several sets of files says what summarising all the files together
  says: the same variants with the same counts and bytes, the same label and the same answer to
  whether they are mixed, and the same totals. Only the order of variants that tie may differ.
\<close>

theorem merge_agrees_with_summarise:
  "let merged = mergeSummaries (map (\<lambda>files. Some (summarise files)) parts); whole = summarise (concat parts) in
     mset (variants merged) = mset (variants whole) \<and> slabel merged = slabel whole \<and> mixed merged = mixed whole
     \<and> fileCount merged = fileCount whole \<and> totalBytes merged = totalBytes whole
     \<and> sorted (map (\<lambda>v. (- vCount v, - vBytes v)) (variants merged))"
proof -
  let ?parts = "map (\<lambda>files. map describe (present files)) parts"
  let ?ss = "map summarise parts"
  have merged: "mergeSummaries (map (\<lambda>files. Some (summarise files)) parts) = mergeSummaries (map Some ?ss)" by (simp add: comp_def)
  have whole: "concat ?parts = map describe (present (concat parts))" by (induction parts) (simp_all add: present_def)
  have "groupOf (concat (map variants ?ss)) key = groupOf (concat ?parts) key" for key
    by (rule groupOf_parts) (auto simp: list_all2_conv_all_nth summarise_grouped assemble_variants)
  then have same: "mset (map snd (grouped (concat (map variants ?ss)))) = mset (map snd (grouped (concat ?parts)))"
    by (rule mset_grouped_eq)
  have count: "sum_list (map fileCount ?ss) = int (length (present (concat parts)))"
    by (induction parts) (simp_all add: summarise_grouped assemble_variants present_def)
  have size: "sum_list (map totalBytes ?ss) = sum_list (map (\<lambda>f. max 0 (fileSize f)) (present (concat parts)))"
    by (induction parts) (simp_all add: summarise_grouped assemble_variants present_def)
  have len: "length (grouped (concat (map variants ?ss))) = length (grouped (concat ?parts))"
    using mset_eq_length [OF same] by simp
  show ?thesis
    unfolding merged merge_grouped summarise_grouped [of "concat parts"] Let_def assemble_variants
    using same len count size assemble_label [OF same] by (simp add: whole [symmetric] assemble_def Let_def)
qed

end
