(* ===== verification/Media_Override.thy ===== *)
theory Media_Override
  imports Js_Regex
begin

text \<open>
  Corrections somebody made to what a media server reports:
  \<open>packages/api/src/services/media-override.ts\<close>, with the season folders of \<open>season-folder.ts\<close> a
  pinned destination is read through. A field of an override is absent, null or a value
  (\<open>None\<close>, \<open>Some None\<close>, \<open>Some (Some v)\<close>), and so are the two columns of an item that not
  every caller carries. The normalisation of titles is a parameter, as it is in the code.
\<close>

subsection \<open>Data\<close>

type_synonym 'a field = "'a option option"

datatype MediaKind = MOVIE | SERIES | SEASON | EPISODE | COLLECTION

record ExternalIds =
  tvdb :: "string option"
  tmdb :: "string option"
  imdb :: "string option"
  musicbrainz :: "string option"
  provider :: "string option"

record MediaOverride =
  oLibraryId :: "string field"
  oTargetFolder :: "string field"
  oTitle :: "string field"
  oSeriesTitle :: "string field"
  oYear :: "int field"
  oSeasonNumber :: "int field"
  oEpisodeNumber :: "int field"
  oEpisodeNumberEnd :: "int field"
  oOverview :: "string field"
  oExternalIds :: "ExternalIds option"
  oIgnored :: "bool option"
  oReleasePreference :: "string field"

definition noOverride :: MediaOverride where
  "noOverride = \<lparr>oLibraryId = None, oTargetFolder = None, oTitle = None, oSeriesTitle = None, oYear = None,
     oSeasonNumber = None, oEpisodeNumber = None, oEpisodeNumberEnd = None, oOverview = None, oExternalIds = None,
     oIgnored = None, oReleasePreference = None\<rparr>"

record MediaReported =
  rLibraryId :: string
  rTitle :: string
  rSeriesTitle :: "string option"
  rYear :: "int option"
  rSeasonNumber :: "int option"
  rEpisodeNumber :: "int option"
  rEpisodeNumberEnd :: "int field"
  rOverview :: "string option"
  rExternalIds :: ExternalIds

record OverridableItem =
  libraryId :: string
  title :: string
  normalizedTitle :: string
  seriesTitle :: "string field"
  year :: "int option"
  seasonNumber :: "int option"
  episodeNumber :: "int option"
  episodeNumberEnd :: "int field"
  overview :: "string option"
  externalIds :: ExternalIds
  overrides :: "MediaOverride option"
  reported :: "MediaReported option"
  ignored :: bool

subsection \<open>Pruning\<close>

text \<open>\<open>delete\<close> of a field that says what the service says; an absent field stays absent.\<close>

definition unlessSame :: "'a \<Rightarrow> 'a option \<Rightarrow> 'a option" where
  "unlessSame said given = (if given = Some said then None else given)"

definition identifiersLeft :: "ExternalIds \<Rightarrow> ExternalIds \<Rightarrow> ExternalIds" where
  "identifiersLeft given said =
     \<lparr>tvdb = (if tvdb given = tvdb said then None else tvdb given),
      tmdb = (if tmdb given = tmdb said then None else tmdb given),
      imdb = (if imdb given = imdb said then None else imdb given),
      musicbrainz = (if musicbrainz given = musicbrainz said then None else musicbrainz given),
      provider = (if provider given = provider said then None else provider given)\<rparr>"

definition noIds :: ExternalIds where
  "noIds = \<lparr>tvdb = None, tmdb = None, imdb = None, musicbrainz = None, provider = None\<rparr>"

definition withoutUnchanged :: "MediaOverride option \<Rightarrow> MediaReported \<Rightarrow> MediaOverride" where
  "withoutUnchanged override said =
     (case override of
        None \<Rightarrow> noOverride
      | Some given \<Rightarrow>
          \<lparr>oLibraryId = unlessSame (Some (rLibraryId said)) (oLibraryId given),
           oTargetFolder = (if oTargetFolder given = Some None \<or> oTargetFolder given = Some (Some []) then None
                            else oTargetFolder given),
           oTitle = unlessSame (Some (rTitle said)) (oTitle given),
           oSeriesTitle = unlessSame (rSeriesTitle said) (oSeriesTitle given),
           oYear = unlessSame (rYear said) (oYear given),
           oSeasonNumber = unlessSame (rSeasonNumber said) (oSeasonNumber given),
           oEpisodeNumber = unlessSame (rEpisodeNumber said) (oEpisodeNumber given),
           oEpisodeNumberEnd = (if oEpisodeNumberEnd given = rEpisodeNumberEnd said then None else oEpisodeNumberEnd given),
           oOverview = unlessSame (rOverview said) (oOverview given),
           oExternalIds =
             (case oExternalIds given of
                None \<Rightarrow> None
              | Some ids \<Rightarrow>
                  let leftOver = identifiersLeft ids (rExternalIds said) in
                  if leftOver = noIds then None else Some leftOver),
           oIgnored = (if oIgnored given = Some True then Some True else None),
           oReleasePreference = oReleasePreference given\<rparr>)"

subsection \<open>Applying\<close>

definition orNull :: "'a field \<Rightarrow> 'a option" where
  "orNull f = (case f of None \<Rightarrow> None | Some v \<Rightarrow> v)"

definition snapshotReported :: "OverridableItem \<Rightarrow> MediaReported" where
  "snapshotReported item =
     \<lparr>rLibraryId = libraryId item, rTitle = title item, rSeriesTitle = orNull (seriesTitle item), rYear = year item,
      rSeasonNumber = seasonNumber item, rEpisodeNumber = episodeNumber item,
      rEpisodeNumberEnd = Some (orNull (episodeNumberEnd item)), rOverview = overview item,
      rExternalIds = externalIds item\<rparr>"

definition seriesOrOwn :: "OverridableItem \<Rightarrow> string" where
  "seriesOrOwn item =
     (case seriesTitle item of
        Some (Some s) \<Rightarrow> if js_trim s = [] then title item else js_trim s
      | _ \<Rightarrow> title item)"

text \<open>The item as the service said it.\<close>

definition restoreReported :: "MediaReported \<Rightarrow> OverridableItem \<Rightarrow> OverridableItem" where
  "restoreReported said item =
     item\<lparr>ignored := False, libraryId := rLibraryId said, title := rTitle said, year := rYear said,
          seasonNumber := rSeasonNumber said, episodeNumber := rEpisodeNumber said, overview := rOverview said,
          externalIds := rExternalIds said,
          seriesTitle := (if seriesTitle item = None then None else Some (rSeriesTitle said)),
          episodeNumberEnd := (if episodeNumberEnd item = None then None else Some (orNull (rEpisodeNumberEnd said)))\<rparr>"

definition mergeIds :: "ExternalIds \<Rightarrow> ExternalIds \<Rightarrow> ExternalIds" where
  "mergeIds said given =
     \<lparr>tvdb = (if tvdb given = None then tvdb said else tvdb given),
      tmdb = (if tmdb given = None then tmdb said else tmdb given),
      imdb = (if imdb given = None then imdb said else imdb given),
      musicbrainz = (if musicbrainz given = None then musicbrainz said else musicbrainz given),
      provider = (if provider given = None then provider said else provider given)\<rparr>"

definition orKeep :: "'a \<Rightarrow> 'a option \<Rightarrow> 'a" where
  "orKeep old given = (case given of None \<Rightarrow> old | Some v \<Rightarrow> v)"

definition applyFields :: "MediaOverride \<Rightarrow> MediaReported \<Rightarrow> OverridableItem \<Rightarrow> OverridableItem" where
  "applyFields ov said item =
     item\<lparr>libraryId := orKeep (libraryId item) (orNull (oLibraryId ov)),
          title := orKeep (title item) (orNull (oTitle ov)),
          seriesTitle := (if seriesTitle item = None then None else Some (orKeep (orNull (seriesTitle item)) (oSeriesTitle ov))),
          year := orKeep (year item) (oYear ov),
          seasonNumber := orKeep (seasonNumber item) (oSeasonNumber ov),
          episodeNumber := orKeep (episodeNumber item) (oEpisodeNumber ov),
          episodeNumberEnd := (if episodeNumberEnd item = None then None
                               else Some (orKeep (orNull (episodeNumberEnd item)) (oEpisodeNumberEnd ov))),
          overview := orKeep (overview item) (oOverview ov),
          externalIds := (case oExternalIds ov of None \<Rightarrow> externalIds item | Some ids \<Rightarrow> mergeIds (rExternalIds said) ids),
          ignored := (case oIgnored ov of None \<Rightarrow> ignored item | Some b \<Rightarrow> b)\<rparr>"

definition applyOverride :: "(string \<Rightarrow> string) \<Rightarrow> MediaOverride option \<Rightarrow> OverridableItem \<Rightarrow> OverridableItem" where
  "applyOverride reduceTitle instruction item =
     (let said = (case reported item of Some r \<Rightarrow> r | None \<Rightarrow> snapshotReported item);
          override = withoutUnchanged instruction said;
          plain = restoreReported said item
      in if override = noOverride
         then plain\<lparr>overrides := None, reported := None, ignored := False, normalizedTitle := reduceTitle (seriesOrOwn plain)\<rparr>
         else let corrected = (applyFields override said plain)\<lparr>overrides := Some override, reported := Some said\<rparr>
              in corrected\<lparr>normalizedTitle := reduceTitle (seriesOrOwn corrected)\<rparr>)"

text \<open>A scan has just written what the service says; the instruction kept on the row is applied to it again.\<close>

definition rescanned :: "(string \<Rightarrow> string) \<Rightarrow> OverridableItem \<Rightarrow> OverridableItem" where
  "rescanned reduceTitle row =
     (if overrides row = None then row else applyOverride reduceTitle (overrides row) (row\<lparr>reported := None\<rparr>))"

subsection \<open>Season folders and pins\<close>

definition SEASON_FOLDER :: rx where
  "SEASON_FOLDER = cats [Start, ors [liti ''season'', liti ''saison'', liti ''series'', liti ''s''], Star (Cls isSpace),
     opt (lit ''.''), Star (Cls isSpace), Group 1 (Times 1 3 (Cls isDigit)), Finish]"

definition seasonFolderNumber :: "string \<Rightarrow> nat option" where
  "seasonFolderNumber segment = map_option (\<lambda>f. parseDigits (the (captured f 1))) (exec SEASON_FOLDER (js_trim segment))"

definition TRAILING_NUMBER :: rx where
  "TRAILING_NUMBER = cats [Times 1 3 (Cls isDigit), Star (Cls isSpace), Finish]"

definition dropTrailingSlashes :: "string \<Rightarrow> string" where
  "dropTrailingSlashes p = rev (dropWhile (\<lambda>c. c = CHR ''/'') (rev p))"

definition withSeasonNumber :: "string \<Rightarrow> nat \<Rightarrow> string option" where
  "withSeasonNumber p season =
     (let segments = splitOn (CHR ''/'') (dropTrailingSlashes p); segment = last segments in
      case exec SEASON_FOLDER (js_trim segment) of
        None \<Rightarrow> None
      | Some f \<Rightarrow>
          let digits = the (captured f 1);
              padded = (if 1 < length digits then padStart (length digits) (CHR ''0'') (showNat season) else showNat season)
          in Some (joinWith ''/'' (butlast segments @ [replaceFirst TRAILING_NUMBER segment padded])))"

fun pinnedFolderOf :: "MediaOverride option list \<Rightarrow> nat option \<Rightarrow> string option" where
  "pinnedFolderOf [] season = None"
| "pinnedFolderOf (row # rows) season =
     (case row of
        Some ov \<Rightarrow>
          (case orNull (oTargetFolder ov) of
             None \<Rightarrow> pinnedFolderOf rows season
           | Some folder \<Rightarrow>
               if js_trim folder = [] then pinnedFolderOf rows season
               else case season of
                 None \<Rightarrow> Some folder
               | Some n \<Rightarrow> Some (case withSeasonNumber folder n of None \<Rightarrow> folder | Some renumbered \<Rightarrow> renumbered))
      | None \<Rightarrow> pinnedFolderOf rows season)"

subsection \<open>The last correction is the one in force\<close>

text \<open>What the service said, as an item remembers it.\<close>

definition saidOf :: "OverridableItem \<Rightarrow> MediaReported" where
  "saidOf item = (case reported item of Some r \<Rightarrow> r | None \<Rightarrow> snapshotReported item)"

text \<open>A row of the index: it has both optional columns, and so has the snapshot it keeps.\<close>

definition isRow :: "OverridableItem \<Rightarrow> bool" where
  "isRow item \<longleftrightarrow> seriesTitle item \<noteq> None \<and> episodeNumberEnd item \<noteq> None
     \<and> (case reported item of None \<Rightarrow> True | Some r \<Rightarrow> rEpisodeNumberEnd r \<noteq> None)"

lemma restore_row:
  assumes "isRow item"
  shows "restoreReported said item =
     \<lparr>libraryId = rLibraryId said, title = rTitle said, normalizedTitle = normalizedTitle item,
      seriesTitle = Some (rSeriesTitle said), year = rYear said, seasonNumber = rSeasonNumber said,
      episodeNumber = rEpisodeNumber said, episodeNumberEnd = Some (orNull (rEpisodeNumberEnd said)),
      overview = rOverview said, externalIds = rExternalIds said, overrides = overrides item, reported = reported item,
      ignored = False\<rparr>"
  using assms by (cases item) (simp add: restoreReported_def isRow_def)

lemma apply_said:
  assumes "isRow item"
  shows "saidOf (applyOverride reduceTitle i item) = saidOf item" "isRow (applyOverride reduceTitle i item)"
proof -
  have e: "rEpisodeNumberEnd (saidOf item) \<noteq> None"
    using assms by (auto simp: saidOf_def isRow_def snapshotReported_def split: option.splits)
  then have "Some (orNull (rEpisodeNumberEnd (saidOf item))) = rEpisodeNumberEnd (saidOf item)" by (auto simp: orNull_def)
  then show "saidOf (applyOverride reduceTitle i item) = saidOf item"
    by (cases "saidOf item")
       (simp add: applyOverride_def Let_def saidOf_def [symmetric] restore_row [OF assms], simp add: saidOf_def snapshotReported_def orNull_def)
  show "isRow (applyOverride reduceTitle i item)"
    using e by (simp add: applyOverride_def Let_def saidOf_def [symmetric] restore_row [OF assms] isRow_def applyFields_def)
qed

text \<open>An applied row depends on the row only through what the service said.\<close>

lemma apply_depends_on_said:
  assumes "isRow item" "isRow item'" "saidOf item = saidOf item'"
  shows "applyOverride reduceTitle i item = applyOverride reduceTitle i item'"
  using assms
  by (simp add: applyOverride_def Let_def saidOf_def [symmetric] restore_row applyFields_def seriesOrOwn_def
      cong: option.case_cong if_cong)

text \<open>
  Corrections do not pile up: applying one to a row that already carries another gives, field
  for field, what applying it to the uncorrected row gives, whatever the two say.
\<close>

lemma last_correction_wins:
  assumes "isRow item"
  shows "applyOverride reduceTitle later (applyOverride reduceTitle earlier item) = applyOverride reduceTitle later item"
  using apply_depends_on_said [OF apply_said(2) [OF assms] assms apply_said(1) [OF assms]] .

definition sampleRow :: OverridableItem where
  "sampleRow = \<lparr>libraryId = ''films'', title = ''Alien'', normalizedTitle = ''Alien'', seriesTitle = Some None, year = Some 1979,
     seasonNumber = None, episodeNumber = None, episodeNumberEnd = Some None, overview = None, externalIds = noIds,
     overrides = None, reported = None, ignored = False\<rparr>"

lemma last_correction_wins_witness:
  "isRow sampleRow
   \<and> year (applyOverride (\<lambda>t. t) (Some (noOverride\<lparr>oTitle := Some (Some ''Aliens'')\<rparr>))
        (applyOverride (\<lambda>t. t) (Some (noOverride\<lparr>oYear := Some (Some 1986)\<rparr>)) sampleRow)) = Some 1979"
proof -
  have row: "isRow sampleRow" by (simp add: isRow_def sampleRow_def)
  show ?thesis
    unfolding last_correction_wins [OF row]
    by (simp add: row) (simp add: applyOverride_def sampleRow_def snapshotReported_def withoutUnchanged_def noOverride_def unlessSame_def
        restoreReported_def applyFields_def orKeep_def orNull_def Let_def)
qed

subsection \<open>Undoing, and surviving a scan\<close>

definition uncorrected :: "(string \<Rightarrow> string) \<Rightarrow> OverridableItem \<Rightarrow> bool" where
  "uncorrected reduceTitle item \<longleftrightarrow> isRow item \<and> overrides item = None \<and> reported item = None \<and> \<not> ignored item
     \<and> normalizedTitle item = reduceTitle (seriesOrOwn item)"

lemma unlessSame_idem [simp]: "unlessSame said (unlessSame said given) = unlessSame said given"
  by (simp add: unlessSame_def)

lemma identifiersLeft_idem [simp]: "identifiersLeft (identifiersLeft given said) said = identifiersLeft given said"
  by (simp add: identifiersLeft_def)

lemma prune_idem: "withoutUnchanged (Some (withoutUnchanged given said)) said = withoutUnchanged given said"
proof (cases given)
  case None
  then show ?thesis by (simp add: withoutUnchanged_def noOverride_def unlessSame_def)
next
  case (Some g)
  then show ?thesis by (simp add: withoutUnchanged_def Let_def split: option.split)
qed

lemma apply_pruned: "applyOverride reduceTitle (Some (withoutUnchanged i (saidOf item))) item = applyOverride reduceTitle i item"
  by (simp add: applyOverride_def Let_def saidOf_def [symmetric] prune_idem)

lemma apply_stores:
  "overrides (applyOverride reduceTitle i item)
     = (let kept = withoutUnchanged i (saidOf item) in if kept = noOverride then None else Some kept)"
  "reported (applyOverride reduceTitle i item)
     = (if withoutUnchanged i (saidOf item) = noOverride then None else Some (saidOf item))"
  by (simp_all add: applyOverride_def Let_def saidOf_def [symmetric])

lemma apply_nothing:
  assumes "uncorrected reduceTitle item" "withoutUnchanged i (saidOf item) = noOverride"
  shows "applyOverride reduceTitle i item = item"
proof -
  have row: "isRow item" and said: "saidOf item = snapshotReported item"
    using assms(1) by (auto simp: uncorrected_def saidOf_def)
  have "restoreReported (snapshotReported item) item = item"
    using assms(1) row by (cases item) (auto simp: restoreReported_def uncorrected_def isRow_def snapshotReported_def orNull_def)
  then have "applyOverride reduceTitle i item =
      item\<lparr>overrides := None, reported := None, ignored := False, normalizedTitle := reduceTitle (seriesOrOwn item)\<rparr>"
    using assms(2) by (simp add: applyOverride_def Let_def saidOf_def [symmetric] said)
  also have "\<dots> = item" using assms(1) by (cases item) (auto simp: uncorrected_def)
  finally show ?thesis .
qed



text \<open>
  A null title is neither applied nor dropped: the row keeps a correction that corrects nothing.
\<close>

lemma null_title_is_stored:
  "applyOverride (\<lambda>t. t) (Some (noOverride\<lparr>oTitle := Some None\<rparr>)) sampleRow
     = sampleRow\<lparr>overrides := Some (noOverride\<lparr>oTitle := Some None\<rparr>), reported := Some (snapshotReported sampleRow)\<rparr>"
  by (simp add: applyOverride_def sampleRow_def snapshotReported_def withoutUnchanged_def noOverride_def unlessSame_def
      restoreReported_def applyFields_def orKeep_def orNull_def seriesOrOwn_def Let_def)

subsection \<open>A pin names a show, not a season\<close>

text \<open>
  The nearest row with a folder decides; a folder that names a season is renumbered to the season
  being filed, with the padding the library uses, and any other folder is used as it is.
\<close>

lemma pinnedFolderOf_nearest:
  "pinnedFolderOf rows season =
     (case filter (\<lambda>f. js_trim f \<noteq> []) (concat (map (\<lambda>row. case row of None \<Rightarrow> [] | Some ov \<Rightarrow>
          (case orNull (oTargetFolder ov) of None \<Rightarrow> [] | Some f \<Rightarrow> [f])) rows)) of
        [] \<Rightarrow> None
      | f # _ \<Rightarrow> Some (case season of None \<Rightarrow> f | Some n \<Rightarrow> (case withSeasonNumber f n of None \<Rightarrow> f | Some g \<Rightarrow> g)))"
  by (induction rows) (auto split: option.splits)

lemma season_folder_examples:
  "withSeasonNumber ''/share/SeriesTV/From/Saison 01/'' 4 = Some ''/share/SeriesTV/From/Saison 04''"
  "withSeasonNumber ''/tv/Show/Season 9'' 10 = Some ''/tv/Show/Season 10''"
  "withSeasonNumber ''/tv/From - Saison 01 - VOSTFR'' 4 = None"
  "seasonFolderNumber ''s.02'' = Some 2"
  by code_simp+

end
