(* ===== verification/Peer_Reconnect.thy ===== *)
theory Peer_Reconnect
  imports Mcs_Prelude
begin

text \<open>
  Dialling peers again after a drop: \<open>packages/api/src/services/peer-reconnect.service.ts\<close>. The
  timers and the counts are maps by peer; a dial is one event when it starts and one when it
  answers, and anything may happen in between. A timer is the delay it was armed with.
\<close>

subsection \<open>The schedule\<close>

definition RECONNECT_FIRST_DELAY_MS :: nat where "RECONNECT_FIRST_DELAY_MS = 5000"

definition RECONNECT_MAX_DELAY_MS :: nat where "RECONNECT_MAX_DELAY_MS = 15 * 60000"

definition reconnectDelay :: "nat \<Rightarrow> nat" where
  "reconnectDelay attempt = min (RECONNECT_FIRST_DELAY_MS * 2 ^ (attempt - 1)) RECONNECT_MAX_DELAY_MS"

datatype PeerDialOutcome = LINKED | UNREACHABLE | REFUSED

record Reconnect =
  timers :: "string \<rightharpoonup> nat"
  attempts :: "string \<rightharpoonup> nat"
  dialBound :: bool
  dialling :: "string list"

definition startReconnect :: Reconnect where
  "startReconnect = \<lparr>timers = Map.empty, attempts = Map.empty, dialBound = False, dialling = []\<rparr>"

subsection \<open>Operations\<close>

definition clearTimer :: "string \<Rightarrow> Reconnect \<Rightarrow> Reconnect" where
  "clearTimer peer s = s\<lparr>timers := (timers s)(peer := None)\<rparr>"

definition arm :: "string \<Rightarrow> nat \<Rightarrow> Reconnect \<Rightarrow> Reconnect" where
  "arm peer delay s = (let s1 = clearTimer peer s in s1\<lparr>timers := (timers s1)(peer \<mapsto> delay)\<rparr>)"

definition attemptsOf :: "string \<Rightarrow> Reconnect \<Rightarrow> nat" where
  "attemptsOf peer s = (case attempts s peer of None \<Rightarrow> 0 | Some n \<Rightarrow> n)"

definition schedule :: "string \<Rightarrow> Reconnect \<Rightarrow> Reconnect" where
  "schedule peer s =
     (let attempt = attemptsOf peer s + 1 in
      arm peer (reconnectDelay attempt) (s\<lparr>attempts := (attempts s)(peer \<mapsto> attempt)\<rparr>))"

definition cancelPeer :: "string \<Rightarrow> Reconnect \<Rightarrow> Reconnect" where
  "cancelPeer peer s = (let s1 = clearTimer peer s in s1\<lparr>attempts := (attempts s1)(peer := None)\<rparr>)"

text \<open>Up to the dial: with nothing registered there is no dial, and the answer is \<open>REFUSED\<close>.\<close>

definition beginAttempt :: "string \<Rightarrow> Reconnect \<Rightarrow> Reconnect" where
  "beginAttempt peer s = (if dialBound s then s\<lparr>dialling := dialling s @ [peer]\<rparr> else s)"

definition dialNow :: "string \<Rightarrow> Reconnect \<Rightarrow> Reconnect" where
  "dialNow peer s = beginAttempt peer (clearTimer peer s)"

text \<open>After it; a dial that throws is \<open>UNREACHABLE\<close>.\<close>

definition endAttempt :: "string \<Rightarrow> PeerDialOutcome \<Rightarrow> Reconnect \<Rightarrow> Reconnect" where
  "endAttempt peer out s =
     (case out of
        LINKED \<Rightarrow> s\<lparr>attempts := (attempts s)(peer := None)\<rparr>
      | REFUSED \<Rightarrow> cancelPeer peer s
      | UNREACHABLE \<Rightarrow> schedule peer s)"

definition timerFires :: "string \<Rightarrow> Reconnect \<Rightarrow> Reconnect" where
  "timerFires peer s = beginAttempt peer (s\<lparr>timers := (timers s)(peer := None)\<rparr>)"

definition destroyReconnect :: "Reconnect \<Rightarrow> Reconnect" where
  "destroyReconnect s = s\<lparr>timers := Map.empty, attempts := Map.empty\<rparr>"

datatype ReconnectEvent =
  OnDial | Schedule string | Now string | Cancel string | TimerFires string | DialAnswers nat PeerDialOutcome | DestroyReconnect

fun reconnectStep :: "ReconnectEvent \<Rightarrow> Reconnect \<Rightarrow> Reconnect option" where
  "reconnectStep OnDial s = Some (s\<lparr>dialBound := True\<rparr>)"
| "reconnectStep (Schedule peer) s = Some (schedule peer s)"
| "reconnectStep (Now peer) s = Some (dialNow peer s)"
| "reconnectStep (Cancel peer) s = Some (cancelPeer peer s)"
| "reconnectStep (TimerFires peer) s = (if timers s peer = None then None else Some (timerFires peer s))"
| "reconnectStep (DialAnswers k out) s =
     (if k < length (dialling s)
      then Some (endAttempt (dialling s ! k) out (s\<lparr>dialling := removeAt k (dialling s)\<rparr>)) else None)"
| "reconnectStep DestroyReconnect s = Some (destroyReconnect s)"

fun reconnectRun :: "ReconnectEvent list \<Rightarrow> Reconnect \<Rightarrow> Reconnect option" where
  "reconnectRun [] s = Some s"
| "reconnectRun (e # es) s = (case reconnectStep e s of None \<Rightarrow> None | Some s' \<Rightarrow> reconnectRun es s')"

interpretation reconnect: event_run reconnectStep reconnectRun
  by unfold_locales auto

subsection \<open>The delays\<close>

lemma reconnectDelay_bounds: "RECONNECT_FIRST_DELAY_MS \<le> reconnectDelay n \<and> reconnectDelay n \<le> RECONNECT_MAX_DELAY_MS"
proof -
  have "RECONNECT_FIRST_DELAY_MS * 1 \<le> RECONNECT_FIRST_DELAY_MS * 2 ^ (n - 1)" by (intro mult_left_mono) auto
  then show ?thesis by (simp add: reconnectDelay_def RECONNECT_FIRST_DELAY_MS_def RECONNECT_MAX_DELAY_MS_def)
qed

lemma reconnectDelay_mono: "m \<le> n \<Longrightarrow> reconnectDelay m \<le> reconnectDelay n"
proof -
  assume "m \<le> n"
  then have "(2 :: nat) ^ (m - 1) \<le> 2 ^ (n - 1)" by (intro power_increasing) auto
  then show ?thesis by (simp add: reconnectDelay_def min_le_iff_disj)
qed

lemma reconnectDelay_capped: "9 \<le> n \<Longrightarrow> reconnectDelay n = RECONNECT_MAX_DELAY_MS"
  using reconnectDelay_mono [of 9 n] reconnectDelay_bounds [of n]
  by (simp add: reconnectDelay_def [of 9] RECONNECT_FIRST_DELAY_MS_def RECONNECT_MAX_DELAY_MS_def)

text \<open>A timer waits what the count of its peer has earned, unless the peer linked meanwhile.\<close>

definition scheduleOk :: "Reconnect \<Rightarrow> bool" where
  "scheduleOk s \<longleftrightarrow>
     (\<forall>peer d. timers s peer = Some d \<longrightarrow>
        (\<exists>n \<ge> 1. d = reconnectDelay n \<and> (attempts s peer = None \<or> attempts s peer = Some n)))
     \<and> (\<forall>peer n. attempts s peer = Some n \<longrightarrow> 1 \<le> n)"

lemma schedule_ok: "scheduleOk s \<Longrightarrow> scheduleOk (schedule peer s)"
proof -
  assume ok: "scheduleOk s"
  let ?n = "attemptsOf peer s + 1"
  have upd: "timers (schedule peer s) q = (if q = peer then Some (reconnectDelay ?n) else timers s q)"
    "attempts (schedule peer s) q = (if q = peer then Some ?n else attempts s q)" for q
    by (simp_all add: schedule_def arm_def clearTimer_def Let_def)
  have "\<exists>n \<ge> 1. d = reconnectDelay n \<and> (attempts (schedule peer s) q = None \<or> attempts (schedule peer s) q = Some n)"
    if "timers (schedule peer s) q = Some d" for q d
    using that ok by (cases "q = peer") (auto simp: upd scheduleOk_def intro: exI [of _ ?n])
  moreover have "1 \<le> n" if "attempts (schedule peer s) q = Some n" for q n
    using that ok by (cases "q = peer") (auto simp: upd scheduleOk_def)
  ultimately show ?thesis unfolding scheduleOk_def by blast
qed

text \<open>Forgetting a timer, a count or both keeps it.\<close>

lemma forget_ok:
  assumes "scheduleOk s" "\<And>q. timers s' q = timers s q \<or> timers s' q = None"
    "\<And>q. attempts s' q = attempts s q \<or> attempts s' q = None"
  shows "scheduleOk s'"
  unfolding scheduleOk_def
proof (intro conjI allI impI)
  fix q d assume "timers s' q = Some d"
  then have "timers s q = Some d" using assms(2) [of q] by auto
  then obtain n where "1 \<le> n" "d = reconnectDelay n" "attempts s q = None \<or> attempts s q = Some n"
    using assms(1) by (auto simp: scheduleOk_def)
  then show "\<exists>n \<ge> 1. d = reconnectDelay n \<and> (attempts s' q = None \<or> attempts s' q = Some n)"
    using assms(3) [of q] by (intro exI [of _ n]) auto
next
  fix q n assume "attempts s' q = Some n"
  then show "1 \<le> n" using assms(1) assms(3) [of q] by (auto simp: scheduleOk_def)
qed

lemma reconnectStep_ok:
  assumes "reconnectStep e s = Some s'" "scheduleOk s"
  shows "scheduleOk s'"
proof (cases e)
  case (Schedule peer)
  then show ?thesis using assms schedule_ok by auto
next
  case (DialAnswers k out)
  let ?s = "s\<lparr>dialling := removeAt k (dialling s)\<rparr>"
  have s': "s' = endAttempt (dialling s ! k) out ?s" using assms(1) DialAnswers by (simp split: if_splits)
  have ok: "scheduleOk ?s" by (rule forget_ok [OF assms(2)]) simp_all
  show ?thesis
  proof (cases out)
    case UNREACHABLE
    then show ?thesis using schedule_ok [OF ok] by (simp add: s' endAttempt_def)
  qed (rule forget_ok [OF ok]; simp add: s' endAttempt_def cancelPeer_def clearTimer_def Let_def)+
qed (rule forget_ok [OF assms(2)]; use assms(1) in \<open>auto simp: dialNow_def timerFires_def beginAttempt_def cancelPeer_def
       clearTimer_def destroyReconnect_def Let_def split: if_splits\<close>)+

text \<open>
  Whatever drops, dials, answers and cancellations come, and in whatever order, every armed
  timer waits between five seconds and fifteen minutes, and exactly the delay that the number of
  failures counted for its peer has earned, when they are still counted; and a peer that has just
  answered no has no timer and no count left.
\<close>

lemma retries_follow_the_schedule:
  assumes "reconnectRun es startReconnect = Some s"
  shows "(\<forall>peer. case timers s peer of
            None \<Rightarrow> True
          | Some d \<Rightarrow> RECONNECT_FIRST_DELAY_MS \<le> d \<and> d \<le> RECONNECT_MAX_DELAY_MS
              \<and> (case attempts s peer of None \<Rightarrow> True | Some n \<Rightarrow> d = reconnectDelay n))
     \<and> (\<forall>k s'. reconnectStep (DialAnswers k REFUSED) s = Some s' \<longrightarrow>
          timers s' (dialling s ! k) = None \<and> attempts s' (dialling s ! k) = None)"
proof -
  have start: "scheduleOk startReconnect" by (simp add: scheduleOk_def startReconnect_def)
  have "scheduleOk s" by (rule reconnect.run_invariant [where P = scheduleOk, OF _ assms start]) (auto intro: reconnectStep_ok)
  then have "case timers s peer of None \<Rightarrow> True
          | Some d \<Rightarrow> RECONNECT_FIRST_DELAY_MS \<le> d \<and> d \<le> RECONNECT_MAX_DELAY_MS
              \<and> (case attempts s peer of None \<Rightarrow> True | Some n \<Rightarrow> d = reconnectDelay n)" for peer
    using reconnectDelay_bounds by (fastforce simp: scheduleOk_def split: option.splits)
  moreover have "timers s' (dialling s ! k) = None \<and> attempts s' (dialling s ! k) = None"
    if "reconnectStep (DialAnswers k REFUSED) s = Some s'" for k s'
    using that by (auto simp: endAttempt_def cancelPeer_def clearTimer_def Let_def split: if_splits)
  ultimately show ?thesis by blast
qed

lemma retries_follow_the_schedule_witness:
  "\<exists>s. reconnectRun [OnDial, Schedule ''p'', TimerFires ''p'', DialAnswers 0 UNREACHABLE] startReconnect = Some s
     \<and> timers s ''p'' = Some 10000 \<and> RECONNECT_FIRST_DELAY_MS \<le> 10000"
proof -
  have "\<exists>s. reconnectRun [OnDial, Schedule ''p'', TimerFires ''p'', DialAnswers 0 UNREACHABLE] startReconnect = Some s
     \<and> timers s ''p'' = Some 10000"
    by (simp add: startReconnect_def schedule_def arm_def clearTimer_def timerFires_def beginAttempt_def endAttempt_def attemptsOf_def
        reconnectDelay_def RECONNECT_FIRST_DELAY_MS_def RECONNECT_MAX_DELAY_MS_def removeAt_def Let_def)
  then obtain s where s: "reconnectRun [OnDial, Schedule ''p'', TimerFires ''p'', DialAnswers 0 UNREACHABLE] startReconnect = Some s"
    "timers s ''p'' = Some 10000" by blast
  then have "RECONNECT_FIRST_DELAY_MS \<le> 10000" using retries_follow_the_schedule [OF s(1)] by (auto split: option.splits)
  then show ?thesis using s by blast
qed

text \<open>
  Cancelling a peer while a dial to it is in flight does not end the retries: the dial fails, and
  the timer is armed again.
\<close>

lemma cancel_during_dial_is_undone:
  "\<exists>s. reconnectRun [OnDial, Now peer, Cancel peer, DialAnswers 0 UNREACHABLE] startReconnect = Some s
     \<and> timers s peer = Some RECONNECT_FIRST_DELAY_MS"
  by (simp add: startReconnect_def schedule_def arm_def clearTimer_def dialNow_def beginAttempt_def endAttempt_def attemptsOf_def
      cancelPeer_def reconnectDelay_def RECONNECT_FIRST_DELAY_MS_def RECONNECT_MAX_DELAY_MS_def removeAt_def Let_def)

end
