(* ===== verification/Worker_Pool.thy ===== *)
theory Worker_Pool
  imports Mcs_Prelude
begin

text \<open>
  Heavy jobs beside the gateway: \<open>packages/api/src/services/worker-pool.service.ts\<close>. One thread per
  lane, jobs waiting for an answer, and the promise of each job. Threads are what the pool can see
  of them: whether the lane has one and whether it is referenced. The promises' results are a log.
  Job identifiers are those of \<open>randomUUID\<close>, so a call with one that was used before does not happen.
\<close>

subsection \<open>Data\<close>

datatype JobKind = CORRELATE | PROJECT

datatype Lane = Catalogue | Projection

fun LANES :: "JobKind \<Rightarrow> Lane" where
  "LANES CORRELATE = Catalogue"
| "LANES PROJECT = Projection"

text \<open>Why a job was rejected: the worker's own error, silence, a thread-level error, its exit code, a shutdown.\<close>

datatype JobError = JobFailed string | NoAnswer | ThreadFailed string | Exited int | ShuttingDown

datatype JobResult = Resolved string | Rejected JobError

text \<open>\<open>threads\<close>: the lane's thread and whether it is referenced; \<open>resolvable\<close>: there is a worker to start.\<close>

record Pool =
  threads :: "Lane \<rightharpoonup> bool"
  waiting :: "(nat \<times> Lane) list"
  results :: "(nat \<times> JobResult) list"
  issued :: "nat set"
  resolvable :: bool

definition startPool :: "bool \<Rightarrow> Pool" where
  "startPool there = \<lparr>threads = Map.empty, waiting = [], results = [], issued = {}, resolvable = there\<rparr>"

subsection \<open>Operations\<close>

definition busy :: "Lane \<Rightarrow> Pool \<Rightarrow> bool" where
  "busy lane s = list_ex (\<lambda>(i, l). l = lane) (waiting s)"

definition setRef :: "Lane \<Rightarrow> bool \<Rightarrow> Pool \<Rightarrow> Pool" where
  "setRef lane r s = s\<lparr>threads := (threads s)(lane := map_option (\<lambda>_. r) (threads s lane))\<rparr>"

text \<open>The thread of a lane, started unreferenced on first use; with none to start the call throws.\<close>

definition startThread :: "Lane \<Rightarrow> Pool \<Rightarrow> Pool option" where
  "startThread lane s =
     (if threads s lane \<noteq> None then Some s
      else if \<not> resolvable s then None
      else Some (s\<lparr>threads := (threads s)(lane \<mapsto> False)\<rparr>))"

definition send :: "nat \<Rightarrow> JobKind \<Rightarrow> Pool \<Rightarrow> Pool option" where
  "send i kind s =
     (let lane = LANES kind in
      case startThread lane s of
        None \<Rightarrow> None
      | Some s1 \<Rightarrow>
          let s2 = (if busy lane s1 then s1 else setRef lane True s1) in
          Some (s2\<lparr>waiting := waiting s2 @ [(i, lane)], issued := insert i (issued s2)\<rparr>))"

definition forgetJob :: "nat \<Rightarrow> Pool \<Rightarrow> Pool" where
  "forgetJob i s =
     (case map_of (waiting s) i of
        None \<Rightarrow> s
      | Some lane \<Rightarrow>
          let s1 = s\<lparr>waiting := filter (\<lambda>(j, l). j \<noteq> i) (waiting s)\<rparr> in
          if busy lane s1 then s1 else setRef lane False s1)"

definition settleWith :: "nat \<Rightarrow> JobResult \<Rightarrow> Pool \<Rightarrow> Pool" where
  "settleWith i r s = (let s1 = forgetJob i s in s1\<lparr>results := results s1 @ [(i, r)]\<rparr>)"

text \<open>The final answer of a worker; one for a job nobody waits for is dropped.\<close>

definition settleJob :: "nat \<Rightarrow> JobResult \<Rightarrow> Pool \<Rightarrow> Pool" where
  "settleJob i r s = (if map_of (waiting s) i = None then s else settleWith i r s)"

definition failLane :: "JobError \<Rightarrow> Lane \<Rightarrow> Pool \<Rightarrow> Pool" where
  "failLane why lane s =
     foldl (\<lambda>t (i, l). if l \<noteq> lane then t else settleWith i (Rejected why) t) s (waiting s)"

definition workerExit :: "int \<Rightarrow> Lane \<Rightarrow> Pool \<Rightarrow> Pool" where
  "workerExit code lane s =
     (let s1 = s\<lparr>threads := (threads s)(lane := None)\<rparr> in
      if code \<noteq> 0 then failLane (Exited code) lane s1 else s1)"

definition destroyPool :: "Pool \<Rightarrow> Pool" where
  "destroyPool s =
     s\<lparr>results := results s @ map (\<lambda>(i, l). (i, Rejected ShuttingDown)) (waiting s),
       waiting := [], threads := Map.empty\<rparr>"

text \<open>
  \<open>Progress\<close> and \<open>Log\<close> leave the pool as it is but for the deadline of the job, which is not part of
  the model: a timeout may come to any job that is waiting. A thread exits only where there is one.
\<close>

datatype PoolEvent =
    Send nat JobKind
  | Answer nat "string + string"
  | Progress nat
  | Timeout nat
  | ThreadError string Lane
  | ThreadExit int Lane
  | DestroyPool

fun poolStep :: "PoolEvent \<Rightarrow> Pool \<Rightarrow> Pool option" where
  "poolStep (Send i kind) s = (if i \<in> issued s then None else send i kind s)"
| "poolStep (Answer i answer) s =
     Some (settleJob i (case answer of Inl failure \<Rightarrow> Rejected (JobFailed failure) | Inr output \<Rightarrow> Resolved output) s)"
| "poolStep (Progress i) s = Some s"
| "poolStep (Timeout i) s =
     (if map_of (waiting s) i = None then None else Some (settleWith i (Rejected NoAnswer) s))"
| "poolStep (ThreadError message lane) s = Some (failLane (ThreadFailed message) lane s)"
| "poolStep (ThreadExit code lane) s = (if threads s lane = None then None else Some (workerExit code lane s))"
| "poolStep DestroyPool s = Some (destroyPool s)"

fun poolRun :: "PoolEvent list \<Rightarrow> Pool \<Rightarrow> Pool option" where
  "poolRun [] s = Some s"
| "poolRun (e # es) s = (case poolStep e s of None \<Rightarrow> None | Some s' \<Rightarrow> poolRun es s')"

interpretation pool: event_run poolStep poolRun
  by unfold_locales auto

subsection \<open>Every job is settled once\<close>

text \<open>Waiting and settled jobs are the issued ones, each once.\<close>

definition jobsOk :: "Pool \<Rightarrow> bool" where
  "jobsOk s \<longleftrightarrow> distinct (map fst (waiting s) @ map fst (results s)) \<and> set (map fst (waiting s) @ map fst (results s)) = issued s"

lemma setRef_simps [simp]:
  "waiting (setRef lane r s) = waiting s" "results (setRef lane r s) = results s" "issued (setRef lane r s) = issued s"
  "resolvable (setRef lane r s) = resolvable s"
  by (simp_all add: setRef_def)

lemma filter_absent: "i \<notin> fst ` set ws \<Longrightarrow> filter (\<lambda>(j, l). j \<noteq> i) ws = ws"
  by (induction ws) auto

lemma forgetJob_simps [simp]:
  "waiting (forgetJob i s) = filter (\<lambda>(j, l). j \<noteq> i) (waiting s)" "results (forgetJob i s) = results s" "issued (forgetJob i s) = issued s"
proof -
  have "map_of (waiting s) i = None \<Longrightarrow> filter (\<lambda>(j, l). j \<noteq> i) (waiting s) = waiting s"
    by (simp add: map_of_eq_None_iff filter_absent)
  then show "waiting (forgetJob i s) = filter (\<lambda>(j, l). j \<noteq> i) (waiting s)"
    by (simp add: forgetJob_def Let_def split: option.split)
qed (simp_all add: forgetJob_def Let_def split: option.split)

lemma filter_fst: "map fst (filter (\<lambda>(j, l). j \<noteq> i) ws) = filter (\<lambda>j. j \<noteq> i) (map fst ws)"
  by (induction ws) auto

lemma settleWith_jobs:
  assumes "jobsOk s" "i \<in> set (map fst (waiting s))"
  shows "jobsOk (settleWith i r s)"
  using assms by (auto simp: jobsOk_def settleWith_def Let_def filter_fst)

lemma failLane_spec:
  assumes "jobsOk s"
  shows "jobsOk (failLane why lane s)"
    and "waiting (failLane why lane s) = filter (\<lambda>(j, l). l \<noteq> lane) (waiting s)"
    and "results (failLane why lane s) = results s @ map (\<lambda>(j, l). (j, Rejected why)) (filter (\<lambda>(j, l). l = lane) (waiting s))"
    and "issued (failLane why lane s) = issued s"
proof -
  let ?f = "\<lambda>t (i, l). if l \<noteq> lane then t else settleWith i (Rejected why) t"
  have "jobsOk (foldl ?f t ws) \<and> waiting (foldl ?f t ws) = kept @ filter (\<lambda>(j, l). l \<noteq> lane) ws
     \<and> results (foldl ?f t ws) = results t @ map (\<lambda>(j, l). (j, Rejected why)) (filter (\<lambda>(j, l). l = lane) ws)
     \<and> issued (foldl ?f t ws) = issued t"
    if "jobsOk t" "waiting t = kept @ ws" for t kept ws
    using that
  proof (induction ws arbitrary: t kept)
    case (Cons w ws)
    obtain i l where w: "w = (i, l)" by (cases w)
    show ?case
    proof (cases "l = lane")
      case False
      then show ?thesis using Cons.IH [of t "kept @ [w]"] Cons.prems w by simp
    next
      case True
      have i: "i \<notin> set (map fst kept)" "i \<notin> set (map fst ws)" using Cons.prems by (auto simp: jobsOk_def w)
      then have "filter (\<lambda>(j, l). j \<noteq> i) (kept @ ws) = kept @ ws" by (simp add: filter_absent)
      then have "waiting (settleWith i (Rejected why) t) = kept @ ws" using Cons.prems(2) by (simp add: settleWith_def Let_def w)
      moreover have "jobsOk (settleWith i (Rejected why) t)" using Cons.prems by (intro settleWith_jobs) (auto simp: w)
      ultimately show ?thesis using Cons.IH [of "settleWith i (Rejected why) t" kept] True w
        by (simp add: settleWith_def Let_def)
    qed
  qed simp
  from this [OF assms, of "[]" "waiting s"]
  show "jobsOk (failLane why lane s)"
    "waiting (failLane why lane s) = filter (\<lambda>(j, l). l \<noteq> lane) (waiting s)"
    "results (failLane why lane s) = results s @ map (\<lambda>(j, l). (j, Rejected why)) (filter (\<lambda>(j, l). l = lane) (waiting s))"
    "issued (failLane why lane s) = issued s"
    by (auto simp: failLane_def)
qed

lemma startThread_simps:
  "startThread lane s = Some s' \<Longrightarrow> waiting s' = waiting s \<and> results s' = results s \<and> issued s' = issued s"
  by (auto simp: startThread_def split: if_splits)

lemma threads_jobs: "jobsOk (s\<lparr>threads := t\<rparr>) = jobsOk s"
  by (simp add: jobsOk_def)

lemma poolStep_jobs:
  assumes "poolStep e s = Some s'" "jobsOk s"
  shows "jobsOk s'"
proof (cases e)
  case (Send i kind)
  then have i: "i \<notin> issued s" "send i kind s = Some s'" using assms(1) by (auto split: if_splits)
  then obtain s1 where s1: "startThread (LANES kind) s = Some s1" by (auto simp: send_def Let_def split: option.splits)
  then have "waiting s' = waiting s @ [(i, LANES kind)] \<and> results s' = results s \<and> issued s' = insert i (issued s)"
    using startThread_simps [OF s1] i(2) by (cases "busy (LANES kind) s1") (auto simp: send_def Let_def)
  then show ?thesis using assms(2) i(1) by (auto simp: jobsOk_def)
next
  case (Answer i answer)
  then show ?thesis using assms settleWith_jobs [of s i] by (auto simp: settleJob_def map_of_eq_None_iff split: if_splits)
next
  case (Timeout i)
  then show ?thesis using assms settleWith_jobs [of s i] by (auto simp: map_of_eq_None_iff split: if_splits)
next
  case (ThreadError message lane)
  then show ?thesis using assms failLane_spec(1) by auto
next
  case (ThreadExit code lane)
  then show ?thesis using assms failLane_spec(1) [of "s\<lparr>threads := (threads s)(lane := None)\<rparr>"]
    by (auto simp: workerExit_def Let_def threads_jobs split: if_splits)
next
  case DestroyPool
  have "map fst (map (\<lambda>(i, l). (i, Rejected why)) ws) = map fst ws" for why and ws :: "(nat \<times> Lane) list" by (induction ws) auto
  then have "map fst (results s') = map fst (results s) @ map fst (waiting s)" "waiting s' = []" "issued s' = issued s"
    using assms(1) DestroyPool by (auto simp: destroyPool_def)
  then show ?thesis using assms(2) unfolding jobsOk_def by auto
qed (use assms in simp)

text \<open>
  (C26) In every interleaving each job handed to the pool is either waiting or settled, never both
  and never twice, and none is lost; and a thread that fails settles exactly the jobs of its own
  lane, in the order they were sent, leaving the other lane's waiting.
\<close>

theorem every_job_settles_once:
  assumes "poolRun es (startPool there) = Some s"
  shows "distinct (map fst (waiting s) @ map fst (results s))
     \<and> set (map fst (waiting s)) \<union> set (map fst (results s)) = issued s
     \<and> waiting (failLane why lane s) = filter (\<lambda>(i, l). l \<noteq> lane) (waiting s)
     \<and> results (failLane why lane s) = results s @ map (\<lambda>(i, l). (i, Rejected why)) (filter (\<lambda>(i, l). l = lane) (waiting s))"
proof -
  have start: "jobsOk (startPool there)" by (simp add: jobsOk_def startPool_def)
  have "jobsOk s" by (rule pool.run_invariant [where P = jobsOk, OF _ assms start]) (auto intro: poolStep_jobs)
  then show ?thesis using failLane_spec [of s why lane] by (simp add: jobsOk_def)
qed

theorem every_job_settles_once_witness:
  "\<exists>s. poolRun [Send 1 CORRELATE, Send 2 PROJECT, ThreadError ''boom'' Catalogue, Answer 1 (Inr ''late''), Answer 2 (Inr ''ok'')] (startPool True) = Some s
     \<and> results s = [(1, Rejected (ThreadFailed ''boom'')), (2, Resolved ''ok'')] \<and> distinct (map fst (waiting s) @ map fst (results s))"
proof -
  let ?es = "[Send 1 CORRELATE, Send 2 PROJECT, ThreadError ''boom'' Catalogue, Answer 1 (Inr ''late''), Answer 2 (Inr ''ok'')]"
  have "\<exists>s. poolRun ?es (startPool True) = Some s \<and> results s = [(1, Rejected (ThreadFailed ''boom'')), (2, Resolved ''ok'')]"
    by (simp add: startPool_def send_def startThread_def setRef_def busy_def failLane_def settleJob_def settleWith_def forgetJob_def Let_def)
  then obtain s where s: "poolRun ?es (startPool True) = Some s" "results s = [(1, Rejected (ThreadFailed ''boom'')), (2, Resolved ''ok'')]" by blast
  then show ?thesis using every_job_settles_once [OF s(1)] by blast
qed

subsection \<open>A thread is held while it works\<close>

text \<open>
  A lane's thread is referenced exactly while the lane has a job, as long as no thread ends with
  code zero under a job.
\<close>

definition refsOk :: "Lane set \<Rightarrow> Pool \<Rightarrow> bool" where
  "refsOk X s \<longleftrightarrow> (\<forall>lane. lane \<notin> X \<longrightarrow> (if busy lane s then threads s lane = Some True else threads s lane \<noteq> Some True))"

lemma send_refs:
  assumes "send i kind s = Some s'" "refsOk {} s"
  shows "refsOk {} s'"
proof -
  let ?lane = "LANES kind"
  obtain s1 where s1: "startThread ?lane s = Some s1" using assms(1) by (auto simp: send_def Let_def split: option.splits)
  have w: "busy l s1 = busy l s" for l using startThread_simps [OF s1] by (simp add: busy_def)
  have t: "threads s1 l = (if l = ?lane \<and> threads s l = None then Some False else threads s l)" for l
    using s1 by (auto simp: startThread_def split: if_splits)
  have t': "threads s' l = (if l = ?lane then Some True else threads s l)" for l
    using assms s1 t w by (auto simp: send_def Let_def setRef_def refsOk_def split: if_splits)
  have "waiting s' = waiting s @ [(i, ?lane)]"
    using assms(1) s1 startThread_simps [OF s1] by (cases "busy ?lane s1") (auto simp: send_def Let_def)
  then have "busy l s' \<longleftrightarrow> l = ?lane \<or> busy l s" for l by (auto simp: busy_def)
  then show ?thesis using assms(2) t' by (auto simp: refsOk_def)
qed

lemma forgetJob_refs:
  assumes "refsOk X s" "distinct (map fst (waiting s))"
  shows "refsOk X (forgetJob i s)"
proof (cases "map_of (waiting s) i")
  case (Some lane)
  let ?s = "s\<lparr>waiting := filter (\<lambda>(j, l). j \<noteq> i) (waiting s)\<rparr>"
  have entry: "(i, lane) \<in> set (waiting s)" using map_of_SomeD [OF Some] .
  have others: "busy l ?s = busy l s" if "l \<noteq> lane" for l
  proof -
    have "j \<noteq> i" if "(j, l) \<in> set (waiting s)" for j
      using that entry \<open>l \<noteq> lane\<close> eq_key_imp_eq_value [OF assms(2)] by blast
    then show ?thesis by (auto simp: busy_def list_ex_iff)
  qed
  have "busy lane s" using entry by (auto simp: busy_def list_ex_iff)
  then have t: "lane \<notin> X \<Longrightarrow> threads s lane = Some True" using assms(1) by (simp add: refsOk_def)
  have f: "busy l (forgetJob i s) = busy l ?s" "threads (forgetJob i s) l = (if l = lane \<and> \<not> busy lane ?s then map_option (\<lambda>_. False) (threads s l) else threads s l)" for l
    using Some by (simp_all add: busy_def forgetJob_def Let_def setRef_def)
  show ?thesis unfolding refsOk_def
  proof (intro allI impI)
    fix l assume "l \<notin> X"
    then show "if busy l (forgetJob i s) then threads (forgetJob i s) l = Some True else threads (forgetJob i s) l \<noteq> Some True"
      using assms(1) others [of l] t f by (cases "l = lane") (auto simp: refsOk_def)
  qed
next
  case None
  then show ?thesis using assms(1) by (simp add: forgetJob_def)
qed

lemma settleWith_refs:
  assumes "refsOk X s" "distinct (map fst (waiting s))"
  shows "refsOk X (settleWith i r s)" "distinct (map fst (waiting (settleWith i r s)))"
    "threads s lane = None \<Longrightarrow> threads (settleWith i r s) lane = None"
  using forgetJob_refs [OF assms, of i] assms(2)
  by (auto simp: settleWith_def Let_def refsOk_def busy_def filter_fst forgetJob_def setRef_def split: option.split)

lemma failLane_refs:
  assumes "refsOk X s" "distinct (map fst (waiting s))"
  shows "refsOk X (failLane why lane s)" "threads s lane = None \<Longrightarrow> threads (failLane why lane s) lane = None"
proof -
  let ?f = "\<lambda>t (i, l). if l \<noteq> lane then t else settleWith i (Rejected why) t"
  have "refsOk X (foldl ?f t ws) \<and> (threads t lane = None \<longrightarrow> threads (foldl ?f t ws) lane = None)"
    if "refsOk X t" "distinct (map fst (waiting t))" for t ws
    using that
  proof (induction ws arbitrary: t)
    case (Cons w ws)
    obtain i l where w: "w = (i, l)" by (cases w)
    note settled = settleWith_refs [OF Cons.prems, where i = i and r = "Rejected why"]
    show ?case using Cons.IH [OF Cons.prems] Cons.IH [OF settled(1,2)] settled(3) [where lane = lane] by (simp add: w)
  qed simp
  then show "refsOk X (failLane why lane s)" "threads s lane = None \<Longrightarrow> threads (failLane why lane s) lane = None"
    using assms by (auto simp: failLane_def)
qed

definition orderly :: "PoolEvent \<Rightarrow> Pool \<Rightarrow> bool" where
  "orderly e s \<longleftrightarrow> (case e of ThreadExit code lane \<Rightarrow> code \<noteq> 0 \<or> \<not> busy lane s | _ \<Rightarrow> True)"

lemma poolStep_refs:
  assumes "poolStep e s = Some s'" "refsOk {} s" "jobsOk s" "orderly e s"
  shows "refsOk {} s'"
proof -
  have d: "distinct (map fst (waiting s))" using assms(3) by (simp add: jobsOk_def)
  show ?thesis
  proof (cases e)
    case (Send i kind)
    then show ?thesis using assms send_refs by (auto split: if_splits)
  next
    case (Answer i answer)
    then show ?thesis using assms settleWith_refs(1) [OF assms(2) d] by (auto simp: settleJob_def split: if_splits)
  next
    case (Timeout i)
    then show ?thesis using assms settleWith_refs(1) [OF assms(2) d] by (auto split: if_splits)
  next
    case (ThreadError message lane)
    then show ?thesis using assms(1) failLane_refs(1) [OF assms(2) d] by auto
  next
    case (ThreadExit code lane)
    let ?s = "s\<lparr>threads := (threads s)(lane := None)\<rparr>" and ?t = "failLane (Exited code) lane (s\<lparr>threads := (threads s)(lane := None)\<rparr>)"
    have s': "s' = (if code \<noteq> 0 then ?t else ?s)"
      using assms(1) ThreadExit by (simp add: workerExit_def Let_def split: if_splits)
    have other: "refsOk {lane} ?s" using assms(2) by (auto simp: refsOk_def busy_def)
    show ?thesis
    proof (cases "code = 0")
      case True
      then show ?thesis using assms(2,4) ThreadExit s' by (auto simp: refsOk_def orderly_def busy_def)
    next
      case False
      have "waiting ?t = filter (\<lambda>(j, l). l \<noteq> lane) (waiting s)"
        using failLane_spec(2) [of ?s "Exited code" lane] assms(3) by (simp add: threads_jobs)
      then have "\<not> busy lane ?t" by (auto simp: busy_def list_ex_iff)
      moreover have "refsOk {lane} ?t" "threads ?t lane = None" using failLane_refs [OF other] d by auto
      ultimately have "refsOk {} ?t" unfolding refsOk_def by (metis empty_iff insert_iff option.distinct(1))
      then show ?thesis using False s' by simp
    qed
  next
    case DestroyPool
    then show ?thesis using assms(1) by (auto simp: destroyPool_def refsOk_def busy_def)
  qed (use assms in simp)
qed

text \<open>
  When a thread does end with code zero under a job, that job is not rejected and still counts, so
  the thread started for the next one is not referenced although it works.
\<close>

lemma clean_exit_leaves_thread_unreferenced:
  "\<exists>s. poolRun [Send 1 CORRELATE, ThreadExit 0 Catalogue, Send 2 CORRELATE] (startPool True) = Some s
     \<and> busy Catalogue s \<and> threads s Catalogue = Some False \<and> results s = []"
  by (simp add: startPool_def send_def startThread_def setRef_def busy_def workerExit_def Let_def)

end
