(* ===== verification/Transfer_Finish.thy ===== *)
theory Transfer_Finish
  imports Js_Regex Verification Transfer_Engine Transfer_Worker
begin

text \<open>
  One transfer from its plan to the library: what \<open>_run\<close> of
  \<open>packages/api/src/services/transfer-engine.service.ts\<close> does with the bytes. It sets up the
  running transfer (\<open>prepareRun\<close>), downloads (\<open>Transfer_Worker\<close>), and \<open>_finish\<close> verifies
  (\<open>Verification\<close>), repairs at most three times and moves the file into place (\<open>File_Move\<close>).
  The rows and the pool around it are \<open>Transfer_Engine\<close>. What the transports do during a repair is
  a list of download events per assignment; what the filesystem does during the move is its
  \<open>MoveEnv\<close>. The working file is the path \<open>workPath\<close> of the filesystem once its handle is closed.
\<close>

subsection \<open>Setting up\<close>

definition preparedSource :: "int \<Rightarrow> string \<Rightarrow> int \<Rightarrow> bool \<Rightarrow> int option \<Rightarrow> (int \<rightharpoonup> string) option \<Rightarrow> int option \<Rightarrow> RuntimeSource" where
  "preparedSource now service maxConn ranged sizeSaid checksums piece =
     \<lparr>serviceId = service, maxConnections = maxConn, resumable = ranged, capTotalBytes = sizeSaid,
      pieceChecksums = checksums, pieceSize = piece, rate = 0, srcBytesDone = 0, connections = 0, failures = 0,
      healthy = True, srcWindowBytes = 0, srcWindowStart = now\<rparr>"

fun totalBytesOf :: "int \<Rightarrow> RuntimeSource list \<Rightarrow> int" where
  "totalBytesOf stored [] = (if 0 < stored then stored else 0)"
| "totalBytesOf stored (s # ss) =
     (if 0 < stored then stored
      else case capTotalBytes s of
        Some n \<Rightarrow> if n \<noteq> 0 then n else totalBytesOf stored ss
      | None \<Rightarrow> totalBytesOf stored ss)"

definition adoptFrom :: "ChunkPlan \<Rightarrow> RuntimeSource \<Rightarrow> ChunkPlan" where
  "adoptFrom p s =
     (case pieceChecksums s of
        None \<Rightarrow> p
      | Some m \<Rightarrow>
          if pieceSize s \<noteq> Some (chunkSize p) then p
          else p\<lparr>chunks := map (\<lambda>c. c\<lparr>pchecksum := (case pchecksum c of Some k \<Rightarrow> Some k | None \<Rightarrow> m (pindex c))\<rparr>) (chunks p)\<rparr>)"

definition adoptPieceChecksums :: "ChunkPlan \<Rightarrow> RuntimeSource list \<Rightarrow> ChunkPlan" where
  "adoptPieceChecksums p ss = foldl adoptFrom p ss"

text \<open>A leftover longer than the transfer is cut; a missing file is created empty.\<close>

definition openWorkFile :: "int \<Rightarrow> byte list option \<Rightarrow> byte list" where
  "openWorkFile bytes found =
     (case found of
        None \<Rightarrow> []
      | Some f \<Rightarrow> if bytes < int (length f) \<and> 0 < bytes then take (nat bytes) f else f)"

definition persistPlan :: "ChunkPlan \<Rightarrow> ExistingChunk list \<Rightarrow> ExistingChunk list" where
  "persistPlan p existing = (if resumed p then existing else map insertPlanRow (chunks p))"

definition prepareRun ::
  "int \<Rightarrow> jsnum \<Rightarrow> int \<Rightarrow> ExistingChunk list \<Rightarrow> RuntimeSource list \<Rightarrow> byte list option \<Rightarrow> RunningTransfer option" where
  "prepareRun now configured stored existing ss found =
     (let n = totalBytesOf stored ss in
      map_option
        (\<lambda>laid. let p = adoptPieceChecksums laid ss in
           \<lparr>plan = p, sources = ss, workFile = openWorkFile n found, rows = persistPlan p existing,
            rowBytesDone = Chunk_Planner.bytesDone p, bytesSinceReport = 0, windowBytes = 0, windowStart = now, runRate = 0,
            pausing = False, cancelling = False, draining = False, idle = 0, inflight = [], threw = False\<rparr>)
        (planChunks (Some (of_int n)) configured existing))"

subsection \<open>Verifying and repairing\<close>

definition verifyRun :: "(byte list \<Rightarrow> string) \<Rightarrow> string \<Rightarrow> RunningTransfer \<Rightarrow> VerificationReport" where
  "verifyRun hash t r =
     verify hash \<lparr>vtransferId = t, vchunks = chunks (plan r), expectedSize = Some (bytesTotal (plan r)),
       expectedChecksum = None\<rparr> (Some (workFile r))"

text \<open>One \<open>_fetchChunk\<close> on its own: no worker is there to take a turn, and it is over when nothing is in flight.\<close>

fun fetchEvent :: "dl_event \<Rightarrow> bool" where
  "fetchEvent WorkerTurn = False"
| "fetchEvent e = True"

definition fetchOnce :: "int \<Rightarrow> dl_event list \<Rightarrow> nat \<Rightarrow> nat \<Rightarrow> RunningTransfer \<Rightarrow> RunningTransfer option" where
  "fetchOnce perSource es i j r =
     (if list_all fetchEvent es
      then case dl_run perSource es (beginFetch i j r) of
          None \<Rightarrow> None
        | Some r' \<Rightarrow> if inflight r' = [] then Some (r'\<lparr>idle := 0\<rparr>) else None
      else None)"

definition indexOf :: "('a \<Rightarrow> bool) \<Rightarrow> 'a list \<Rightarrow> nat option" where
  "indexOf P xs = (let n = length (takeWhile (\<lambda>x. \<not> P x) xs) in if n < length xs then Some n else None)"

definition repairSource :: "int \<Rightarrow> RepairAssignment \<Rightarrow> RunningTransfer \<Rightarrow> nat option" where
  "repairSource perSource a r =
     (case indexOf (\<lambda>s. healthy s \<and> Some (serviceId s) = asourceServiceId a) (sources r) of
        Some j \<Rightarrow> Some j
      | None \<Rightarrow> pickSource perSource r)"

definition repairOne :: "int \<Rightarrow> dl_event list \<Rightarrow> RepairAssignment \<Rightarrow> RunningTransfer \<Rightarrow> RunningTransfer option" where
  "repairOne perSource es a r =
     (case indexOf (\<lambda>c. pindex c = achunkIndex a) (chunks (plan r)) of
        None \<Rightarrow> Some r
      | Some i \<Rightarrow>
          let r1 = updChunk i (\<lambda>c. c\<lparr>pstate := ChunkCorrupt, pbytesDone := 0\<rparr>) r in
          case repairSource perSource a r1 of
            None \<Rightarrow> Some r1
          | Some j \<Rightarrow> fetchOnce perSource es i j r1)"

fun repairAll :: "int \<Rightarrow> RepairAssignment list \<Rightarrow> dl_event list list \<Rightarrow> RunningTransfer \<Rightarrow> RunningTransfer option" where
  "repairAll perSource [] scripts r = Some r"
| "repairAll perSource (a # as) [] r = None"
| "repairAll perSource (a # as) (es # scripts) r =
     (case repairOne perSource es a r of
        None \<Rightarrow> None
      | Some r' \<Rightarrow> if threw r' then Some r' else repairAll perSource as scripts r')"

definition repairPass :: "int \<Rightarrow> dl_event list list \<Rightarrow> VerificationReport \<Rightarrow> RunningTransfer \<Rightarrow> RunningTransfer option" where
  "repairPass perSource scripts rep r =
     repairAll perSource (planRepair rep (chunks (plan r)) (map serviceId (filter healthy (sources r)))) scripts r"

text \<open>The loop over the passes; an error thrown by a fetch leaves it.\<close>

fun repairLoop :: "(byte list \<Rightarrow> string) \<Rightarrow> string \<Rightarrow> int \<Rightarrow> nat \<Rightarrow> dl_event list list list \<Rightarrow> RunningTransfer \<Rightarrow> RunningTransfer option" where
  "repairLoop hash t perSource 0 passes r = Some r"
| "repairLoop hash t perSource (Suc n) passes r =
     (if ok (verifyRun hash t r) then Some r
      else case passes of
        [] \<Rightarrow> None
      | scripts # rest \<Rightarrow>
          case repairPass perSource scripts (verifyRun hash t r) r of
            None \<Rightarrow> None
          | Some r' \<Rightarrow> if threw r' then Some r' else repairLoop hash t perSource n rest r')"

subsection \<open>Placing\<close>

datatype FinishResult = FinishThrew | FinishMismatch | FinishPlaced MoveResult

definition placeRequest :: "string \<Rightarrow> string \<Rightarrow> int \<Rightarrow> FileMoveRequest" where
  "placeRequest workPath targetPath diskReserve =
     \<lparr>source = workPath, destination = targetPath, reserve = diskReserve, keepSource = False, linkSource = False,
      absoluteLink = False\<rparr>"

definition finish ::
  "(byte list \<Rightarrow> string) \<Rightarrow> string \<Rightarrow> int \<Rightarrow> dl_event list list list \<Rightarrow> MoveEnv \<Rightarrow> FileMoveRequest \<Rightarrow> RunningTransfer \<Rightarrow> FS
   \<Rightarrow> (RunningTransfer \<times> FinishResult \<times> FS) option" where
  "finish hash t perSource passes env req r fs =
     (case repairLoop hash t perSource MAX_REPAIR_PASSES passes r of
        None \<Rightarrow> None
      | Some r' \<Rightarrow>
          let fs1 = fs(source req \<mapsto> File (workFile r')) in
          Some (if threw r' then (r', FinishThrew, fs1)
                else if \<not> ok (verifyRun hash t r') then (r', FinishMismatch, fs1)
                else case move env req fs1 of (res, fs2) \<Rightarrow> (r', FinishPlaced res, fs2)))"

subsection \<open>What stays as it was planned\<close>

lemma fetchOnce_shape: "fetchOnce perSource es i j r = Some r' \<Longrightarrow> shape r' = shape r"
  by (auto simp: fetchOnce_def split: if_splits option.splits dest!: shape_run)

lemma repairOne_shape: "repairOne perSource es a r = Some r' \<Longrightarrow> shape r' = shape r"
  by (auto simp: repairOne_def Let_def split: option.splits dest!: fetchOnce_shape)

lemma repairAll_shape: "repairAll perSource as scripts r = Some r' \<Longrightarrow> shape r' = shape r"
  by (induction perSource as scripts r rule: repairAll.induct)
    (auto split: option.splits if_splits dest!: repairOne_shape)

lemma repairLoop_shape: "repairLoop hash t perSource n passes r = Some r' \<Longrightarrow> shape r' = shape r"
  by (induction hash t perSource n passes r rule: repairLoop.induct)
    (auto simp: repairPass_def split: if_splits option.splits list.splits dest!: repairAll_shape)

text \<open>A plan whose pieces carry the digests of the pieces of the source.\<close>

definition sealed :: "(byte list \<Rightarrow> string) \<Rightarrow> byte list \<Rightarrow> RunningTransfer \<Rightarrow> bool" where
  "sealed hash src r \<longleftrightarrow>
     (case shape r of (rs, ks, n) \<Rightarrow>
        chunk_layout rs n \<and> n = int (length src) \<and> ks = map (\<lambda>(s, e). Some (hash (slice s e src))) rs)"

lemma sealed_cong: "shape r' = shape r \<Longrightarrow> sealed hash src r' = sealed hash src r"
  by (simp add: sealed_def)

lemma sealed_chunk:
  assumes "sealed hash src r" and "c \<in> set (chunks (plan r))"
  shows "pchecksum c = Some (hash (slice (pstart c) (pend c) src))"
proof -
  obtain i where "i < length (chunks (plan r))" "c = chunks (plan r) ! i" using assms(2) by (auto simp: in_set_conv_nth)
  moreover have "map pchecksum (chunks (plan r)) ! i = map (\<lambda>(s, e). Some (hash (slice s e src))) (ranges (chunks (plan r))) ! i"
    using assms(1) by (simp add: sealed_def shape_def)
  ultimately show ?thesis by (simp add: ranges_def)
qed

lemma sealed_verified:
  assumes "sealed hash src r" and "ok (verifyRun hash t r)" and "\<And>bs. hash bs \<noteq> []"
    and "\<And>s e. hash (slice s e (workFile r)) = hash (slice s e src) \<Longrightarrow> slice s e (workFile r) = slice s e src"
  shows "workFile r = src"
  by (rule verified_content [where request = "\<lparr>vtransferId = t, vchunks = chunks (plan r),
        expectedSize = Some (bytesTotal (plan r)), expectedChecksum = None\<rparr>" and hash = hash])
    (use assms in \<open>auto simp: sealed_chunk verifyRun_def sealed_def shape_def\<close>)

lemma verified_source:
  assumes "sealed hash src r" and "workFile r = src"
  shows "ok (verifyRun hash t r)"
  using assms sealed_chunk [OF assms(1)]
  by (auto simp: verifyRun_def verify_ok_char list_all_iff sealed_def shape_def given_def pieceMatches_def)

subsection \<open>The digests a plan takes over\<close>

definition pieceDigest :: "(byte list \<Rightarrow> string) \<Rightarrow> byte list \<Rightarrow> PlannedChunk \<Rightarrow> string" where
  "pieceDigest hash src c = hash (slice (pstart c) (pend c) src)"

text \<open>A source whose digests, where they would be used, are those of the file; and one that has them all.\<close>

definition honestSource :: "(byte list \<Rightarrow> string) \<Rightarrow> byte list \<Rightarrow> ChunkPlan \<Rightarrow> RuntimeSource \<Rightarrow> bool" where
  "honestSource hash src p s \<longleftrightarrow>
     (case pieceChecksums s of
        None \<Rightarrow> True
      | Some m \<Rightarrow> pieceSize s \<noteq> Some (chunkSize p)
          \<or> list_all (\<lambda>c. m (pindex c) = None \<or> m (pindex c) = Some (pieceDigest hash src c)) (chunks p))"

definition coversAll :: "ChunkPlan \<Rightarrow> RuntimeSource \<Rightarrow> bool" where
  "coversAll p s \<longleftrightarrow>
     (case pieceChecksums s of
        None \<Rightarrow> False
      | Some m \<Rightarrow> pieceSize s = Some (chunkSize p) \<and> list_all (\<lambda>c. m (pindex c) \<noteq> None) (chunks p))"

text \<open>The digest a chunk ends up with: its own, or the first one a source of this piece size has for it.\<close>

definition offer :: "ChunkPlan \<Rightarrow> PlannedChunk \<Rightarrow> RuntimeSource \<Rightarrow> string option" where
  "offer p c s =
     (case pieceChecksums s of None \<Rightarrow> None | Some m \<Rightarrow> if pieceSize s \<noteq> Some (chunkSize p) then None else m (pindex c))"

definition orElse :: "'a option \<Rightarrow> 'a option \<Rightarrow> 'a option" where
  "orElse k y = (case k of Some x \<Rightarrow> Some x | None \<Rightarrow> y)"

lemma orElse_simps [simp]: "orElse None y = y" "orElse (Some x) y = Some x" "orElse k None = k"
  by (simp_all add: orElse_def split: option.split)

lemma foldl_orElse_Some [simp]: "foldl orElse (Some x) ys = Some x"
  by (induction ys) auto

lemma foldl_orElse_cases: "foldl orElse k ys = k \<or> foldl orElse k ys \<in> set ys"
  by (induction ys rule: rev_induct) (auto simp: orElse_def split: option.split)

lemma foldl_orElse_None: "foldl orElse k ys = None \<Longrightarrow> k = None \<and> set ys \<subseteq> {None}"
  by (induction ys rule: rev_induct) (auto simp: orElse_def split: option.splits)

lemma adoptFrom_eq:
  "adoptFrom p s = p\<lparr>chunks := map (\<lambda>c. c\<lparr>pchecksum := orElse (pchecksum c) (offer p c s)\<rparr>) (chunks p)\<rparr>"
proof -
  consider (none) "pieceChecksums s = None" | (other) m where "pieceChecksums s = Some m" "pieceSize s \<noteq> Some (chunkSize p)"
    | (same) m where "pieceChecksums s = Some m" "pieceSize s = Some (chunkSize p)" by (cases "pieceChecksums s") auto
  then show ?thesis
  proof cases
    case same
    then show ?thesis by (simp add: adoptFrom_def offer_def orElse_def)
  qed (simp_all add: adoptFrom_def offer_def)
qed

lemma adopt_eq:
  "adoptPieceChecksums p ss
     = p\<lparr>chunks := map (\<lambda>c. c\<lparr>pchecksum := foldl orElse (pchecksum c) (map (offer p c) ss)\<rparr>) (chunks p)\<rparr>"
proof (induction ss rule: rev_induct)
  case Nil
  then show ?case by (simp add: adoptPieceChecksums_def)
next
  case (snoc s ss)
  let ?q = "p\<lparr>chunks := map (\<lambda>c. c\<lparr>pchecksum := foldl orElse (pchecksum c) (map (offer p c) ss)\<rparr>) (chunks p)\<rparr>"
  have "adoptPieceChecksums p (ss @ [s]) = adoptFrom ?q s" using snoc by (simp add: adoptPieceChecksums_def)
  also have offered: "offer ?q c s = offer p c s" "offer p (c\<lparr>pchecksum := k\<rparr>) s = offer p c s" for c k
    by (simp_all add: offer_def split: option.split)
  have "adoptFrom ?q s = p\<lparr>chunks := map (\<lambda>c. c\<lparr>pchecksum := foldl orElse (pchecksum c) (map (offer p c) (ss @ [s]))\<rparr>) (chunks p)\<rparr>"
    unfolding adoptFrom_eq [of ?q] offered by (simp add: comp_def offered)
  finally show ?case .
qed

lemma adopted_digest:
  assumes "pchecksum c = None" "c \<in> set (chunks p)" "list_all (honestSource hash src p) ss" "list_ex (coversAll p) ss"
  shows "foldl orElse (pchecksum c) (map (offer p c) ss) = Some (pieceDigest hash src c)"
proof -
  have each: "offer p c s = None \<or> offer p c s = Some (pieceDigest hash src c)" if "s \<in> set ss" for s
    using assms(2,3) that by (auto simp: offer_def honestSource_def list_all_iff split: option.splits)
  have "foldl orElse (pchecksum c) (map (offer p c) ss) \<noteq> None"
  proof
    assume "foldl orElse (pchecksum c) (map (offer p c) ss) = None"
    then have no: "offer p c s = None" if "s \<in> set ss" for s using foldl_orElse_None that by fastforce
    obtain s where "s \<in> set ss" "coversAll p s" using assms(4) by (auto simp: list_ex_iff)
    then show False using no [of s] assms(2) by (auto simp: coversAll_def offer_def list_all_iff split: option.splits)
  qed
  then show ?thesis using foldl_orElse_cases [of "pchecksum c" "map (offer p c) ss"] each assms(1) by fastforce
qed

lemma wholeBytes_int [simp]: "0 \<le> n \<Longrightarrow> wholeBytes (Some (of_int n)) = n"
  by (auto simp: wholeBytes_def js_floor_def js_or_def)

lemma wholeBytes_nat [simp]: "wholeBytes (Some (of_nat n)) = int n"
  using wholeBytes_int [of "int n"] by simp

lemma laid_plan:
  assumes "planChunks (Some (of_int (int (length src)))) cfg [] = Some laid"
  shows "chunk_layout (ranges (chunks laid)) (int (length src))" "bytesTotal laid = int (length src)" "\<not> resumed laid"
    "list_all (\<lambda>c. psize c = pend c - pstart c + 1 \<and> pstate c = ChunkPending \<and> pchecksum c = None) (chunks laid)"
proof -
  let ?t = "Some (of_int (int (length src))) :: jsnum"
  show "chunk_layout (ranges (chunks laid)) (int (length src))"
    using fresh.chunk_layout_axioms [of ?t cfg] assms by (simp add: plannedRanges_def)
  show "bytesTotal laid = int (length src)" "\<not> resumed laid"
    "list_all (\<lambda>c. psize c = pend c - pstart c + 1 \<and> pstate c = ChunkPending \<and> pchecksum c = None) (chunks laid)"
    using assms by (auto simp: planChunks_fresh Let_def list_all_iff layout_simps)
qed

lemma prepared_sealed:
  assumes "planChunks (Some (of_int (int (length src)))) cfg [] = Some laid" and "totalBytesOf stored ss = int (length src)"
    and "list_all (honestSource hash src laid) ss" "list_ex (coversAll laid) ss"
    and "prepareRun now cfg stored [] ss found = Some r0"
  shows "sealed hash src r0"
proof -
  note laid = laid_plan [OF assms(1)]
  have plan: "plan r0 = adoptPieceChecksums laid ss" using assms(1,2,5) by (auto simp: prepareRun_def Let_def)
  have "foldl orElse (pchecksum c) (map (offer laid c) ss) = Some (hash (slice (pstart c) (pend c) src))" if "c \<in> set (chunks laid)" for c
    using adopted_digest [OF _ that assms(3,4)] laid(4) that by (auto simp: list_all_iff pieceDigest_def)
  then show ?thesis using laid(1,2) by (simp add: sealed_def shape_def plan adopt_eq ranges_def comp_def)
qed

subsection \<open>What is placed\<close>

lemma finish_places:
  assumes "sealed hash src r" and "finish hash t perSource passes env req r fs = Some (r', out, fs')"
    and "\<And>bs. hash bs \<noteq> []"
    and "\<And>s e. hash (slice s e (workFile r')) = hash (slice s e src) \<Longrightarrow> slice s e (workFile r') = slice s e src"
    and sep: "separate req" and "File_Move.resumable src (fs (partialOf req))" and "\<not> resumeStatFails env"
    and "delivers (drop (readOffset env req src (fs(source req \<mapsto> File src))) src) (script env)"
  shows "case out of
      FinishPlaced res \<Rightarrow> workFile r' = src
        \<and> (if arrived res then fs' (destination req) = Some (File src)
           else fs' (source req) = Some (File src) \<and> fs' (destination req) = fs (destination req))
    | _ \<Rightarrow> fs' (source req) = Some (File (workFile r')) \<and> fs' (destination req) = fs (destination req)"
proof -
  let ?fs1 = "\<lambda>f. fs(source req \<mapsto> File f)"
  obtain loop: "repairLoop hash t perSource MAX_REPAIR_PASSES passes r = Some r'"
    and out: "(out, fs') = (if threw r' then (FinishThrew, ?fs1 (workFile r'))
      else if \<not> ok (verifyRun hash t r') then (FinishMismatch, ?fs1 (workFile r'))
      else case move env req (?fs1 (workFile r')) of (res, fs2) \<Rightarrow> (FinishPlaced res, fs2))"
    using assms(2) by (auto simp: finish_def Let_def split: option.splits if_splits prod.splits)
  have keep: "?fs1 f (destination req) = fs (destination req)" for f using separate_facts(1) [OF sep] by simp
  show ?thesis
  proof (cases "threw r' \<or> \<not> ok (verifyRun hash t r')")
    case True
    then show ?thesis using out keep by (auto split: if_splits)
  next
    case False
    have "sealed hash src r'" using assms(1) sealed_cong [OF repairLoop_shape [OF loop]] by simp
    then have whole: "workFile r' = src" using sealed_verified False assms(3,4) by blast
    have part: "File_Move.resumable src (?fs1 src (partialOf req))" using assms(6) separate_facts(2) [OF sep] by simp
    have "stage_ok src req (?fs1 src) (move env req (?fs1 src))"
      by (rule move_ok [OF sep _ part assms(7,8)]) simp
    then show ?thesis using out False whole keep [of src] by (auto simp: stage_ok_def split: prod.splits if_splits)
  qed
qed

lemma finish_at_once:
  assumes "ok (verifyRun hash t r)" and "\<not> threw r"
  shows "finish hash t perSource passes env req r fs
    = (case move env req (fs(source req \<mapsto> File (workFile r))) of (res, fs2) \<Rightarrow> Some (r, FinishPlaced res, fs2))"
proof -
  have "repairLoop hash t perSource MAX_REPAIR_PASSES passes r = Some r"
    using assms(1) by (simp add: MAX_REPAIR_PASSES_def numeral_3_eq_3)
  then show ?thesis using assms by (simp add: finish_def Let_def split: prod.split)
qed

text \<open>A transfer just set up is ready to download.\<close>

lemma prepared_ready:
  assumes "planChunks (Some (of_int (int (length src)))) cfg [] = Some laid" and "totalBytesOf stored ss = int (length src)"
    and "prepareRun now cfg stored [] ss found = Some r0" and "list_all (\<lambda>s. connections s = 0) ss" and "src \<noteq> []"
  shows "ready r0" "chunk_layout (ranges (chunks (plan r0))) (int (length src))" "bytesTotal (plan r0) = int (length src)"
    "length (workFile r0) \<le> length src" "list_all (\<lambda>c. psize c = pend c - pstart c + 1) (chunks (plan r0))"
    "list_all (\<lambda>c. pstate c = ChunkDone \<longrightarrow> agree src (workFile r0) (pstart c) (pend c + 1)) (chunks (plan r0))"
proof -
  note laid = laid_plan [OF assms(1)]
  have r0: "plan r0 = adoptPieceChecksums laid ss" "sources r0 = ss" "\<not> threw r0"
    "workFile r0 = openWorkFile (int (length src)) found"
    using assms(1,2,3) by (auto simp: prepareRun_def Let_def)
  show "chunk_layout (ranges (chunks (plan r0))) (int (length src))" "bytesTotal (plan r0) = int (length src)"
    using laid(1,2) by (simp_all add: r0 adopt_eq ranges_def comp_def)
  show "ready r0" "list_all (\<lambda>c. psize c = pend c - pstart c + 1) (chunks (plan r0))"
    "list_all (\<lambda>c. pstate c = ChunkDone \<longrightarrow> agree src (workFile r0) (pstart c) (pend c + 1)) (chunks (plan r0))"
    using laid(4) assms(4) by (simp_all add: ready_def r0 adopt_eq list_all_iff)
  show "length (workFile r0) \<le> length src" using assms(5) by (auto simp: r0(4) openWorkFile_def split: option.split)
qed

subsection \<open>What is reported\<close>

record TransferProgress =
  gBytesDone :: int
  gBytesTotal :: int
  gRate :: rat
  gEtaSeconds :: "int option"
  gChunksDone :: nat
  gChunksTotal :: int
  gSourceCount :: nat

definition mathRound :: "rat \<Rightarrow> int" where
  "mathRound x = \<lfloor>x + 1 / 2\<rfloor>"

definition toProgress :: "RunningTransfer \<Rightarrow> TransferProgress" where
  "toProgress r =
     (let remaining = max 0 (bytesTotal (plan r) - Chunk_Planner.bytesDone (plan r)) in
      \<lparr>gBytesDone = Chunk_Planner.bytesDone (plan r), gBytesTotal = bytesTotal (plan r), gRate = runRate r,
       gEtaSeconds = (if 0 < runRate r then Some (mathRound (of_int remaining / runRate r)) else None),
       gChunksDone = length (filter (\<lambda>c. pstate c = ChunkDone) (chunks (plan r))),
       gChunksTotal = chunksTotal (plan r),
       gSourceCount = length (filter healthy (sources r))\<rparr>)"

text \<open>Something thrown: an \<open>Error\<close> has a message, anything else only its \<open>String\<close>; Node adds the path.\<close>

record Thrown =
  isError :: bool
  message :: string
  errorPath :: "string option"

fun textIncludes :: "string \<Rightarrow> string \<Rightarrow> bool" where
  "textIncludes needle [] \<longleftrightarrow> needle = []"
| "textIncludes needle (c # cs) \<longleftrightarrow> prefix needle (c # cs) \<or> textIncludes needle cs"

definition classify :: "Thrown \<Rightarrow> string option \<Rightarrow> TransferErrorKind" where
  "classify e target =
     (let m = (if isError e then toLowerCase (message e) else message e); has = (\<lambda>word. textIncludes word m) in
      if has ''enospc'' \<or> has ''no space'' then DiskFull
      else if has ''eacces'' \<or> has ''eperm'' then PermissionDenied
      else if has ''enoent'' then
        (let path = (case errorPath e of None \<Rightarrow> [] | Some p \<Rightarrow> p);
             folder = (case target of None \<Rightarrow> None | Some d \<Rightarrow> if d = [] then None else Some (dirname d)) in
         case folder of
           Some f \<Rightarrow> if prefix f path then TargetMissing else SourceGone
         | None \<Rightarrow> SourceGone)
      else if has ''unauthor'' \<or> has ''401'' \<or> has ''403'' then SourceUnauthorized
      else if has ''404'' \<or> has ''gone'' then SourceGone
      else if has ''checksum'' \<or> has ''short chunk'' then ChecksumMismatch
      else if has ''timeout'' \<or> has ''econn'' \<or> has ''network'' then Network
      else UnknownKind)"

definition detailOf :: "Thrown \<Rightarrow> string option" where
  "detailOf e =
     (case errorPath e of
        Some p \<Rightarrow> if p \<noteq> [] then Some p else (if js_trim (message e) = [] then None else Some (take 300 (message e)))
      | None \<Rightarrow> if js_trim (message e) = [] then None else Some (take 300 (message e)))"

text \<open>The message of a chunk that ended short, as \<open>_fetchChunk\<close> throws it.\<close>

definition shortChunk :: "nat \<Rightarrow> nat \<Rightarrow> Thrown" where
  "shortChunk received wanted =
     \<lparr>isError = True, message = ''short chunk: '' @ showNat received @ '' of '' @ showNat wanted @ '' bytes'', errorPath = None\<rparr>"

text \<open>The digits of a length are read as a status code: a short chunk of 1404 bytes is a source that is gone.\<close>

lemma short_chunk_misread:
  "classify (shortChunk 1403 2048) None = SourceUnauthorized \<and> classify (shortChunk 1404 2048) None = SourceGone
   \<and> classify (shortChunk 1405 2048) None = ChecksumMismatch"
  by code_simp

text \<open>Bytes of an attempt that failed stay counted, so the bar of a transfer with one retry passes its end.\<close>

lemma progress_passes_total:
  "case dl_run 4 [WorkerTurn, Respond 0 False, Transfer_Worker.Piece 1 0 [7], FetchThrows 0,
        WorkerTurn, Respond 0 False, Transfer_Worker.Piece 1 0 [7], StreamEnds 0,
        WorkerTurn, Respond 0 False, Transfer_Worker.Piece 2 0 [8], StreamEnds 0, WorkerTurn] (startDownload 4 demoTransfer) of
     None \<Rightarrow> False
   | Some r \<Rightarrow> downloadReturned r \<and> workFile r = [7, 8] \<and> gBytesDone (toProgress r) = 3 \<and> gBytesTotal (toProgress r) = 2"
  by (simp add: demo_defs toProgress_def downloadReturned_def)

end
