(* ===== verification/Titles.thy ===== *)
theory Titles
  imports Js_Regex "HOL-Library.Multiset" "HOL-Library.Sublist"
begin

text \<open>
  Reading names: \<open>packages/api/src/services/title-normalizer.ts\<close>. Release names are reduced to the
  form two libraries can agree on, season and episode numbers are read out of them, and two reduced
  titles are compared. Strings are code units below 256, so \<open>normalize('NFD')\<close> with its marks
  removed is a table of single letters, and the Unicode classes of punctuation and symbols are
  tables too. Similarities are rationals.
\<close>

subsection \<open>Characters\<close>

definition between :: "nat \<Rightarrow> nat \<Rightarrow> char \<Rightarrow> bool" where
  "between a b c \<longleftrightarrow> a \<le> of_char c \<and> of_char c \<le> b"

text \<open>The letters that decompose, with the letter that is left without its mark.\<close>

definition foldTable :: "(nat \<times> char) list" where
  "foldTable =
     [(192, CHR ''A''), (193, CHR ''A''), (194, CHR ''A''), (195, CHR ''A''), (196, CHR ''A''), (197, CHR ''A''), (199, CHR ''C''), (200, CHR ''E''),
      (201, CHR ''E''), (202, CHR ''E''), (203, CHR ''E''), (204, CHR ''I''), (205, CHR ''I''), (206, CHR ''I''), (207, CHR ''I''), (209, CHR ''N''),
      (210, CHR ''O''), (211, CHR ''O''), (212, CHR ''O''), (213, CHR ''O''), (214, CHR ''O''), (217, CHR ''U''), (218, CHR ''U''), (219, CHR ''U''),
      (220, CHR ''U''), (221, CHR ''Y''), (224, CHR ''a''), (225, CHR ''a''), (226, CHR ''a''), (227, CHR ''a''), (228, CHR ''a''), (229, CHR ''a''),
      (231, CHR ''c''), (232, CHR ''e''), (233, CHR ''e''), (234, CHR ''e''), (235, CHR ''e''), (236, CHR ''i''), (237, CHR ''i''), (238, CHR ''i''),
      (239, CHR ''i''), (241, CHR ''n''), (242, CHR ''o''), (243, CHR ''o''), (244, CHR ''o''), (245, CHR ''o''), (246, CHR ''o''), (249, CHR ''u''),
      (250, CHR ''u''), (251, CHR ''u''), (252, CHR ''u''), (253, CHR ''y''), (255, CHR ''y'')]"

definition foldChar :: "char \<Rightarrow> char" where
  "foldChar c = (case map_of foldTable (of_char c) of Some d \<Rightarrow> d | None \<Rightarrow> c)"

definition foldAccents :: "string \<Rightarrow> string" where
  "foldAccents s = map foldChar s"

text \<open>The classes \<open>\p{P}\<close> and \<open>\p{S}\<close> below 256.\<close>

definition isMark :: "char \<Rightarrow> bool" where
  "isMark c \<longleftrightarrow>
     between 33 47 c \<or> between 58 64 c \<or> between 91 96 c \<or> between 123 126 c
     \<or> of_char c \<in> {161, 162, 163, 164, 165, 166, 167, 168, 169, 171, 172, 174, 175, 176, 177, 180, 182, 183, 184, 187, 191, 215, 247 :: nat}"

text \<open>The same on bits, for evaluation.\<close>

lemma isMark_bits [code]:
  "isMark (Char b0 b1 b2 b3 b4 b5 b6 b7) \<longleftrightarrow>
     (if b7 then
        (if b6 then b4 \<and> \<not> b3 \<and> b2 \<and> b1 \<and> b0
         else b5 \<and>
           (if b4 then \<not> (if b3 then (if b2 then \<not> (b1 \<and> b0) else b1 \<noteq> b0) else (if b2 then b0 \<and> \<not> b1 else b1))
            else \<not> (if b3 then (if b2 then b0 \<and> \<not> b1 else b1 \<and> \<not> b0) else \<not> (b2 \<or> b1 \<or> b0))))
      else if b6 then
        \<not> (b4 \<or> b3 \<or> b2 \<or> b1 \<or> b0) \<or> b4 \<and> b3 \<and> (if b2 then \<not> (b5 \<and> b1 \<and> b0) else b1 \<and> b0)
      else b5 \<and> (if b4 then b3 \<and> (b2 \<or> b1) else b3 \<or> b2 \<or> b1 \<or> b0))"
  by (cases b0; cases b1; cases b2; cases b3; cases b4; cases b5; cases b6; cases b7) (simp_all add: isMark_def between_def)

definition isAlnum :: "char \<Rightarrow> bool" where
  "isAlnum c \<longleftrightarrow> isDigit c \<or> between 97 122 c"

definition anyAlnum :: "char \<Rightarrow> bool" where
  "anyAlnum c \<longleftrightarrow> isAlnum (lowerChar c)"

definition toSpace :: "(char \<Rightarrow> bool) \<Rightarrow> string \<Rightarrow> string" where
  "toSpace P s = map (\<lambda>c. if P c then CHR '' '' else c) s"

text \<open>\<open>split(/\s+/)\<close> with the empty strings removed; \<open>replace(/\s+/g, ' ').trim()\<close> joins these by single spaces.\<close>

function wordsOf :: "string \<Rightarrow> string list" where
  "wordsOf s =
     (case dropWhile isSpace s of
        [] \<Rightarrow> []
      | c # cs \<Rightarrow> (c # takeWhile (\<lambda>d. \<not> isSpace d) cs) # wordsOf (dropWhile (\<lambda>d. \<not> isSpace d) cs))"
  by pat_completeness auto
termination
proof (relation "measure length")
  fix s c cs assume "dropWhile isSpace s = c # cs"
  then have "length (c # cs) \<le> length s" by (metis length_dropWhile_le)
  then show "(dropWhile (\<lambda>d. \<not> isSpace d) cs, s) \<in> measure length"
    using length_dropWhile_le [of "\<lambda>d. \<not> isSpace d" cs] by simp
qed simp

declare wordsOf.simps [simp del]

definition tidy :: "string \<Rightarrow> string" where
  "tidy s = joinWith '' '' (wordsOf s)"

subsection \<open>Names\<close>

definition stripExtension :: "string \<Rightarrow> string" where
  "stripExtension s = replaceFirst (cats [lit ''.'', Times 1 4 (Cls anyAlnum), Finish]) s []"

definition baseName :: "string \<Rightarrow> string" where
  "baseName s = last (splitOn (CHR ''/'') (map (\<lambda>c. if c = CHR 0x5C then CHR ''/'' else c) s))"

definition NOISE_TOKENS :: "string list" where
  "NOISE_TOKENS =
     [''480p'', ''576p'', ''720p'', ''1080p'', ''1080i'', ''1440p'', ''2160p'', ''4320p'', ''4k'', ''8k'', ''uhd'', ''hd'', ''sd'',
      ''bluray'', ''blueray'', ''bdrip'', ''brrip'', ''bdremux'', ''bd'', ''webrip'', ''webdl'', ''web'', ''hdtv'',
      ''pdtv'', ''dvdrip'', ''dvdscr'', ''dvd'', ''hdrip'', ''remux'', ''cam'', ''camrip'', ''telesync'', ''telecine'',
      ''ts'', ''tc'', ''r5'', ''vod'', ''amzn'', ''nf'', ''dsnp'', ''hmax'', ''atvp'', ''hulu'', ''itunes'', ''dl'', ''rip'',
      ''x264'', ''x265'', ''h264'', ''h265'', ''avc'', ''hevc'', ''xvid'', ''divx'', ''av1'', ''vp9'', ''mpeg2'',
      ''10bit'', ''8bit'', ''12bit'', ''hi10p'', ''hi10'',
      ''hdr'', ''hdr10'', ''hdr10plus'', ''dv'', ''dovi'', ''sdr'', ''hlg'',
      ''aac'', ''aac2'', ''ac3'', ''eac3'', ''ddp'', ''ddp5'', ''dd5'', ''dd'', ''dts'', ''dtshd'', ''dtsma'', ''truehd'',
      ''atmos'', ''flac'', ''mp3'', ''opus'', ''lpcm'', ''pcm'', ''2ch'', ''6ch'', ''8ch'', ''ma'', ''hra'', ''es'',
      ''proper'', ''repack'', ''rerip'', ''internal'', ''limited'', ''extended'', ''uncut'', ''unrated'', ''remastered'',
      ''imax'', ''theatrical'', ''directors'', ''director'', ''criterion'', ''anniversary'', ''complete'',
      ''multi'', ''dual'', ''vostfr'', ''vost'', ''vff'', ''vfq'', ''vf'', ''vo'', ''subbed'', ''subs'', ''sub'', ''dubbed'',
      ''hardcoded'', ''hc'', ''retail'']"

definition digit :: rx where "digit = Cls isDigit"

definition digits :: "nat \<Rightarrow> nat \<Rightarrow> rx" where "digits a b = Times a b digit"

definition spaces :: rx where "spaces = Star (Cls isSpace)"

definition NOISE_PATTERNS :: "rx list" where
  "NOISE_PATTERNS =
     [cats [Start, digit, lit ''.'', digit, Finish],
      cats [Start, digits 3 4, lit ''mb'', Finish],
      cats [Start, digit, Star digit, opt (cats [lit ''.'', digit, Star digit]), lit ''gb'', Finish],
      cats [Start, Times 2 3 (Cls (between 97 122)), digit, lit ''.'', digit, Finish]]"

definition isNoiseToken :: "string \<Rightarrow> bool" where
  "isNoiseToken token \<longleftrightarrow> token \<in> set NOISE_TOKENS \<or> list_ex (\<lambda>r. test r token) NOISE_PATTERNS"

definition LEADING_ARTICLES :: "string list" where
  "LEADING_ARTICLES =
     [''the'', ''a'', ''an'', ''le'', ''la'', ''les'', ''un'', ''une'', ''des'', ''der'', ''die'', ''das'', ''ein'', ''eine'',
      ''el'', ''los'', ''las'', ''una'', ''il'', ''lo'', ''gli'', ''i'', ''de'', ''het'', ''een'']"

definition century :: rx where "century = Or (lit ''19'') (lit ''20'')"

definition YEAR_PATTERN :: rx where "YEAR_PATTERN = cats [Start, century, digits 2 2, Finish]"

definition PAREN_YEAR :: rx where
  "PAREN_YEAR = cats [Cls (oneOf ''([''), century, digits 2 2, Cls (oneOf '')]'')]"

subsection \<open>Reducing a title\<close>

text \<open>
  The loop over the tokens: \<open>started\<close> says that something was kept before, \<open>rest\<close> are the tokens
  that follow.
\<close>

fun keepTokens :: "bool \<Rightarrow> string list \<Rightarrow> string list" where
  "keepTokens started [] = []"
| "keepTokens started (token # rest) =
     (if isNoiseToken token then keepTokens started rest
      else if test YEAR_PATTERN token \<and> started \<and> list_ex isNoiseToken rest then keepTokens started rest
      else token # keepTokens True rest)"

definition dropArticle :: "string list \<Rightarrow> string list" where
  "dropArticle kept = (case kept of t # u # us \<Rightarrow> if t \<in> set LEADING_ARTICLES then u # us else kept | _ \<Rightarrow> kept)"

definition separated :: "string \<Rightarrow> string" where
  "separated raw =
     (let v0 = toLowerCase (foldAccents raw);
          v1 = replaceAll (cats [lit ''{'', Star (Cls (noneOf ''}'')), lit ''}''])
                 (replaceAll (cats [lit ''['', Star (Cls (noneOf '']'')), lit '']'']) v0 '' '') '' '';
          v2 = concat (map (\<lambda>c. if c = CHR ''&'' then '' and '' else [c]) v1);
          v3 = replaceAll PAREN_YEAR v2 '' '';
          v4 = replaceAll (cats [Bound, digit, lit ''.'', digit, Bound]) v3 '' '';
          v5 = filter (\<lambda>c. c \<notin> {CHR 0x27, CHR 0x60}) v4
      in toSpace isMark v5)"

definition normalizeTitle :: "string \<Rightarrow> string" where
  "normalizeTitle raw =
     (if raw = [] then []
      else let normalized = tidy (joinWith '' '' (dropArticle (keepTokens False (wordsOf (separated raw))))) in
        if normalized \<noteq> [] then normalized
        else tidy (toSpace (\<lambda>c. \<not> isAlnum c) (toLowerCase (foldAccents raw))))"

subsection \<open>Year, season and episode\<close>

definition extractYear :: "string \<Rightarrow> nat option" where
  "extractYear raw =
     (case exec PAREN_YEAR raw of
        Some f \<Rightarrow> Some (parseDigits (butlast (tl (matched f))))
      | None \<Rightarrow>
          let tokens = wordsOf (toSpace (\<lambda>c. c \<in> {CHR ''.'', CHR ''_'', CHR ''-''}) (foldAccents raw)) in
          map_option parseDigits (find (test YEAR_PATTERN) (rev (drop 1 tokens))))"

record EpisodeNumbers =
  eSeason :: nat
  eEpisode :: nat
  eEpisodeEnd :: "nat option"

definition MAX_EPISODE_RUN :: nat where "MAX_EPISODE_RUN = 8"

definition RUN_NAMED :: rx where
  "RUN_NAMED = cats [Start, spaces, opt (cats [Or (Cls (oneOf ''-&+'')) (cats [liti ''to'', Bound]), spaces]),
     opt (cats [liti ''s'', digits 1 3, spaces]), Or (liti ''e'') (cats [digits 1 2, liti ''x'']), Group 1 (digits 1 4), NotAhead digit]"

definition RUN_BARE :: rx where
  "RUN_BARE = cats [Start, spaces, lit ''-'', spaces, Group 1 (digits 1 4), NotAhead digit]"

definition runEndOf :: "string \<Rightarrow> nat \<Rightarrow> nat option" where
  "runEndOf tail opening =
     (case (case exec RUN_NAMED tail of Some f \<Rightarrow> Some f | None \<Rightarrow> exec RUN_BARE tail) of
        None \<Rightarrow> None
      | Some f \<Rightarrow>
          let closing = parseDigits (the (captured f 1)) in
          if opening < closing \<and> closing - opening \<le> MAX_EPISODE_RUN then Some closing else None)"

definition SXXEXX :: rx where
  "SXXEXX = cats [Bound, liti ''s'', opt (liti ''eason''), spaces, Group 1 (digits 1 3), spaces,
     Star (Cls (blankOr ''._-'')), spaces,
     liti ''e'', opt (cats [liti ''p'', opt (liti ''isode'')]), spaces, Group 2 (digits 1 4), NotAhead digit]"

definition CROSS :: rx where
  "CROSS = cats [Bound, Group 1 (digits 1 2), liti ''x'', Group 2 (digits 1 3), NotAhead digit]"

definition SPELLED :: rx where
  "SPELLED = cats [Bound, liti ''season'', spaces, Group 1 (digits 1 3), Bound, Times 0 12 (Cls notDigit), Bound,
     liti ''episode'', spaces, Group 2 (digits 1 4), NotAhead digit]"

definition BARE :: rx where
  "BARE = cats [Or Start (Cls (blankOr ''-'')), Group 1 (digits 3 4),
     Ahead (Or Finish (Cls (blankOr ''-.'')))]"

text \<open>The answer of the first three forms.\<close>

definition tagged :: "found \<Rightarrow> EpisodeNumbers" where
  "tagged f =
     (let n = parseDigits (the (captured f 2)) in
      \<lparr>eSeason = parseDigits (the (captured f 1)), eEpisode = n, eEpisodeEnd = runEndOf (after f) n\<rparr>)"

definition bareNumbers :: "string \<Rightarrow> EpisodeNumbers option" where
  "bareNumbers value =
     (case exec BARE value of
        None \<Rightarrow> None
      | Some f \<Rightarrow>
          let ds = the (captured f 1); season = parseDigits (take (length ds - 2) ds); episode = parseDigits (drop (length ds - 2) ds) in
          if test YEAR_PATTERN ds then None
          else if 1 \<le> season \<and> season \<le> 99 then Some \<lparr>eSeason = season, eEpisode = episode, eEpisodeEnd = None\<rparr>
          else None)"

definition parseEpisodeNumbers :: "string \<Rightarrow> EpisodeNumbers option" where
  "parseEpisodeNumbers raw =
     (if raw = [] then None
      else let value = toSpace (\<lambda>c. c \<in> {CHR ''.'', CHR ''_''}) (foldAccents raw) in
        case exec SXXEXX value of Some f \<Rightarrow> Some (tagged f) | None \<Rightarrow>
        case exec CROSS value of Some f \<Rightarrow> Some (tagged f) | None \<Rightarrow>
        case exec SPELLED value of Some f \<Rightarrow> Some (tagged f) | None \<Rightarrow> bareNumbers value)"

subsection \<open>The whole name\<close>

text \<open>The offset of the first noise token that is not at the start.\<close>

fun noiseOffset :: "nat \<Rightarrow> string list \<Rightarrow> nat option" where
  "noiseOffset offset [] = None"
| "noiseOffset offset (token # rest) =
     (let cleaned = filter (\<lambda>c. isAlnum c \<or> c = CHR ''.'') (toLowerCase (foldAccents token)) in
      if cleaned \<noteq> [] \<and> isNoiseToken cleaned \<and> 0 < offset then Some offset
      else noiseOffset (offset + length token + 1) rest)"

definition markerAt :: "found option \<Rightarrow> nat list" where
  "markerAt f = (case f of None \<Rightarrow> [] | Some m \<Rightarrow> if before m = [] then [] else [length (before m)])"

definition TAG_SEASON_EPISODE :: rx where
  "TAG_SEASON_EPISODE = cats [Bound, liti ''s'', opt (liti ''eason''), spaces, digits 1 3, spaces,
     Star (Cls (blankOr ''._-'')), spaces,
     liti ''e'', opt (cats [liti ''p'', opt (liti ''isode'')]), spaces, digits 1 4, NotAhead digit]"

definition episodeTag :: "string \<Rightarrow> found option" where
  "episodeTag spaced =
     (case exec TAG_SEASON_EPISODE spaced of Some f \<Rightarrow> Some f | None \<Rightarrow>
      case exec (cats [Bound, digits 1 2, liti ''x'', digits 1 3, Bound]) spaced of Some f \<Rightarrow> Some f | None \<Rightarrow>
        exec (cats [Bound, liti ''season'', spaces, digits 1 3, Bound]) spaced)"

definition YEAR_IN_NAME :: rx where
  "YEAR_IN_NAME = cats [opt (Cls (oneOf ''(['')), century, digits 2 2, opt (Cls (oneOf '')]''))]"

definition titlePart :: "string \<Rightarrow> string" where
  "titlePart raw =
     (let spaced = toSpace (\<lambda>c. c \<in> {CHR ''.'', CHR ''_''}) raw;
          markers = markerAt (episodeTag spaced) @ markerAt (exec YEAR_IN_NAME spaced)
            @ (case noiseOffset 0 (splitOn (CHR '' '') spaced) of None \<Rightarrow> [] | Some k \<Rightarrow> [k]);
          cut = (if markers \<noteq> [] then foldr min markers (length spaced) else length spaced);
          front = js_trim (take cut spaced)
      in if front \<noteq> [] then front else js_trim spaced)"

record ParsedTitle =
  pTitle :: string
  pNormalizedTitle :: string
  pYear :: "nat option"
  pSeasonNumber :: "nat option"
  pEpisodeNumber :: "nat option"
  pEpisodeNumberEnd :: "nat option"

definition parseTitle :: "string \<Rightarrow> ParsedTitle" where
  "parseTitle raw =
     (let name = stripExtension (baseName raw); numbers = parseEpisodeNumbers name;
          readable = tidy (toSpace
            (\<lambda>c. c \<in> {CHR ''['', CHR '']'', CHR ''{'', CHR ''}'', CHR ''('', CHR '')''}) (titlePart name))
      in \<lparr>pTitle = readable, pNormalizedTitle = normalizeTitle readable, pYear = extractYear name,
          pSeasonNumber = map_option eSeason numbers, pEpisodeNumber = map_option eEpisode numbers,
          pEpisodeNumberEnd = Option.bind numbers eEpisodeEnd\<rparr>)"

subsection \<open>Similarity\<close>

fun bigramsOf :: "string \<Rightarrow> string list" where
  "bigramsOf (a # b # cs) = [a, b] # bigramsOf (b # cs)"
| "bigramsOf cs = []"

definition countIn :: "(string \<times> nat) list \<Rightarrow> string \<Rightarrow> nat" where
  "countIn m b = (case map_of m b of None \<Rightarrow> 0 | Some n \<Rightarrow> n)"

definition bigrams :: "string \<Rightarrow> (string \<times> nat) list" where
  "bigrams value = foldl (\<lambda>m b. AList.update b (countIn m b + 1) m) [] (bigramsOf (filter (\<lambda>c. \<not> isSpace c) value))"

definition countBigrams :: "(string \<times> nat) list \<Rightarrow> nat" where
  "countBigrams m = foldl (\<lambda>n (b, k). n + k) 0 m"

definition diceCoefficient :: "string \<Rightarrow> string \<Rightarrow> rat" where
  "diceCoefficient l r =
     (let lb = bigrams l; rb = bigrams r in
      if lb = [] \<or> rb = [] then 0
      else let shared = foldl (\<lambda>n (b, k). n + min k (countIn rb b)) 0 lb in
        of_nat (2 * shared) / of_nat (countBigrams lb + countBigrams rb))"

definition similarity :: "string \<Rightarrow> string \<Rightarrow> rat" where
  "similarity l r =
     (if l = r then (if l = [] then 0 else 1)
      else if l = [] \<or> r = [] then 0
      else
        let dice = diceCoefficient l r; longer = (if length r \<le> length l then l else r); shorter = (if length r \<le> length l then r else l) in
        if 6 \<le> length shorter \<and> sublist shorter longer then max dice (85 / 100) else dice)"

subsection \<open>The form of a reduced title\<close>

definition plainChar :: "char \<Rightarrow> bool" where
  "plainChar c \<longleftrightarrow> \<not> isSpace c \<and> \<not> isMark c \<and> lowerChar c = c \<and> foldChar c = c"

definition decomposes :: "nat \<Rightarrow> bool" where
  "decomposes n \<longleftrightarrow> map_of foldTable n \<noteq> None"

lemma foldChar_id: "\<not> decomposes (of_char c) \<Longrightarrow> foldChar c = c"
  by (simp add: foldChar_def decomposes_def split: option.split)

lemma lowerChar_code:
  "of_char (lowerChar c) = (let n = of_char c :: nat in if 65 \<le> n \<and> n \<le> 90 \<or> 192 \<le> n \<and> n \<le> 222 \<and> n \<noteq> 215 then n + 32 else n)"
  by (auto simp: lowerChar_def Let_def)

lemma lowerChar_idem: "lowerChar (lowerChar c) = lowerChar c"
proof -
  have "of_char (lowerChar (lowerChar c)) = (of_char (lowerChar c) :: nat)"
    unfolding lowerChar_code [of "lowerChar c"] by (auto simp: lowerChar_code Let_def)
  then show ?thesis by simp
qed

lemma decomposes_code: "decomposes n \<Longrightarrow> 192 \<le> n \<and> (224 \<le> n \<longrightarrow> decomposes (n - 32) \<or> n = 255)"
proof -
  have "list_all (\<lambda>n. 192 \<le> n \<and> (224 \<le> n \<longrightarrow> n - 32 \<in> set (map fst foldTable) \<or> n = 255)) (map fst foldTable)"
    by (simp add: foldTable_def)
  then show "decomposes n \<Longrightarrow> 192 \<le> n \<and> (224 \<le> n \<longrightarrow> decomposes (n - 32) \<or> n = 255)"
    by (auto simp: list_all_iff decomposes_def map_of_eq_None_iff)
qed

text \<open>For evaluation: only the upper quarter of the code units decomposes.\<close>

lemma foldChar_bits [code]:
  "foldChar (Char b0 b1 b2 b3 b4 b5 b6 b7) =
     (if b7 \<and> b6 then (case map_of foldTable (of_char (Char b0 b1 b2 b3 b4 b5 b6 b7)) of Some d \<Rightarrow> d | None \<Rightarrow> Char b0 b1 b2 b3 b4 b5 b6 b7)
      else Char b0 b1 b2 b3 b4 b5 b6 b7)"
proof (cases "b7 \<and> b6")
  case False
  then have "(of_char (Char b0 b1 b2 b3 b4 b5 b6 b7) :: nat) < 192"
    by (cases b0; cases b1; cases b2; cases b3; cases b4; cases b5; cases b6; cases b7) simp_all
  then have "\<not> decomposes (of_char (Char b0 b1 b2 b3 b4 b5 b6 b7))" using decomposes_code by fastforce
  from foldChar_id [OF this] show ?thesis unfolding if_not_P [OF False] .
next
  case True
  show ?thesis unfolding if_P [OF True] foldChar_def ..
qed

lemma folded_plain: "\<not> decomposes (of_char (foldChar c))"
proof (cases "map_of foldTable (of_char c)")
  case None
  then show ?thesis by (simp add: foldChar_def decomposes_def)
next
  case (Some d)
  have "list_all (\<lambda>(n, d). of_char d < (192 :: nat)) foldTable" by (simp add: foldTable_def)
  then have "of_char d < (192 :: nat)" using map_of_SomeD [OF Some] by (auto simp: list_all_iff)
  then show ?thesis using Some decomposes_code [of "of_char d"] by (auto simp: foldChar_def)
qed

lemma reduced_char: "foldChar (lowerChar (foldChar c)) = lowerChar (foldChar c)"
proof (rule foldChar_id)
  show "\<not> decomposes (of_char (lowerChar (foldChar c)))"
    using folded_plain [of c] decomposes_code [of "of_char (lowerChar (foldChar c))"]
    by (auto simp: lowerChar_code Let_def split: if_splits)
qed

lemma alnum_code: "isAlnum c \<longleftrightarrow> (let n = of_char c :: nat in 48 \<le> n \<and> n \<le> 57 \<or> 97 \<le> n \<and> n \<le> 122)"
  by (simp add: isAlnum_def isDigit_def between_def Let_def)

lemma space_code: "isSpace c \<longleftrightarrow> of_char c \<in> {9, 10, 11, 12, 13, 32, 160 :: nat}"
proof -
  have eq: "c = d \<longleftrightarrow> of_char c = (of_char d :: nat)" for d by simp
  show ?thesis unfolding isSpace_def insert_iff empty_iff eq by (simp del: of_char_eq_iff)
qed

lemma alnum_plain: "isAlnum c \<Longrightarrow> plainChar c"
proof -
  assume a: "isAlnum c"
  then have "\<not> 192 \<le> (of_char c :: nat)" by (auto simp: alnum_code Let_def)
  then have "\<not> decomposes (of_char c)" using decomposes_code [of "of_char c"] by blast
  moreover have "of_char (lowerChar c) = (of_char c :: nat)" using a by (auto simp: lowerChar_code alnum_code Let_def)
  ultimately show ?thesis using a
    by (auto simp: plainChar_def isMark_def between_def space_code alnum_code Let_def foldChar_id)
qed

lemma left_suffix: "q \<in> set (attempt r \<lparr>seen = sn, left = xs, groups = []\<rparr>) \<Longrightarrow> set (left q) \<subseteq> set xs"
proof -
  assume "q \<in> set (attempt r \<lparr>seen = sn, left = xs, groups = []\<rparr>)"
  then have "rev (seen q) @ left q = rev sn @ xs" "length (left q) \<le> length xs"
    using attempt_within by (fastforce simp: within_text_def)+
  then have "drop (length xs - length (left q)) xs = left q" using Js_Regex.suffix_drop by blast
  then show ?thesis by (metis set_drop_subset)
qed

lemma set_replaceFrom: "set (replaceFrom r new sn xs) \<subseteq> set xs \<union> set new"
proof (induction r new sn xs rule: replaceFrom.induct)
  case (2 r new sn c cs)
  show ?case
  proof (cases "attempt r \<lparr>seen = sn, left = c # cs, groups = []\<rparr>")
    case (Cons q qs)
    then have "set (left q) \<subseteq> set (c # cs)" using left_suffix [of q r sn "c # cs"] by simp
    then show ?thesis using Cons 2 by (auto split: if_splits)
  qed (use 2 in auto)
qed auto

lemma set_replaceAll: "c \<in> set (replaceAll r s new) \<Longrightarrow> c \<in> set s \<or> c \<in> set new"
  using set_replaceFrom [of r new "[]" s] by (auto simp: replaceAll_def)

lemma separated_chars: "c \<in> set (separated raw) \<Longrightarrow> isSpace c \<or> plainChar c"
proof -
  define good where "good x \<longleftrightarrow> lowerChar x = x \<and> foldChar x = x" for x
  have good: "good x" if "x \<in> set (toLowerCase (foldAccents raw)) \<or> x \<in> set '' and ''" for x
    using that by (auto simp: good_def toLowerCase_def foldAccents_def reduced_char lowerChar_idem) (simp_all add: lowerChar_def foldChar_def foldTable_def)
  have sp: "good CHR '' ''" "isSpace CHR '' ''" using good [of "CHR '' ''"] by (auto simp: isSpace_def)
  have through: "list_all good s \<Longrightarrow> list_all good (replaceAll r s '' '')" for r s
    using sp(1) by (auto simp: list_all_iff dest!: set_replaceAll)
  have v0: "list_all good (toLowerCase (foldAccents raw))" using good by (simp add: list_all_iff)
  have amp: "list_all good s \<Longrightarrow> list_all good (concat (map (\<lambda>c. if c = CHR ''&'' then '' and '' else [c]) s))" for s
    using good by (auto simp: list_all_iff split: if_splits)
  have fil: "list_all good s \<Longrightarrow> list_all good (filter P s)" for s P by (simp add: list_all_iff)
  obtain s where s: "list_all good s" "separated raw = toSpace isMark s"
    unfolding separated_def Let_def using fil [OF through [OF through [OF amp [OF through [OF through [OF v0]]]]]] by blast
  assume "c \<in> set (separated raw)"
  then show "isSpace c \<or> plainChar c" using s sp by (auto simp: toSpace_def plainChar_def good_def list_all_iff)
qed

lemma wordsOf_words: "w \<in> set (wordsOf s) \<Longrightarrow> w \<noteq> [] \<and> list_all (\<lambda>c. \<not> isSpace c \<and> c \<in> set s) w"
proof (induction s rule: wordsOf.induct)
  case (1 s)
  show ?case
  proof (cases "dropWhile isSpace s")
    case Nil
    then show ?thesis using 1(2) unfolding wordsOf.simps [of s] Nil by simp
  next
    case (Cons c cs)
    let ?tail = "dropWhile (\<lambda>d. \<not> isSpace d) cs"
    have inc: "set (c # cs) \<subseteq> set s" using Cons by (metis set_dropWhileD subsetI)
    have nsp: "\<not> isSpace c" using Cons by (metis dropWhile_eq_Cons_conv)
    have cases: "w = c # takeWhile (\<lambda>d. \<not> isSpace d) cs \<or> w \<in> set (wordsOf ?tail)"
      using 1(2) Cons by (subst (asm) wordsOf.simps) simp
    have here: "list_all (\<lambda>d. \<not> isSpace d \<and> d \<in> set s) (c # takeWhile (\<lambda>d. \<not> isSpace d) cs)"
      using inc nsp by (auto simp: list_all_iff dest: set_takeWhileD)
    have later: "list_all (\<lambda>d. \<not> isSpace d \<and> d \<in> set s) v" if "list_all (\<lambda>d. \<not> isSpace d \<and> d \<in> set ?tail) v" for v
      using that inc by (auto simp: list_all_iff dest: set_dropWhileD)
    from cases show ?thesis
    proof
      assume "w \<in> set (wordsOf ?tail)"
      then show ?thesis using 1(1) [OF Cons] later by blast
    qed (use here in simp)
  qed
qed

text \<open>Trimming the collapsed string is joining its words.\<close>

definition isText :: "string \<Rightarrow> bool" where
  "isText w \<longleftrightarrow> w \<noteq> [] \<and> list_all (\<lambda>c. \<not> isSpace c) w"

lemma wordsOf_space: "isSpace c \<Longrightarrow> wordsOf (c # s) = wordsOf s"
  by (subst (1 2) wordsOf.simps) simp

lemma wordsOf_word: "isText w \<Longrightarrow> s = [] \<or> isSpace (hd s) \<Longrightarrow> wordsOf (w @ s) = w # wordsOf s"
proof -
  assume w: "isText w" and s: "s = [] \<or> isSpace (hd s)"
  then obtain c cs where cw: "w = c # cs" by (cases w) (auto simp: isText_def)
  have d: "dropWhile isSpace (w @ s) = c # cs @ s" using w cw by (simp add: isText_def)
  have t: "takeWhile (\<lambda>d. \<not> isSpace d) (cs @ s) = cs" "dropWhile (\<lambda>d. \<not> isSpace d) (cs @ s) = s"
    using w s cw by (cases s; auto simp: isText_def list_all_iff takeWhile_append2 dropWhile_append2)+
  show ?thesis by (subst wordsOf.simps) (simp add: d t, simp add: cw)
qed

lemma wordsOf_join: "list_all isText ws \<Longrightarrow> wordsOf (joinWith '' '' ws) = ws"
proof (induction ws)
  case (Cons w ws)
  have sp: "isSpace CHR '' ''" by (simp add: isSpace_def)
  show ?case
  proof (cases ws)
    case Nil
    then show ?thesis using Cons.prems wordsOf_word [of w "[]"] by (simp add: joinWith_Cons wordsOf.simps [of "[]"])
  next
    case (Cons v vs)
    then show ?thesis using Cons.prems Cons.IH wordsOf_word [of w "CHR '' '' # joinWith '' '' ws"] sp
      by (simp add: joinWith_Cons wordsOf_space)
  qed
qed (simp add: joinWith_Cons wordsOf.simps)

lemma keepTokens_sub: "set (keepTokens b ts) \<subseteq> set ts"
  by (induction ts arbitrary: b) auto

lemma dropArticle_sub: "set (dropArticle ts) \<subseteq> set ts" "dropArticle ts = [] \<longleftrightarrow> ts = []"
  by (auto simp: dropArticle_def split: list.splits)

lemma plain_text: "w \<noteq> [] \<Longrightarrow> list_all plainChar w \<Longrightarrow> isText w"
  by (auto simp: isText_def list_all_iff plainChar_def)

lemma tidy_join: "list_all isText ws \<Longrightarrow> tidy (joinWith '' '' ws) = joinWith '' '' ws"
  by (simp add: tidy_def wordsOf_join)

lemma join_empty: "list_all isText ws \<Longrightarrow> joinWith '' '' ws = [] \<longleftrightarrow> ws = []"
  by (cases ws) (auto simp: joinWith_def isText_def)

lemma words_plain:
  assumes "\<And>c. c \<in> set s \<Longrightarrow> isSpace c \<or> plainChar c"
  shows "list_all (\<lambda>w. w \<noteq> [] \<and> list_all plainChar w) (wordsOf s)"
  using assms wordsOf_words [of _ s] by (fastforce simp: list_all_iff)

lemma wordsOf_none: "wordsOf s = [] \<Longrightarrow> list_all isSpace s"
  by (subst (asm) wordsOf.simps) (auto simp: list_all_iff split: list.splits)

text \<open>
  A reduced title is words joined by single spaces, every character of them lower case, without
  accent, and neither a space, a punctuation mark nor a symbol; and a name with a letter or a digit
  in it never reduces to nothing, which would match every other nothing.
\<close>

lemma normalized_title_form:
  "(\<exists>ws. normalizeTitle raw = joinWith '' '' ws \<and> list_all (\<lambda>w. w \<noteq> [] \<and> list_all plainChar w) ws)
   \<and> (if list_ex isAlnum (toLowerCase (foldAccents raw)) then normalizeTitle raw \<noteq> [] else True)"
proof (cases "raw = []")
  case True
  then show ?thesis by (auto simp: normalizeTitle_def joinWith_def foldAccents_def toLowerCase_def intro: exI [of _ "[]"])
next
  case False
  let ?kept = "dropArticle (keepTokens False (wordsOf (separated raw)))"
  let ?least = "toSpace (\<lambda>c. \<not> isAlnum c) (toLowerCase (foldAccents raw))"
  have kept: "list_all (\<lambda>w. w \<noteq> [] \<and> list_all plainChar w) ?kept"
    using words_plain [of "separated raw"] separated_chars keepTokens_sub dropArticle_sub(1) by (fastforce simp: list_all_iff)
  have least: "list_all (\<lambda>w. w \<noteq> [] \<and> list_all plainChar w) (wordsOf ?least)"
    by (rule words_plain) (auto simp: toSpace_def isSpace_def alnum_plain)
  have txts: "list_all isText ?kept" using kept plain_text by (auto simp: list_all_iff)
  have norm: "normalizeTitle raw = (if ?kept \<noteq> [] then joinWith '' '' ?kept else tidy ?least)"
    using False tidy_join [OF txts] join_empty [OF txts] by (simp add: normalizeTitle_def)
  have "tidy ?least \<noteq> []" if "list_ex isAlnum (toLowerCase (foldAccents raw))"
  proof
    assume "tidy ?least = []"
    moreover have "list_all isText (wordsOf ?least)" using least plain_text by (auto simp: list_all_iff)
    ultimately have "list_all isSpace ?least" using join_empty wordsOf_none by (simp add: tidy_def)
    then show False using that alnum_plain by (auto simp: toSpace_def list_all_iff list_ex_iff plainChar_def split: if_splits)
  qed
  then show ?thesis using norm kept least join_empty [OF txts] by (auto simp: tidy_def)
qed

subsection \<open>Similarity, against multisets\<close>

definition pairs :: "string \<Rightarrow> string multiset" where
  "pairs s = mset (bigramsOf (filter (\<lambda>c. \<not> isSpace c) s))"

definition dice :: "string multiset \<Rightarrow> string multiset \<Rightarrow> rat" where
  "dice A B = (if A = {#} \<or> B = {#} then 0 else of_nat (2 * size (A \<inter># B)) / of_nat (size A + size B))"

lemma tally:
  "countIn (foldl (\<lambda>m b. AList.update b (countIn m b + 1) m) m0 bs) b = countIn m0 b + count (mset bs) b"
  "distinct (map fst m0) \<Longrightarrow> distinct (map fst (foldl (\<lambda>m b. AList.update b (countIn m b + 1) m) m0 bs))"
  "fst ` set (foldl (\<lambda>m b. AList.update b (countIn m b + 1) m) m0 bs) = fst ` set m0 \<union> set bs"
  by (induction bs arbitrary: m0)
    (auto simp: countIn_def update_conv' distinct_update dom_update split: option.split)

lemma bigrams_count: "countIn (bigrams s) b = count (pairs s) b"
  using tally(1) [of "[]"] by (simp add: bigrams_def pairs_def countIn_def [of "[]"])

lemma bigrams_keys: "distinct (map fst (bigrams s))" "fst ` set (bigrams s) = set_mset (pairs s)"
  using tally(2,3) [of "[]"] by (simp_all add: bigrams_def pairs_def)

lemma foldl_tally: "foldl (\<lambda>n (b, k). n + f b k) n0 m = n0 + sum_list (map (\<lambda>(b, k). f b k) m)" for n0 :: nat
  by (induction m arbitrary: n0) (auto simp: split: prod.splits)

lemma over_keys: "sum_list (map (\<lambda>(b, k). f b k) (bigrams s)) = (\<Sum>b \<in> set_mset (pairs s). f b (count (pairs s) b))"
proof -
  have "(b, k) \<in> set (bigrams s) \<Longrightarrow> k = count (pairs s) b" for b k
    using bigrams_count [of s b] map_of_is_SomeI [OF bigrams_keys(1)] by (simp add: countIn_def)
  then have same: "map (\<lambda>(b, k). f b k) (bigrams s) = map (\<lambda>b. f b (count (pairs s) b)) (map fst (bigrams s))"
    by auto
  show ?thesis unfolding same using sum_list_distinct_conv_sum_set [OF bigrams_keys(1)] bigrams_keys(2) by (metis set_map)
qed

lemma dice_pairs: "diceCoefficient l r = dice (pairs l) (pairs r)"
proof -
  have none: "bigrams s = [] \<longleftrightarrow> pairs s = {#}" for s using bigrams_keys(2) [of s] by (cases "bigrams s") auto
  have total: "countBigrams (bigrams s) = size (pairs s)" for s
    unfolding countBigrams_def foldl_tally [where f = "\<lambda>b k. k"] using over_keys [where f = "\<lambda>b k. k", of s]
    by (simp add: size_multiset_overloaded_eq)
  have "foldl (\<lambda>n (b, k). n + min k (countIn (bigrams r) b)) 0 (bigrams l) = size (pairs l \<inter># pairs r)"
    unfolding foldl_tally [where f = "\<lambda>b k. min k (countIn (bigrams r) b)"] over_keys [where f = "\<lambda>b k. min k (countIn (bigrams r) b)"]
    by (simp add: size_multiset_overloaded_eq bigrams_count) (rule sum.mono_neutral_cong_right, auto simp: min_def not_in_iff)
  then show ?thesis by (simp add: diceCoefficient_def none total dice_def Let_def)
qed

lemma dice_sym: "dice A B = dice B A"
  by (simp add: dice_def subset_mset.inf.commute [of A] add.commute disj_commute)

lemma dice_bounds: "0 \<le> dice A B \<and> dice A B \<le> 1"
proof -
  have "size (A \<inter># B) \<le> size A" "size (A \<inter># B) \<le> size B" by (auto intro: size_mset_mono)
  then have "2 * size (A \<inter># B) \<le> size A + size B" by simp
  then have "(of_nat (2 * size (A \<inter># B)) :: rat) \<le> of_nat (size A + size B)" by (simp only: of_nat_le_iff)
  then show ?thesis by (auto simp: dice_def divide_le_eq_1)
qed

lemma similarity_form:
  "similarity l r =
      (if l = r \<and> l \<noteq> [] then 1
       else if l = [] \<or> r = [] then 0
       else if 6 \<le> min (length l) (length r) \<and> (sublist l r \<or> sublist r l) then max (dice (pairs l) (pairs r)) (85 / 100)
       else dice (pairs l) (pairs r))"
proof -
  have "sublist a b \<Longrightarrow> length b \<le> length a \<Longrightarrow> a = b" for a b :: string by (auto simp: sublist_def)
  from this [of l r] this [of r l] show ?thesis by (auto simp: similarity_def dice_pairs Let_def)
qed

lemma similarity_sym: "similarity l r = similarity r l"
  by (auto simp: similarity_form dice_sym)

lemma similarity_bounds: "0 \<le> similarity l r \<and> similarity l r \<le> 1"
  using dice_bounds [of "pairs l" "pairs r"] by (auto simp: similarity_form max_def)

text \<open>
  The similarity of two titles is the Dice coefficient of their multisets of letter pairs, raised
  to 0.85 where one title of at least six characters is part of the other; it is symmetric and
  between 0 and 1.
\<close>

lemma similarity_is_dice:
  "similarity l r = similarity r l \<and> 0 \<le> similarity l r \<and> similarity l r \<le> 1
   \<and> similarity l r =
      (if l = r \<and> l \<noteq> [] then 1
       else if l = [] \<or> r = [] then 0
       else if 6 \<le> min (length l) (length r) \<and> (sublist l r \<or> sublist r l) then max (dice (pairs l) (pairs r)) (85 / 100)
       else dice (pairs l) (pairs r))"
  using similarity_form similarity_sym similarity_bounds by blast

text \<open>
  The first year of a name cuts the title, also where that year belongs to the title and the year of
  the film follows in parentheses.
\<close>

lemma year_in_title_is_lost: "titlePart ''Blade Runner 2049 (2017)'' = ''Blade Runner''"
  by code_simp

end
