(* ===== verification/Matching.thy ===== *)
theory Matching
  imports Quality Titles Match_Graph Media_Override
begin

text \<open>
  Which rows are the same media: \<open>packages/api/src/services/matching.service.ts\<close>, on the
  similarity of \<open>Titles\<close>, the comparison of \<open>Quality\<close> and the states of \<open>Match_Graph\<close>. Confidences are
  rationals where the code has doubles. A map of the options that is absent answers as an empty
  one. The sentence of a conflict is a constructor with its two lengths in minutes.
\<close>

subsection \<open>Data\<close>

datatype MatchStrategy = CHECKSUM | EXTERNAL_ID | SEASON_EPISODE | ABSOLUTE_EPISODE | NORMALIZED_TITLE | PATH | MANUAL

record MatchCandidate =
  cId :: string
  cServiceId :: string
  cPeerId :: "string option"
  cParentId :: "string option"
  cKind :: MediaKind
  cNormalizedTitle :: string
  cYear :: "int option"
  cSeason :: "int option"
  cEpisode :: "int option"
  cIds :: ExternalIds
  cFile :: "MediaFileInfo option"

record MatchOptions =
  threshold :: rat
  parentMatches :: "string \<rightharpoonup> string set"
  episodeIdentifiers :: "string \<rightharpoonup> string set"
  absolutePairs :: "string \<rightharpoonup> string set"

datatype MatchReason = BetterCopy string | DifferentCut int int

record MatchProposal =
  mLocalItemId :: string
  mRemoteItemId :: string
  mRemoteServiceId :: string
  mRemotePeerId :: "string option"
  mStrategy :: MatchStrategy
  mConfidence :: rat
  mState :: SyncState
  mReason :: "MatchReason option"
  mApplied :: bool

type_synonym scored = "(MatchStrategy \<times> rat) option"

definition TITLE_FLOOR :: rat where "TITLE_FLOOR = 62 / 100"
definition TITLE_CEILING :: rat where "TITLE_CEILING = 95 / 100"

datatype Evidence = ByChecksum | ByExternalId | BySeasonEpisode | ByAbsoluteEpisode | ByExactPath | ByBasename

fun CONFIDENCE :: "Evidence \<Rightarrow> rat" where
  "CONFIDENCE ByChecksum = 1"
| "CONFIDENCE ByExternalId = 98 / 100"
| "CONFIDENCE BySeasonEpisode = 95 / 100"
| "CONFIDENCE ByAbsoluteEpisode = 90 / 100"
| "CONFIDENCE ByExactPath = 85 / 100"
| "CONFIDENCE ByBasename = 80 / 100"

datatype IdKey = Imdb | Tmdb | Tvdb | Musicbrainz

fun keyName :: "IdKey \<Rightarrow> string" where
  "keyName Imdb = ''imdb''"
| "keyName Tmdb = ''tmdb''"
| "keyName Tvdb = ''tvdb''"
| "keyName Musicbrainz = ''musicbrainz''"

fun idOf :: "ExternalIds \<Rightarrow> IdKey \<Rightarrow> string option" where
  "idOf known Imdb = imdb known"
| "idOf known Tmdb = tmdb known"
| "idOf known Tvdb = tvdb known"
| "idOf known Musicbrainz = musicbrainz known"

definition WORK_IDENTIFIERS :: "IdKey list" where "WORK_IDENTIFIERS = [Imdb, Tmdb, Tvdb]"
definition CATALOGUE_IDENTIFIERS :: "IdKey list" where "CATALOGUE_IDENTIFIERS = [Musicbrainz]"

definition PLACEHOLDER :: rx where
  "PLACEHOLDER = cats [Start, opt (liti ''tt''), lit ''0'', Star (lit ''0''), Finish]"

definition identifierValue :: "ExternalIds \<Rightarrow> IdKey \<Rightarrow> string option" where
  "identifierValue known key =
     (case idOf known key of
        None \<Rightarrow> None
      | Some value \<Rightarrow> let trimmed = js_trim value in if trimmed = [] \<or> test PLACEHOLDER trimmed then None else Some trimmed)"

subsection \<open>The strategies\<close>

definition truthy :: "string option \<Rightarrow> bool" where
  "truthy v \<longleftrightarrow> v \<noteq> None \<and> v \<noteq> Some []"

definition fileField :: "(MediaFileInfo \<Rightarrow> string option) \<Rightarrow> MatchCandidate \<Rightarrow> string option" where
  "fileField f c = Option.bind (cFile c) f"

definition agreeOn :: "string option \<Rightarrow> string option \<Rightarrow> bool" where
  "agreeOn a b \<longleftrightarrow> truthy a \<and> truthy b \<and> a = b"

definition checksumMatch :: "MatchCandidate \<Rightarrow> MatchCandidate \<Rightarrow> scored" where
  "checksumMatch l r =
     (if agreeOn (fileField checksum l) (fileField checksum r) then Some (CHECKSUM, CONFIDENCE ByChecksum)
      else if agreeOn (fileField contentId l) (fileField contentId r) then Some (CHECKSUM, CONFIDENCE ByChecksum)
      else None)"

definition sharesId :: "MatchCandidate \<Rightarrow> MatchCandidate \<Rightarrow> IdKey \<Rightarrow> bool" where
  "sharesId l r key \<longleftrightarrow> identifierValue (cIds l) key \<noteq> None \<and> identifierValue (cIds l) key = identifierValue (cIds r) key"

definition differOn :: "MatchCandidate \<Rightarrow> MatchCandidate \<Rightarrow> IdKey \<Rightarrow> bool" where
  "differOn l r key \<longleftrightarrow>
     identifierValue (cIds l) key \<noteq> None \<and> identifierValue (cIds r) key \<noteq> None
     \<and> identifierValue (cIds l) key \<noteq> identifierValue (cIds r) key"

definition names :: "string set \<Rightarrow> MatchCandidate \<Rightarrow> IdKey \<Rightarrow> bool" where
  "names keys c key \<longleftrightarrow> keyName key @ '':'' @ the (identifierValue (cIds c) key) \<in> keys"

definition agreesOnAnEpisodeIdentifier :: "MatchCandidate \<Rightarrow> MatchCandidate \<Rightarrow> IdKey list \<Rightarrow> MatchOptions \<Rightarrow> bool" where
  "agreesOnAnEpisodeIdentifier l r providers options \<longleftrightarrow>
     (case (episodeIdentifiers options (cId l), episodeIdentifiers options (cId r)) of
        (Some lk, Some rk) \<Rightarrow> list_ex (\<lambda>key. sharesId l r key \<and> names lk l key \<and> names rk l key) providers
      | _ \<Rightarrow> False)"

definition externalIdMatch :: "MatchCandidate \<Rightarrow> MatchCandidate \<Rightarrow> IdKey list \<Rightarrow> MatchOptions \<Rightarrow> scored" where
  "externalIdMatch l r providers options =
     (if \<not> list_ex (sharesId l r) providers then None
      else if cKind l \<noteq> EPISODE then Some (EXTERNAL_ID, CONFIDENCE ByExternalId)
      else if agreesOnAnEpisodeIdentifier l r providers options then Some (EXTERNAL_ID, CONFIDENCE ByExternalId)
      else if cSeason l = None \<or> cSeason r = None \<or> cEpisode l = None \<or> cEpisode r = None then None
      else if cSeason l \<noteq> cSeason r \<or> cEpisode l \<noteq> cEpisode r then None
      else Some (EXTERNAL_ID, CONFIDENCE ByExternalId))"

definition contradicted :: "MatchCandidate \<Rightarrow> MatchCandidate \<Rightarrow> bool" where
  "contradicted l r \<longleftrightarrow> (cKind l = MOVIE \<or> cKind l = SERIES) \<and> list_ex (differOn l r) WORK_IDENTIFIERS"

definition separateCuts :: "MatchCandidate \<Rightarrow> MatchCandidate \<Rightarrow> bool" where
  "separateCuts l r \<longleftrightarrow> cKind l \<noteq> EPISODE \<and> isConflicting (cFile l) (cFile r)"

definition recordsLink :: "(string \<rightharpoonup> string set) \<Rightarrow> string \<Rightarrow> string \<Rightarrow> bool" where
  "recordsLink m x y \<longleftrightarrow> (case m x of None \<Rightarrow> False | Some ys \<Rightarrow> y \<in> ys)"

definition underMatchedParents :: "MatchCandidate \<Rightarrow> MatchCandidate \<Rightarrow> MatchOptions \<Rightarrow> bool" where
  "underMatchedParents l r options \<longleftrightarrow>
     truthy (cParentId l) \<and> truthy (cParentId r) \<and> recordsLink (parentMatches options) (the (cParentId l)) (the (cParentId r))"

definition seasonEpisodeMatch :: "MatchCandidate \<Rightarrow> MatchCandidate \<Rightarrow> MatchOptions \<Rightarrow> scored" where
  "seasonEpisodeMatch l r options =
     (if cKind l \<noteq> EPISODE \<and> cKind l \<noteq> SEASON then None
      else if cSeason l = None \<or> cSeason l \<noteq> cSeason r then None
      else if cKind l = EPISODE \<and> cEpisode l \<noteq> cEpisode r then None
      else if cKind l = EPISODE \<and> cEpisode l = None then None
      else if \<not> underMatchedParents l r options then None
      else Some (SEASON_EPISODE, CONFIDENCE BySeasonEpisode))"

definition absoluteEpisodeMatch :: "MatchCandidate \<Rightarrow> MatchCandidate \<Rightarrow> MatchOptions \<Rightarrow> scored" where
  "absoluteEpisodeMatch l r options =
     (if cKind l \<noteq> EPISODE then None
      else if \<not> recordsLink (absolutePairs options) (cId l) (cId r) then None
      else if (case (episodeIdentifiers options (cId l), episodeIdentifiers options (cId r)) of
                 (Some lk, Some rk) \<Rightarrow> list_ex (\<lambda>key. differOn l r key \<and> names lk l key \<and> names rk r key) WORK_IDENTIFIERS
               | _ \<Rightarrow> False) then None
      else Some (ABSOLUTE_EPISODE, CONFIDENCE ByAbsoluteEpisode))"

definition yearConfidence :: "int option \<Rightarrow> int option \<Rightarrow> rat \<Rightarrow> rat" where
  "yearConfidence ly ry c =
     (case (ly, ry) of
        (Some a, Some b) \<Rightarrow>
          if a = b then min (c + 5 / 100) TITLE_CEILING else if \<bar>a - b\<bar> \<le> 1 then c - 1 / 10 else c - 4 / 10
      | _ \<Rightarrow> c)"

definition titleMatch :: "MatchCandidate \<Rightarrow> MatchCandidate \<Rightarrow> MatchOptions \<Rightarrow> scored" where
  "titleMatch l r options =
     (let s = similarity (cNormalizedTitle l) (cNormalizedTitle r) in
      if s < TITLE_FLOOR then None
      else if (cKind l = EPISODE \<or> cKind l = SEASON) \<and> (cSeason l = None \<or> cSeason l \<noteq> cSeason r) then None
      else if cKind l = SEASON \<and> \<not> underMatchedParents l r options then None
      else if cKind l = EPISODE \<and> (cEpisode l = None \<or> cEpisode l \<noteq> cEpisode r) then None
      else let c = yearConfidence (cYear l) (cYear r) (min s TITLE_CEILING) in
        if c \<le> 0 then None else Some (NORMALIZED_TITLE, c))"

definition fileName :: "string \<Rightarrow> string" where
  "fileName p = toLowerCase (baseName p)"

definition pathMatch :: "MatchCandidate \<Rightarrow> MatchCandidate \<Rightarrow> scored" where
  "pathMatch l r =
     (case (fileField (Some \<circ> path) l, fileField (Some \<circ> path) r) of
        (Some lp, Some rp) \<Rightarrow>
          if lp = [] \<or> rp = [] then None
          else if lp = rp then Some (PATH, CONFIDENCE ByExactPath)
          else if fileName lp = fileName rp \<and> 12 \<le> length (fileName lp) then Some (PATH, CONFIDENCE ByBasename)
          else None
      | _ \<Rightarrow> None)"

subsection \<open>Scoring\<close>

definition orTry :: "scored \<Rightarrow> scored \<Rightarrow> scored" where
  "orTry a b = (case a of Some x \<Rightarrow> Some x | None \<Rightarrow> b)"

definition score :: "MatchCandidate \<Rightarrow> MatchCandidate \<Rightarrow> MatchOptions \<Rightarrow> scored" where
  "score l r options =
     (if cKind l \<noteq> cKind r then None
      else orTry (checksumMatch l r)
       (orTry (externalIdMatch l r WORK_IDENTIFIERS options)
         (if contradicted l r then None
          else if separateCuts l r then None
          else orTry (externalIdMatch l r CATALOGUE_IDENTIFIERS options)
           (orTry (seasonEpisodeMatch l r options)
             (orTry (absoluteEpisodeMatch l r options)
               (orTry (titleMatch l r options) (pathMatch l r)))))))"

subsection \<open>States and proposals\<close>

definition deriveState :: "MatchCandidate option \<Rightarrow> MatchCandidate \<Rightarrow> SyncState" where
  "deriveState here there =
     (case here of
        None \<Rightarrow> Missing
      | Some l \<Rightarrow>
          if cFile l = None \<and> cFile there = None then InSync
          else if cFile l = None then Missing
          else if cFile there = None then LocalOnly
          else if isConflicting (cFile l) (cFile there) then Conflict
          else if 0 < order (compareFiles (cFile there) (cFile l)) then Outdated else InSync)"

definition toFixed4 :: "rat \<Rightarrow> rat" where
  "toFixed4 x = of_int \<lfloor>x * 10000 + 1 / 2\<rfloor> / 10000"

definition minutes :: "MediaFileInfo option \<Rightarrow> int" where
  "minutes f = (let ms = (case Option.bind f durationMs of None \<Rightarrow> 0 | Some d \<Rightarrow> d) in \<lfloor>(of_int ms :: rat) / 60000 + 1 / 2\<rfloor>)"

definition reasonOf :: "SyncState \<Rightarrow> MatchCandidate \<Rightarrow> MatchCandidate \<Rightarrow> string option \<Rightarrow> MatchReason option" where
  "reasonOf st l r qualityReason =
     (case st of
        Outdated \<Rightarrow> map_option BetterCopy qualityReason
      | Conflict \<Rightarrow> Some (DifferentCut (minutes (cFile r)) (minutes (cFile l)))
      | _ \<Rightarrow> None)"

definition toProposal :: "MatchCandidate \<Rightarrow> MatchCandidate \<Rightarrow> MatchStrategy \<times> rat \<Rightarrow> MatchOptions \<Rightarrow> MatchProposal" where
  "toProposal l r sc options =
     (let st = deriveState (Some l) r in
      \<lparr>mLocalItemId = cId l, mRemoteItemId = cId r, mRemoteServiceId = cServiceId r, mRemotePeerId = cPeerId r,
       mStrategy = fst sc, mConfidence = toFixed4 (snd sc), mState = st,
       mReason = reasonOf st l r (reason (compareFiles (cFile r) (cFile l))), mApplied = (threshold options \<le> snd sc)\<rparr>)"

definition considerRemote :: "MatchCandidate \<Rightarrow> MatchOptions \<Rightarrow> (string \<times> MatchProposal) list \<Rightarrow> MatchCandidate \<Rightarrow> (string \<times> MatchProposal) list" where
  "considerRemote l options best r =
     (if cId r = cId l then best
      else case score l r options of
        None \<Rightarrow> best
      | Some sc \<Rightarrow>
          let p = toProposal l r sc options in
          case map_of best (cId r) of
            None \<Rightarrow> AList.update (cId r) p best
          | Some incumbent \<Rightarrow> if mConfidence incumbent < mConfidence p then AList.update (cId r) p best else best)"

definition correlate :: "MatchCandidate \<Rightarrow> MatchCandidate list \<Rightarrow> MatchOptions \<Rightarrow> MatchProposal list" where
  "correlate l candidates options =
     sort_key (\<lambda>p. - mConfidence p) (map snd (foldl (considerRemote l options) [] candidates))"

definition deriveItemState :: "MatchProposal list \<Rightarrow> bool \<Rightarrow> SyncState" where
  "deriveItemState proposals heldLocally =
     (let applied = filter mApplied proposals in
      if applied = [] then (if heldLocally then LocalOnly else Missing)
      else case find (\<lambda>st. list_ex (\<lambda>p. mState p = st) applied) [Missing, Outdated, Conflict] of
        Some st \<Rightarrow> st
      | None \<Rightarrow> InSync)"

subsection \<open>The verdict does not depend on the side\<close>

lemma agreeOn_sym: "agreeOn a b = agreeOn b a"
  by (auto simp: agreeOn_def)

lemma checksumMatch_sym: "checksumMatch l r = checksumMatch r l"
  by (simp add: checksumMatch_def agreeOn_sym)

lemma sharesId_sym: "sharesId l r = sharesId r l"
  by (rule ext) (metis sharesId_def)

lemma differOn_sym: "differOn l r = differOn r l"
  by (rule ext) (auto simp: differOn_def)

lemma contradicted_sym: "cKind l = cKind r \<Longrightarrow> contradicted l r = contradicted r l"
  by (simp add: contradicted_def differOn_sym)

lemma separateCuts_sym: "cKind l = cKind r \<Longrightarrow> separateCuts l r = separateCuts r l"
  by (simp add: separateCuts_def isConflicting_sym)

lemma named_sym: "sharesId l r key \<Longrightarrow> names keys l key = names keys r key"
  by (simp add: sharesId_def names_def)

lemma agreesOnAnEpisodeIdentifier_sym:
  "agreesOnAnEpisodeIdentifier l r providers options = agreesOnAnEpisodeIdentifier r l providers options"
  using named_sym [of l r] sharesId_sym [of l r]
  by (auto simp: agreesOnAnEpisodeIdentifier_def list_ex_iff split: option.splits)

lemma externalIdMatch_sym:
  "cKind l = cKind r \<Longrightarrow> externalIdMatch l r providers options = externalIdMatch r l providers options"
  by (auto simp: externalIdMatch_def sharesId_sym [of l] agreesOnAnEpisodeIdentifier_sym [of l])

definition symmetricLinks :: "(string \<rightharpoonup> string set) \<Rightarrow> bool" where
  "symmetricLinks m \<longleftrightarrow> (\<forall>x y. recordsLink m x y = recordsLink m y x)"

lemma underMatchedParents_sym:
  "symmetricLinks (parentMatches options) \<Longrightarrow> underMatchedParents l r options = underMatchedParents r l options"
  by (auto simp: underMatchedParents_def symmetricLinks_def)

lemma seasonEpisodeMatch_sym:
  "cKind l = cKind r \<Longrightarrow> symmetricLinks (parentMatches options) \<Longrightarrow> seasonEpisodeMatch l r options = seasonEpisodeMatch r l options"
  by (auto simp: seasonEpisodeMatch_def underMatchedParents_sym)

lemma absoluteEpisodeMatch_sym:
  "cKind l = cKind r \<Longrightarrow> symmetricLinks (absolutePairs options) \<Longrightarrow> absoluteEpisodeMatch l r options = absoluteEpisodeMatch r l options"
  by (auto simp: absoluteEpisodeMatch_def differOn_sym [of l] symmetricLinks_def list_ex_iff split: option.splits)

lemma yearConfidence_sym: "yearConfidence a b c = yearConfidence b a c"
  by (auto simp: yearConfidence_def abs_minus_commute split: option.split)

lemma titleMatch_sym:
  "cKind l = cKind r \<Longrightarrow> symmetricLinks (parentMatches options) \<Longrightarrow> titleMatch l r options = titleMatch r l options"
  by (auto simp: titleMatch_def Let_def similarity_sym [of "cNormalizedTitle l"] yearConfidence_sym [of "cYear l"] underMatchedParents_sym)

lemma pathMatch_sym: "pathMatch l r = pathMatch r l"
  by (auto simp: pathMatch_def split: option.split)

lemmas strategy_sym =
  checksumMatch_sym externalIdMatch_sym contradicted_sym separateCuts_sym seasonEpisodeMatch_sym absoluteEpisodeMatch_sym
  titleMatch_sym pathMatch_sym

text \<open>
  Where the links between parents and the pairs of the numbering alignment are recorded both ways, a
  pair scores the same from both sides, by the same strategy: correlating from the remote item finds
  the match that correlating from the local one found.
\<close>

lemma score_is_symmetric:
  assumes "symmetricLinks (parentMatches options)" and "symmetricLinks (absolutePairs options)"
  shows "score l r options = score r l options"
proof (cases "cKind l = cKind r")
  case True
  show ?thesis using strategy_sym [of l r] True assms by (simp add: score_def)
qed (simp add: score_def eq_commute)

text \<open>Two films a title and a year agree on, and the same pair offered from the other side.\<close>

definition filmRow :: "string \<Rightarrow> string \<Rightarrow> int \<Rightarrow> MatchCandidate" where
  "filmRow i t y =
     \<lparr>cId = i, cServiceId = ''svc'', cPeerId = None, cParentId = None, cKind = MOVIE, cNormalizedTitle = t, cYear = Some y,
      cSeason = None, cEpisode = None,
      cIds = \<lparr>tvdb = None, tmdb = None, imdb = None, musicbrainz = None, provider = None\<rparr>, cFile = None\<rparr>"

definition noLinks :: MatchOptions where
  "noLinks = \<lparr>threshold = 8 / 10, parentMatches = Map.empty, episodeIdentifiers = Map.empty, absolutePairs = Map.empty\<rparr>"

lemma noLinks_symmetric: "symmetricLinks (parentMatches noLinks)" "symmetricLinks (absolutePairs noLinks)"
  by (simp_all add: noLinks_def symmetricLinks_def recordsLink_def)

lemma score_is_symmetric_witness:
  "score (filmRow ''a'' ''heat'' 1995) (filmRow ''b'' ''heat'' 1996) noLinks
     = score (filmRow ''b'' ''heat'' 1996) (filmRow ''a'' ''heat'' 1995) noLinks"
  by (rule score_is_symmetric [OF noLinks_symmetric])

subsection \<open>What a match rests on\<close>

lemma orTry_Some: "orTry a b = Some x \<longleftrightarrow> a = Some x \<or> a = None \<and> b = Some x"
  by (auto simp: orTry_def split: option.split)

lemma checksumMatch_Some:
  "checksumMatch l r = Some (st, c) \<longleftrightarrow>
     st = CHECKSUM \<and> c = 1 \<and> (agreeOn (fileField checksum l) (fileField checksum r) \<or> agreeOn (fileField contentId l) (fileField contentId r))"
  by (auto simp: checksumMatch_def)

lemma externalIdMatch_Some:
  "externalIdMatch l r providers options = Some (st, c) \<longleftrightarrow>
     st = EXTERNAL_ID \<and> c = 98 / 100 \<and> list_ex (sharesId l r) providers
     \<and> (cKind l \<noteq> EPISODE \<or> agreesOnAnEpisodeIdentifier l r providers options
        \<or> cSeason l \<noteq> None \<and> cEpisode l \<noteq> None \<and> cSeason l = cSeason r \<and> cEpisode l = cEpisode r)"
  by (auto simp: externalIdMatch_def)

lemma seasonEpisodeMatch_Some:
  "seasonEpisodeMatch l r options = Some (st, c) \<longleftrightarrow>
     st = SEASON_EPISODE \<and> c = 95 / 100 \<and> underMatchedParents l r options \<and> cSeason l \<noteq> None \<and> cSeason l = cSeason r
     \<and> (cKind l = SEASON \<or> cKind l = EPISODE \<and> cEpisode l \<noteq> None \<and> cEpisode l = cEpisode r)"
  by (cases "cSeason l") (auto simp: seasonEpisodeMatch_def)

lemma absoluteEpisodeMatch_Some:
  "absoluteEpisodeMatch l r options = Some (st, c) \<Longrightarrow>
     st = ABSOLUTE_EPISODE \<and> c = 90 / 100 \<and> cKind l = EPISODE \<and> recordsLink (absolutePairs options) (cId l) (cId r)"
  by (auto simp: absoluteEpisodeMatch_def split: if_splits)

lemma yearConfidence_le: "c \<le> TITLE_CEILING \<Longrightarrow> yearConfidence ly ry c \<le> TITLE_CEILING"
  by (auto simp: yearConfidence_def split: option.split)

lemma titleMatch_Some:
  "titleMatch l r options = Some (st, c) \<Longrightarrow>
     st = NORMALIZED_TITLE \<and> 0 < c \<and> c \<le> TITLE_CEILING \<and> TITLE_FLOOR \<le> similarity (cNormalizedTitle l) (cNormalizedTitle r)
     \<and> (cKind l = SEASON \<longrightarrow> underMatchedParents l r options \<and> cSeason l = cSeason r)
     \<and> (cKind l = EPISODE \<longrightarrow> cSeason l = cSeason r \<and> cEpisode l = cEpisode r)"
  using yearConfidence_le [of "min (similarity (cNormalizedTitle l) (cNormalizedTitle r)) TITLE_CEILING" "cYear l" "cYear r"]
  by (auto simp: titleMatch_def Let_def split: if_splits)

lemma pathMatch_Some:
  "pathMatch l r = Some (st, c) \<Longrightarrow>
     st = PATH \<and> (case (cFile l, cFile r) of
       (Some f, Some g) \<Rightarrow> path f \<noteq> [] \<and> path g \<noteq> []
         \<and> (if path f = path g then c = 85 / 100
            else c = 80 / 100 \<and> fileName (path f) = fileName (path g) \<and> 12 \<le> length (fileName (path f)))
     | _ \<Rightarrow> False)"
  by (cases "cFile l"; cases "cFile r") (auto simp: pathMatch_def fileField_def split: if_splits)

lemmas strategy_Some =
  checksumMatch_Some externalIdMatch_Some seasonEpisodeMatch_Some

lemmas strategy_dest = absoluteEpisodeMatch_Some titleMatch_Some pathMatch_Some

definition evidence :: "MatchCandidate \<Rightarrow> MatchCandidate \<Rightarrow> MatchOptions \<Rightarrow> MatchStrategy \<Rightarrow> rat \<Rightarrow> bool" where
  "evidence l r options st c \<longleftrightarrow>
     (case st of
        CHECKSUM \<Rightarrow> c = 1 \<and> (agreeOn (fileField checksum l) (fileField checksum r) \<or> agreeOn (fileField contentId l) (fileField contentId r))
      | EXTERNAL_ID \<Rightarrow> c = 98 / 100 \<and> list_ex (sharesId l r) (WORK_IDENTIFIERS @ CATALOGUE_IDENTIFIERS)
      | SEASON_EPISODE \<Rightarrow> c = 95 / 100 \<and> cSeason l = cSeason r \<and> underMatchedParents l r options
      | ABSOLUTE_EPISODE \<Rightarrow> c = 90 / 100 \<and> recordsLink (absolutePairs options) (cId l) (cId r)
      | NORMALIZED_TITLE \<Rightarrow>
          0 < c \<and> c \<le> TITLE_CEILING \<and> TITLE_FLOOR \<le> similarity (cNormalizedTitle l) (cNormalizedTitle r)
          \<and> (cKind l = SEASON \<longrightarrow> underMatchedParents l r options)
      | PATH \<Rightarrow> (c = 85 / 100 \<or> c = 80 / 100) \<and> pathMatch l r = Some (PATH, c)
      | MANUAL \<Rightarrow> False)"

lemma score_cases:
  assumes "score l r options = Some (st, c)"
  obtains (Bytes) "checksumMatch l r = Some (st, c)"
  | (Work) "externalIdMatch l r WORK_IDENTIFIERS options = Some (st, c)"
  | (Guarded) "\<not> contradicted l r" "\<not> separateCuts l r"
      "externalIdMatch l r CATALOGUE_IDENTIFIERS options = Some (st, c) \<or> seasonEpisodeMatch l r options = Some (st, c)
       \<or> absoluteEpisodeMatch l r options = Some (st, c) \<or> titleMatch l r options = Some (st, c) \<or> pathMatch l r = Some (st, c)"
  using assms by (auto simp: score_def orTry_Some split: if_splits)

lemma score_evidence:
  assumes "score l r options = Some (st, c)"
  shows "evidence l r options st c"
  using assms
proof (cases rule: score_cases)
  case Guarded
  from Guarded(3) show ?thesis
  proof (elim disjE)
    assume "externalIdMatch l r CATALOGUE_IDENTIFIERS options = Some (st, c)"
    then show ?thesis by (simp add: evidence_def strategy_Some)
  next
    assume "seasonEpisodeMatch l r options = Some (st, c)"
    then show ?thesis by (simp add: evidence_def strategy_Some)
  next
    assume "absoluteEpisodeMatch l r options = Some (st, c)"
    from absoluteEpisodeMatch_Some [OF this] show ?thesis by (simp add: evidence_def)
  next
    assume "titleMatch l r options = Some (st, c)"
    from titleMatch_Some [OF this] show ?thesis by (simp add: evidence_def)
  next
    assume "pathMatch l r = Some (st, c)"
    with pathMatch_Some [OF this] show ?thesis by (auto simp: evidence_def split: option.splits if_splits)
  qed
qed (auto simp: evidence_def strategy_Some)

lemma evidence_bounds: "evidence l r options st c \<Longrightarrow> 0 < c \<and> c \<le> 1"
  by (auto simp: evidence_def TITLE_CEILING_def split: MatchStrategy.splits)

text \<open>
  (C14) A match is never scored without the evidence of its strategy, and its confidence lies between 0
  and 1. Two films or shows whose identifiers name different works, and two copies whose lengths say
  they are different cuts, match only by their bytes or by an agreeing work identifier. Two episodes
  with different numbers match only by their bytes, an identifier of their own, the numbering
  alignment or the file name.
\<close>

theorem match_needs_evidence:
  assumes "score l r options = Some (st, c)"
  shows "cKind l = cKind r \<and> 0 < c \<and> c \<le> 1 \<and> evidence l r options st c
    \<and> (if contradicted l r \<or> separateCuts l r
        then st = CHECKSUM \<or> st = EXTERNAL_ID \<and> list_ex (sharesId l r) WORK_IDENTIFIERS else True)
    \<and> (if cKind l = EPISODE \<and> (cSeason l \<noteq> cSeason r \<or> cEpisode l \<noteq> cEpisode r)
        then st \<in> {CHECKSUM, ABSOLUTE_EPISODE, PATH}
          \<or> st = EXTERNAL_ID \<and> (agreesOnAnEpisodeIdentifier l r WORK_IDENTIFIERS options
                                  \<or> agreesOnAnEpisodeIdentifier l r CATALOGUE_IDENTIFIERS options) else True)"
proof -
  have "cKind l = cKind r" using assms by (simp add: score_def split: if_splits)
  moreover have "0 < c \<and> c \<le> 1 \<and> evidence l r options st c" using score_evidence [OF assms] evidence_bounds by blast
  moreover have "contradicted l r \<or> separateCuts l r \<Longrightarrow> st = CHECKSUM \<or> st = EXTERNAL_ID \<and> list_ex (sharesId l r) WORK_IDENTIFIERS"
    using assms by (cases rule: score_cases) (auto simp: strategy_Some)
  moreover have "st \<in> {CHECKSUM, ABSOLUTE_EPISODE, PATH}
      \<or> st = EXTERNAL_ID \<and> (agreesOnAnEpisodeIdentifier l r WORK_IDENTIFIERS options
                              \<or> agreesOnAnEpisodeIdentifier l r CATALOGUE_IDENTIFIERS options)"
    if "cKind l = EPISODE" "cSeason l \<noteq> cSeason r \<or> cEpisode l \<noteq> cEpisode r"
    using assms by (cases rule: score_cases) (use that in \<open>auto simp: strategy_Some dest: strategy_dest\<close>)
  ultimately show ?thesis by simp
qed

theorem match_needs_evidence_witness:
  "evidence (filmRow ''a'' ''heat'' 1995) (filmRow ''b'' ''heat'' 1996) noLinks NORMALIZED_TITLE (85 / 100)"
proof -
  have "score (filmRow ''a'' ''heat'' 1995) (filmRow ''b'' ''heat'' 1996) noLinks = Some (NORMALIZED_TITLE, 85 / 100)"
    by code_simp
  from match_needs_evidence [OF this] show ?thesis by blast
qed

subsection \<open>One proposal for each row\<close>

definition offerOf :: "MatchCandidate \<Rightarrow> MatchOptions \<Rightarrow> MatchCandidate \<Rightarrow> MatchProposal option" where
  "offerOf l options r = (if cId r = cId l then None else map_option (\<lambda>sc. toProposal l r sc options) (score l r options))"

definition offers :: "MatchCandidate \<Rightarrow> MatchCandidate list \<Rightarrow> MatchOptions \<Rightarrow> MatchProposal list" where
  "offers l candidates options = List.map_filter (offerOf l options) candidates"

definition bestOffer :: "MatchProposal list \<Rightarrow> MatchProposal \<Rightarrow> bool" where
  "bestOffer ps p \<longleftrightarrow> p \<in> set ps \<and> list_all (\<lambda>q. mRemoteItemId q = mRemoteItemId p \<longrightarrow> mConfidence q \<le> mConfidence p) ps"

definition collected :: "MatchProposal list \<Rightarrow> (string \<times> MatchProposal) list \<Rightarrow> bool" where
  "collected ps best \<longleftrightarrow>
     distinct (map fst best)
     \<and> (\<forall>k. case map_of best k of None \<Rightarrow> k \<notin> mRemoteItemId ` set ps | Some p \<Rightarrow> mRemoteItemId p = k \<and> bestOffer ps p)"

definition keepBest :: "(string \<times> MatchProposal) list \<Rightarrow> MatchProposal \<Rightarrow> (string \<times> MatchProposal) list" where
  "keepBest best p =
     (case map_of best (mRemoteItemId p) of
        None \<Rightarrow> AList.update (mRemoteItemId p) p best
      | Some q \<Rightarrow> if mConfidence q < mConfidence p then AList.update (mRemoteItemId p) p best else best)"

lemma considerRemote_offer:
  "considerRemote l options best r = (case offerOf l options r of None \<Rightarrow> best | Some p \<Rightarrow> keepBest best p)"
  by (auto simp: considerRemote_def offerOf_def keepBest_def toProposal_def Let_def split: option.split)

lemma foldl_considerRemote:
  "foldl (considerRemote l options) best cs = foldl keepBest best (offers l cs options)"
  by (induction cs arbitrary: best)
    (auto simp: offers_def map_filter_simps considerRemote_offer split: option.split)

lemma bestOffer_snoc:
  "mRemoteItemId q \<noteq> mRemoteItemId p \<or> mConfidence p \<le> mConfidence q \<Longrightarrow> bestOffer ps q \<Longrightarrow> bestOffer (ps @ [p]) q"
  "mRemoteItemId p \<notin> mRemoteItemId ` set ps \<Longrightarrow> bestOffer (ps @ [p]) p"
  "bestOffer ps q \<Longrightarrow> mRemoteItemId q = mRemoteItemId p \<Longrightarrow> mConfidence q < mConfidence p \<Longrightarrow> bestOffer (ps @ [p]) p"
  by (fastforce simp: bestOffer_def list_all_iff image_iff)+

lemma collected_keepBest:
  assumes "collected ps best"
  shows "collected (ps @ [p]) (keepBest best p)"
proof -
  have keys: "distinct (map fst (keepBest best p))"
    using assms by (auto simp: collected_def keepBest_def distinct_update split: option.split)
  have here: "case map_of best k of None \<Rightarrow> k \<notin> mRemoteItemId ` set ps | Some q \<Rightarrow> mRemoteItemId q = k \<and> bestOffer ps q" for k
    using assms by (simp add: collected_def)
  have "case map_of (keepBest best p) k of None \<Rightarrow> k \<notin> mRemoteItemId ` set (ps @ [p])
        | Some q \<Rightarrow> mRemoteItemId q = k \<and> bestOffer (ps @ [p]) q" for k
    using here [of k] bestOffer_snoc(1) [of _ p ps] bestOffer_snoc(2) [of p ps] bestOffer_snoc(3) [of ps _ p]
    by (auto simp: keepBest_def update_conv' split: option.splits if_splits)
  with keys show ?thesis by (simp add: collected_def)
qed

lemma collected_offers: "collected ps (foldl keepBest [] ps)"
  by (induction ps rule: rev_induct) (simp_all add: collected_keepBest, simp add: collected_def)

lemma collected_entries:
  assumes "collected ps best"
  shows "distinct (map mRemoteItemId (map snd best))" "mRemoteItemId ` snd ` set best = mRemoteItemId ` set ps"
    "list_all (bestOffer ps) (map snd best)"
proof -
  have entry: "mRemoteItemId p = k \<and> bestOffer ps p" if "(k, p) \<in> set best" for k p
    using that assms by (auto simp: collected_def dest!: spec [of _ k] map_of_is_SomeI [rotated])
  then have "map mRemoteItemId (map snd best) = map fst best" by auto
  then show "distinct (map mRemoteItemId (map snd best))" using assms by (simp add: collected_def del: map_map)
  show "list_all (bestOffer ps) (map snd best)" using entry by (auto simp: list_all_iff)
  then have "mRemoteItemId ` snd ` set best \<subseteq> mRemoteItemId ` set ps" by (auto simp: list_all_iff bestOffer_def)
  moreover have "mRemoteItemId p \<in> mRemoteItemId ` snd ` set best" if p: "p \<in> set ps" for p
  proof -
    obtain q where q: "map_of best (mRemoteItemId p) = Some q"
      using assms p by (auto simp: collected_def dest!: spec [of _ "mRemoteItemId p"] split: option.splits)
    then have e: "(mRemoteItemId p, q) \<in> set best" by (rule map_of_SomeD)
    from entry [OF e] e show ?thesis by (metis image_eqI snd_conv)
  qed
  ultimately show "mRemoteItemId ` snd ` set best = mRemoteItemId ` set ps" by blast
qed

lemma offer_ids: "mRemoteItemId ` set (offers l cs options) = cId ` {r \<in> set cs. cId r \<noteq> cId l \<and> score l r options \<noteq> None}"
proof -
  have made: "offerOf l options r \<noteq> None \<longleftrightarrow> cId r \<noteq> cId l \<and> score l r options \<noteq> None" for r
    by (simp add: offerOf_def)
  have row: "offerOf l options r \<noteq> None \<Longrightarrow> mRemoteItemId (the (offerOf l options r)) = cId r" for r
    by (auto simp: offerOf_def toProposal_def Let_def split: if_splits)
  have "mRemoteItemId ` set (offers l cs options) = (\<lambda>r. mRemoteItemId (the (offerOf l options r))) ` {r \<in> set cs. offerOf l options r \<noteq> None}"
    by (simp add: offers_def map_filter_def image_image)
  also have "\<dots> = cId ` {r \<in> set cs. offerOf l options r \<noteq> None}"
    by (rule image_cong [OF refl]) (simp add: row)
  finally show ?thesis by (simp only: made)
qed

text \<open>
  (C31) Correlating an item proposes every other row that scores, each exactly once, with the best of the
  proposals its row was offered with, strongest first.
\<close>

theorem correlate_proposes_each_once:
  "sorted_wrt (\<lambda>p q. mConfidence q \<le> mConfidence p) (correlate l cs options)
   \<and> distinct (map mRemoteItemId (correlate l cs options))
   \<and> mRemoteItemId ` set (correlate l cs options) = cId ` {r \<in> set cs. cId r \<noteq> cId l \<and> score l r options \<noteq> None}
   \<and> list_all (bestOffer (offers l cs options)) (correlate l cs options)"
proof -
  define best where "best = foldl (considerRemote l options) [] cs"
  have all: "correlate l cs options = sort_key (\<lambda>p. - mConfidence p) (map snd best)"
    by (simp add: correlate_def best_def)
  have "collected (offers l cs options) best"
    unfolding best_def foldl_considerRemote by (rule collected_offers)
  note best = collected_entries [OF this]
  have "sorted (map (\<lambda>p. - mConfidence p) (correlate l cs options))" unfolding all by simp
  then have "sorted_wrt (\<lambda>p q. mConfidence q \<le> mConfidence p) (correlate l cs options)" by (simp add: sorted_map)
  moreover have "mset (map mRemoteItemId (correlate l cs options)) = mset (map mRemoteItemId (map snd best))"
    unfolding all by (simp only: mset_map mset_sort)
  then have "distinct (map mRemoteItemId (correlate l cs options))" using best(1) by (metis mset_eq_imp_distinct_iff)
  moreover have "mRemoteItemId ` set (correlate l cs options) = cId ` {r \<in> set cs. cId r \<noteq> cId l \<and> score l r options \<noteq> None}"
    using best(2) by (simp add: all offer_ids)
  moreover have "list_all (bestOffer (offers l cs options)) (correlate l cs options)"
    using best(3) by (simp add: all list_all_iff)
  ultimately show ?thesis by blast
qed

end
