(* ===== verification/Naming.thy ===== *)
theory Naming
  imports Titles Media_Override Library_Paths
begin

text \<open>
  The name a pulled file lands under: \<open>packages/api/src/services/naming.service.ts\<close>, on the season
  folders of \<open>Media_Override\<close> and the names of \<open>Titles\<close>. Season and episode numbers are natural
  numbers; the two of an item may be absent, null or a number. The dash of a label is its UTF-8
  bytes.
\<close>

subsection \<open>Data\<close>

datatype NamingScheme = SOURCE | LOCAL | STANDARD | DOTTED

record NameableItem =
  nKind :: MediaKind
  nTitle :: string
  nYear :: "nat option"
  nSeason :: "nat field"
  nEpisode :: "nat field"
  nSeriesTitle :: "string option"
  nSeriesYear :: "nat option"
  nSourcePath :: "string option"

record VersionMarks =
  markEdition :: "string option"
  markQuality :: "string option"

record NamingContext =
  samples :: "string list"
  siblingPath :: "string option"
  libraryRoot :: "string option"
  pinnedFolder :: "string option"

definition orEmpty :: "string option \<Rightarrow> string" where
  "orEmpty v = (case v of None \<Rightarrow> [] | Some s \<Rightarrow> s)"

text \<open>\<open>a || b\<close> on strings.\<close>

definition orString :: "string \<Rightarrow> string \<Rightarrow> string" where
  "orString a b = (if a = [] then b else a)"

definition numberOr0 :: "nat field \<Rightarrow> nat" where
  "numberOr0 v = (case orNull v of None \<Rightarrow> 0 | Some n \<Rightarrow> n)"

definition pad :: "nat \<Rightarrow> string" where
  "pad n = padStart 2 (CHR ''0'') (showNat n)"

definition episodeLabel :: "NameableItem \<Rightarrow> string" where
  "episodeLabel item =
     (if nKind item \<noteq> EPISODE then nTitle item
      else
        let coordinates =
              (case (orNull (nSeason item), orNull (nEpisode item)) of
                 (Some s, Some e) \<Rightarrow> ''S'' @ pad s @ ''E'' @ pad e
               | _ \<Rightarrow> [])
        in joinWith [CHR '' '', CHR 0xE2, CHR 0x80, CHR 0x94, CHR '' '']
             (filter (\<lambda>part. part \<noteq> []) [js_trim (orEmpty (nSeriesTitle item)), coordinates, nTitle item]))"

subsection \<open>Safe components\<close>

definition illegal :: "char \<Rightarrow> bool" where
  "illegal c \<longleftrightarrow> c \<in> set ''<>:\"/|?*'' \<or> c = CHR 0x5C \<or> (of_char c :: nat) < 32"

text \<open>\<open>replace(/\s+/g, ' ')\<close>\<close>

fun collapse :: "string \<Rightarrow> string" where
  "collapse [] = []"
| "collapse (c # cs) =
     (if isSpace c then (if cs \<noteq> [] \<and> isSpace (hd cs) then collapse cs else CHR '' '' # collapse cs)
      else c # collapse cs)"

definition dropTail :: "(char \<Rightarrow> bool) \<Rightarrow> string \<Rightarrow> string" where
  "dropTail P s = rev (dropWhile P (rev s))"

definition MAX_COMPONENT_LENGTH :: nat where "MAX_COMPONENT_LENGTH = 200"

definition RESERVED_NAMES :: rx where
  "RESERVED_NAMES =
     cats [Start, ors [liti ''con'', liti ''prn'', liti ''aux'', liti ''nul'', cats [liti ''com'', Cls (between 49 57)],
                       cats [liti ''lpt'', Cls (between 49 57)]], Finish]"

definition sanitise :: "string \<Rightarrow> string" where
  "sanitise s =
     (let cleaned = js_trim (dropTail (\<lambda>c. c = CHR ''.'' \<or> c = CHR '' '') (collapse (toSpace illegal s))) in
      if cleaned = [] then ''untitled''
      else
        let trimmed = (if MAX_COMPONENT_LENGTH < length cleaned then js_trim (take MAX_COMPONENT_LENGTH cleaned) else cleaned)
        in if test RESERVED_NAMES (stripExtension trimmed) then CHR ''_'' # trimmed else trimmed)"

definition EXTENSION :: rx where
  "EXTENSION = cats [lit ''.'', Times 1 4 (Cls anyAlnum), Finish]"

definition extensionOf :: "string option \<Rightarrow> string" where
  "extensionOf p = (case exec EXTENSION (baseName (orEmpty p)) of None \<Rightarrow> [] | Some f \<Rightarrow> toLowerCase (matched f))"

subsection \<open>File names\<close>

definition sourceStep :: "NameableItem \<Rightarrow> string option" where
  "sourceStep item =
     (let name = (case nSourcePath item of None \<Rightarrow> [] | Some p \<Rightarrow> if p = [] then [] else baseName p) in
      if name = [] then None else Some (sanitise name))"

definition EPISODE_TAG :: rx where
  "EPISODE_TAG = cats [liti ''s'', Group 1 (digits 1 3), Star (Cls (blankOr ''._-'')), liti ''e'', Group 2 (digits 1 4)]"

definition TAG_SEPARATOR :: rx where
  "TAG_SEPARATOR = (let sep = Cls (blankOr ''._-'') in cats [Start, sep, Star sep])"

definition fromLocal :: "NameableItem \<Rightarrow> NamingContext \<Rightarrow> string \<Rightarrow> string option" where
  "fromLocal item context extension =
     (let offered = (if samples context \<noteq> [] then samples context else [orEmpty (siblingPath context)]) in
      case find (\<lambda>candidate. js_trim candidate \<noteq> []) offered of
        None \<Rightarrow> None
      | Some sample \<Rightarrow>
          let sampleName = stripExtension (baseName sample) in
          case exec EPISODE_TAG sampleName of
            None \<Rightarrow> None
          | Some tag \<Rightarrow>
              if nSeason item = Some None \<or> nEpisode item = Some None then None
              else
                let replacement = ''S'' @ pad (numberOr0 (nSeason item)) @ ''E'' @ pad (numberOr0 (nEpisode item));
                    renamed = replaceFirst (lit (matched tag)) sampleName replacement;
                    (beforeTag, afterTag) =
                      (case exec (lit replacement) renamed of Some f \<Rightarrow> (before f, after f) | None \<Rightarrow> (renamed, renamed));
                    separator = (case exec TAG_SEPARATOR afterTag of None \<Rightarrow> '' - '' | Some f \<Rightarrow> matched f);
                    episodeTitle = (if js_trim (nTitle item) \<noteq> [] then sanitise (nTitle item) else []);
                    assembled = (if episodeTitle \<noteq> [] then beforeTag @ replacement @ separator @ episodeTitle else beforeTag @ replacement)
                in Some (sanitise (assembled @ extension)))"

definition withYear :: "string \<Rightarrow> nat option \<Rightarrow> string" where
  "withYear name y = (case y of None \<Rightarrow> name | Some n \<Rightarrow> if n = 0 then name else name @ '' ('' @ showNat n @ '')'')"

definition seriesOf :: "NameableItem \<Rightarrow> string" where
  "seriesOf item = orString (js_trim (orEmpty (nSeriesTitle item))) (nTitle item)"

definition standardName :: "NameableItem \<Rightarrow> string \<Rightarrow> string" where
  "standardName item extension =
     (if nKind item = EPISODE then
        let series = sanitise (seriesOf item);
            episodeTitle = (if js_trim (nTitle item) \<noteq> [] then '' - '' @ sanitise (nTitle item) else [])
        in sanitise (series @ '' - S'' @ pad (numberOr0 (nSeason item)) @ ''E'' @ pad (numberOr0 (nEpisode item)) @ episodeTitle @ extension)
      else sanitise (withYear (sanitise (nTitle item)) (nYear item) @ extension))"

definition DOT_RUN :: rx where
  "DOT_RUN = cats [lit ''..'', Star (lit ''.'')]"

definition dots :: "string list \<Rightarrow> string" where
  "dots parts =
     replaceAll DOT_RUN
       (joinWith ''.''
         (map (\<lambda>part. map (\<lambda>c. if c = CHR '' '' then CHR ''.'' else c) (collapse (sanitise part)))
           (filter (\<lambda>part. part \<noteq> []) (map js_trim parts)))) ''.''"

definition yearPart :: "nat option \<Rightarrow> string" where
  "yearPart y = (case y of None \<Rightarrow> [] | Some n \<Rightarrow> showNat n)"

definition dottedName :: "NameableItem \<Rightarrow> string \<Rightarrow> string" where
  "dottedName item extension =
     (if nKind item = EPISODE then
        sanitise (dots [seriesOf item, yearPart (nSeriesYear item),
                        ''S'' @ pad (numberOr0 (nSeason item)) @ ''E'' @ pad (numberOr0 (nEpisode item)), nTitle item] @ extension)
      else sanitise (dots [nTitle item, yearPart (nYear item)] @ extension))"

fun nameStep :: "NamingScheme \<Rightarrow> NameableItem \<Rightarrow> NamingContext \<Rightarrow> string \<Rightarrow> string option" where
  "nameStep SOURCE item context extension = sourceStep item"
| "nameStep LOCAL item context extension = fromLocal item context extension"
| "nameStep STANDARD item context extension = Some (standardName item extension)"
| "nameStep DOTTED item context extension = Some (dottedName item extension)"

fun fileNameFor :: "NamingScheme list \<Rightarrow> NameableItem \<Rightarrow> NamingContext \<Rightarrow> string \<Rightarrow> string" where
  "fileNameFor [] item context extension = standardName item extension"
| "fileNameFor (step # rest) item context extension =
     (case nameStep step item context extension of
        Some candidate \<Rightarrow> candidate
      | None \<Rightarrow> fileNameFor rest item context extension)"

subsection \<open>Directories\<close>

definition withoutTrailingSlash :: "string option \<Rightarrow> string" where
  "withoutTrailingSlash p = dropTrailingSlashes (js_trim (orEmpty p))"

definition isPinnedRoot :: "NamingContext \<Rightarrow> bool" where
  "isPinnedRoot context \<longleftrightarrow>
     (let pinned = withoutTrailingSlash (pinnedFolder context) in
      pinned \<noteq> [] \<and> pinned = withoutTrailingSlash (libraryRoot context))"

text \<open>\<open>slice(0, Math.max(0, lastIndexOf('/')))\<close>\<close>

definition beforeLastSlash :: "string \<Rightarrow> string" where
  "beforeLastSlash p = rev (drop 1 (dropWhile (\<lambda>c. c \<noteq> CHR ''/'') (rev p)))"

definition seasonSegmentOf :: "string option \<Rightarrow> string option" where
  "seasonSegmentOf sibling =
     (let directory = withoutTrailingSlash sibling in
      if directory = [] then None
      else
        let segment = baseName (beforeLastSlash directory) in
        if seasonFolderNumber segment = None then None else Some segment)"

definition insideAPin :: "NameableItem \<Rightarrow> NamingContext \<Rightarrow> string" where
  "insideAPin item context =
     (case orNull (nSeason item) of
        None \<Rightarrow> []
      | Some season \<Rightarrow>
          if seasonFolderNumber (baseName (withoutTrailingSlash (pinnedFolder context))) \<noteq> None then []
          else case seasonSegmentOf (siblingPath context) of
            None \<Rightarrow> sanitise (''Season '' @ pad season)
          | Some spelled \<Rightarrow> sanitise (case withSeasonNumber spelled season of Some renumbered \<Rightarrow> renumbered | None \<Rightarrow> spelled))"

definition imitatedDirectory :: "NameableItem \<Rightarrow> NamingContext \<Rightarrow> string option" where
  "imitatedDirectory item context =
     (let sibling = orEmpty (siblingPath context); lib = orEmpty (libraryRoot context) in
      if sibling = [] \<or> lib = [] then None
      else
        let base = dropTrailingSlashes lib; directory = beforeLastSlash sibling in
        if directory = [] \<or> \<not> (directory = base \<or> prefix (base @ ''/'') directory) then None
        else
          let relative = dropWhile (\<lambda>c. c = CHR ''/'') (drop (length base) directory) in
          if relative = [] then None
          else case orNull (nSeason item) of
            None \<Rightarrow> Some relative
          | Some season \<Rightarrow> Some (case withSeasonNumber relative season of Some renumbered \<Rightarrow> renumbered | None \<Rightarrow> relative))"

definition directoryFor :: "NameableItem \<Rightarrow> NamingContext \<Rightarrow> string" where
  "directoryFor item context =
     (if isPinnedRoot context then insideAPin item context
      else case imitatedDirectory item context of
        Some imitated \<Rightarrow> imitated
      | None \<Rightarrow>
          if nKind item = EPISODE then
            sanitise (withYear (sanitise (seriesOf item)) (nSeriesYear item)) @ ''/'' @ sanitise (''Season '' @ pad (numberOr0 (nSeason item)))
          else if nKind item = MOVIE then sanitise (withYear (sanitise (nTitle item)) (nYear item))
          else [])"

definition renderName :: "NamingScheme list \<Rightarrow> NameableItem \<Rightarrow> NamingContext \<Rightarrow> string" where
  "renderName order item context =
     (let name = fileNameFor order item context (extensionOf (nSourcePath item)); directory = directoryFor item context in
      if directory = [] then name else directory @ ''/'' @ name)"

subsection \<open>A second name\<close>

definition isDotted :: "string \<Rightarrow> bool" where
  "isDotted stem \<longleftrightarrow> CHR '' '' \<notin> set stem \<and> CHR ''.'' \<in> set stem"

definition taggedWith :: "string \<Rightarrow> bool \<Rightarrow> string" where
  "taggedWith t tag = (if tag then ''{edition-'' @ t @ ''}'' else t)"

definition versionLabel :: "VersionMarks \<Rightarrow> (string \<times> bool) option" where
  "versionLabel marks =
     (let edition = js_trim (orEmpty (markEdition marks)); quality = js_trim (orEmpty (markQuality marks)) in
      if edition \<noteq> [] then Some (sanitise edition, True)
      else if quality \<noteq> [] then Some (sanitise quality, False) else None)"

text \<open>The folder of a taken path with its slash, and the name tried at the n-th attempt before it is made safe.\<close>

definition nameOf :: "string \<Rightarrow> string \<times> string" where
  "nameOf relativeName =
     (let cut = map (\<lambda>c. if c = CHR 0x5C then CHR ''/'' else c) relativeName;
          name = rev (takeWhile (\<lambda>c. c \<noteq> CHR ''/'') (rev cut))
      in (take (length cut - length name) cut, name))"

definition secondName :: "string \<Rightarrow> VersionMarks \<Rightarrow> nat \<Rightarrow> string" where
  "secondName name marks n =
     (let extension = extensionOf (Some name);
          stem = (if extension = [] then name else take (length name - length extension) name);
          chosen =
            (case versionLabel marks of
               None \<Rightarrow> None
             | Some (t, tag) \<Rightarrow> if sublist (toLowerCase (taggedWith t tag)) (toLowerCase stem) then None else Some (t, tag));
          counted =
            (case chosen of
               None \<Rightarrow> showNat (n + 1)
             | Some (t, tag) \<Rightarrow> if n = 1 then t else t @ '' ('' @ showNat n @ '')'');
          suff = taggedWith counted (isDotted stem \<or> (case chosen of None \<Rightarrow> False | Some (t, tag) \<Rightarrow> tag))
      in stem @ '' - '' @ suff @ extension)"

definition disambiguate :: "string \<Rightarrow> VersionMarks \<Rightarrow> nat \<Rightarrow> string" where
  "disambiguate relativeName marks n =
     (let (directory, name) = nameOf relativeName in directory @ sanitise (secondName name marks n))"

subsection \<open>What sanitising gives\<close>

definition safeComponent :: "string \<Rightarrow> bool" where
  "safeComponent c \<longleftrightarrow>
     c \<noteq> [] \<and> c \<noteq> ''.'' \<and> c \<noteq> ''..'' \<and> list_all (\<lambda>d. \<not> illegal d) c \<and> length c \<le> Suc MAX_COMPONENT_LENGTH"

definition cleaned :: "string \<Rightarrow> string" where
  "cleaned s = js_trim (dropTail (\<lambda>c. c = CHR ''.'' \<or> c = CHR '' '') (collapse (toSpace illegal s)))"

lemma sanitise_cleaned:
  "sanitise s =
     (if cleaned s = [] then ''untitled''
      else
        let trimmed = (if MAX_COMPONENT_LENGTH < length (cleaned s) then js_trim (take MAX_COMPONENT_LENGTH (cleaned s)) else cleaned s)
        in if test RESERVED_NAMES (stripExtension trimmed) then CHR ''_'' # trimmed else trimmed)"
  by (simp add: sanitise_def cleaned_def Let_def)

lemma set_js_trim: "set (js_trim s) \<subseteq> set s"
  by (auto simp: js_trim_def dest!: set_dropWhileD)

lemma set_dropTail: "set (dropTail P s) \<subseteq> set s"
  by (auto simp: dropTail_def dest: set_dropWhileD)

lemma collapse_chars: "c \<in> set (collapse s) \<Longrightarrow> c = CHR '' '' \<or> c \<in> set s \<and> \<not> isSpace c"
  by (induction s rule: collapse.induct) (auto split: if_splits)

lemma legal_space: "\<not> illegal (CHR '' '')"
  by (simp add: illegal_def)

lemma cleaned_chars: "c \<in> set (cleaned s) \<Longrightarrow> \<not> illegal c \<and> (c = CHR '' '' \<or> \<not> isSpace c)"
  using set_js_trim set_dropTail collapse_chars legal_space unfolding cleaned_def toSpace_def by fastforce

lemma js_trim_prefix: "prefix (js_trim s) (dropWhile isSpace s)"
  unfolding js_trim_def by (metis rev_rev_ident suffix_dropWhile suffix_to_prefix)

lemma js_trim_ends:
  assumes "js_trim s \<noteq> []"
  shows "\<not> isSpace (hd (js_trim s))" "\<not> isSpace (last (js_trim s))"
proof -
  obtain t where t: "dropWhile isSpace s = js_trim s @ t" using js_trim_prefix by (auto simp: prefix_def)
  with assms hd_dropWhile [of isSpace s] show "\<not> isSpace (hd (js_trim s))" by auto
  let ?r = "dropWhile isSpace (rev (dropWhile isSpace s))"
  have "?r \<noteq> []" using assms by (simp add: js_trim_def)
  with hd_dropWhile [of isSpace] have "\<not> isSpace (hd ?r)" by blast
  then show "\<not> isSpace (last (js_trim s))" by (simp add: js_trim_def last_rev)
qed

lemma single_spaces: "successively (\<lambda>a b. \<not> (isSpace a \<and> isSpace b)) (collapse s)"
proof (induction s rule: collapse.induct)
  case (2 c cs)
  then show ?case by (cases cs) (auto simp: successively_Cons)
qed simp

lemma successively_sublist: "successively P xs \<Longrightarrow> sublist ys xs \<Longrightarrow> successively P ys"
  by (auto simp: sublist_def successively_append_iff)

lemma sublist_js_trim: "sublist (js_trim s) s"
proof -
  obtain t where "dropWhile isSpace s = js_trim s @ t" using js_trim_prefix by (auto simp: prefix_def)
  then have "s = takeWhile isSpace s @ js_trim s @ t" by (metis takeWhile_dropWhile_id)
  then show ?thesis by (metis sublist_appendI)
qed

lemma sublist_dropTail: "sublist (dropTail P s) s"
  unfolding dropTail_def by (metis prefix_imp_sublist rev_rev_ident suffix_dropWhile suffix_to_prefix)

lemma cleaned_single: "successively (\<lambda>a b. \<not> (isSpace a \<and> isSpace b)) (cleaned s)"
  unfolding cleaned_def
  by (rule successively_sublist [OF single_spaces]) (rule sublist_order.order_trans [OF sublist_js_trim sublist_dropTail])

lemma js_trim_shortens:
  assumes "successively (\<lambda>a b. \<not> (isSpace a \<and> isSpace b)) s" and "s \<noteq> []" and "\<not> isSpace (hd s)"
  shows "length s \<le> Suc (length (js_trim s))"
proof -
  have "dropWhile isSpace s = s" using assms by (cases s) auto
  then have j: "js_trim s = rev (dropWhile isSpace (rev s))" by (simp add: js_trim_def)
  have "successively (\<lambda>a b. \<not> (isSpace a \<and> isSpace b)) (rev s)"
    using assms(1) by simp (erule successively_mono, blast)
  then have "length (rev s) \<le> Suc (length (dropWhile isSpace (rev s)))"
    by (cases "rev s" rule: remdups_adj.cases) auto
  then show ?thesis by (simp add: j)
qed

lemma cleaned_last:
  assumes "cleaned s \<noteq> []"
  shows "last (cleaned s) \<noteq> CHR ''.''"
proof -
  define u where "u = dropTail (\<lambda>c. c = CHR ''.'' \<or> c = CHR '' '') (collapse (toSpace illegal s))"
  let ?r = "dropWhile (\<lambda>c. c = CHR ''.'' \<or> c = CHR '' '') (rev (collapse (toSpace illegal s)))"
  have c: "cleaned s = js_trim u" by (simp add: cleaned_def u_def)
  have "u \<noteq> []" using assms c by (auto simp: js_trim_def)
  then have r: "?r \<noteq> []" by (simp add: u_def dropTail_def)
  from hd_dropWhile [OF this] have l: "last u \<noteq> CHR ''.''" "last u \<noteq> CHR '' ''"
    by (simp_all add: u_def dropTail_def last_rev)
  have "last u \<in> set (collapse (toSpace illegal s))"
    using \<open>u \<noteq> []\<close> set_dropTail last_in_set unfolding u_def by blast
  with l have ns: "\<not> isSpace (last u)" using collapse_chars by blast
  obtain t where t: "dropWhile isSpace u = js_trim u @ t" using js_trim_prefix by (auto simp: prefix_def)
  have D: "dropWhile isSpace u \<noteq> []" using ns \<open>u \<noteq> []\<close> last_in_set by (metis dropWhile_eq_Nil_conv)
  have "last (dropWhile isSpace u) = last u" by (metis D last_appendR takeWhile_dropWhile_id)
  then have "dropWhile isSpace (rev (dropWhile isSpace u)) = rev (dropWhile isSpace u)"
    using ns D by (metis dropWhile.simps(2) hd_Cons_tl hd_rev rev_is_Nil_conv)
  then have "js_trim u = dropWhile isSpace u" by (simp add: js_trim_def)
  then show ?thesis using l \<open>last (dropWhile isSpace u) = last u\<close> c by simp
qed

lemma sanitise_safe: "safeComponent (sanitise s)"
proof (cases "cleaned s = []")
  case True
  then show ?thesis by (simp add: sanitise_cleaned safeComponent_def illegal_def MAX_COMPONENT_LENGTH_def)
next
  case False
  define t where "t = (if MAX_COMPONENT_LENGTH < length (cleaned s) then js_trim (take MAX_COMPONENT_LENGTH (cleaned s)) else cleaned s)"
  have "set t \<subseteq> set (cleaned s)" by (auto simp: t_def dest!: subsetD [OF set_js_trim] in_set_takeD)
  then have chars: "list_all (\<lambda>d. \<not> illegal d) t" using cleaned_chars [of _ s] unfolding list_all_iff by blast
  have shape: "t \<noteq> [] \<and> t \<noteq> ''.'' \<and> t \<noteq> ''..'' \<and> length t \<le> MAX_COMPONENT_LENGTH"
  proof (cases "MAX_COMPONENT_LENGTH < length (cleaned s)")
    case True
    let ?u = "take MAX_COMPONENT_LENGTH (cleaned s)"
    have u: "length ?u = 200" using True by (simp add: MAX_COMPONENT_LENGTH_def)
    have "\<not> isSpace (hd (cleaned s))" using False js_trim_ends(1) unfolding cleaned_def by blast
    then have "\<not> isSpace (hd ?u)" using False by (simp add: MAX_COMPONENT_LENGTH_def)
    moreover have "successively (\<lambda>a b. \<not> (isSpace a \<and> isSpace b)) ?u"
      by (rule successively_sublist [OF cleaned_single]) (rule sublist_take)
    ultimately have "199 \<le> length t" using js_trim_shortens [of ?u] u True False by (simp add: t_def)
    moreover have "length t \<le> 200" using u sublist_length_le [OF sublist_js_trim [of ?u]] True by (simp add: t_def)
    ultimately show ?thesis by (auto simp: MAX_COMPONENT_LENGTH_def)
  next
    case short: False
    then show ?thesis using False cleaned_last [OF False] by (auto simp: t_def)
  qed
  have "sanitise s = t \<or> sanitise s = CHR ''_'' # t" using False by (simp add: sanitise_cleaned t_def Let_def)
  then show ?thesis using chars shape by (auto simp: safeComponent_def illegal_def MAX_COMPONENT_LENGTH_def)
qed

subsection \<open>A rendered name stays in the library\<close>

lemma safe_plain: "safeComponent c \<Longrightarrow> CHR ''/'' \<notin> set c \<and> c \<noteq> [] \<and> c \<noteq> ''..'' \<and> c \<noteq> ''.''"
  by (auto simp: safeComponent_def list_all_iff illegal_def)

lemma splitOn_safe: "safeComponent c \<Longrightarrow> splitOn (CHR ''/'') c = [c]"
  by (simp add: splitOn_fresh safe_plain)

lemma standardName_safe: "safeComponent (standardName item extension)"
  by (simp add: standardName_def Let_def sanitise_safe)

lemma nameStep_safe: "nameStep step item context extension = Some name \<Longrightarrow> safeComponent name"
  by (cases step)
    (auto simp: sourceStep_def fromLocal_def standardName_safe dottedName_def sanitise_safe Let_def
      split: if_splits option.splits prod.splits)

lemma fileNameFor_safe: "safeComponent (fileNameFor order item context extension)"
  by (induction order) (auto simp: standardName_safe dest: nameStep_safe split: option.split)

lemma insideAPin_safe: "insideAPin item context = [] \<or> safeComponent (insideAPin item context)"
  by (auto simp: insideAPin_def sanitise_safe split: option.split)

text \<open>Renumbering the season of a path changes its last component, to one that has a digit.\<close>

lemma showNat_digits: "showNat n \<noteq> [] \<and> list_all isDigit (showNat n)"
proof (induction n rule: showNat.induct)
  case (1 n)
  have "isDigit (char_of (m + 48))" if "m < 10" for m :: nat using that by (simp add: isDigit_def)
  with 1 show ?case by (subst showNat.simps, subst showNat.simps) (auto simp: less_imp_le_nat)
qed

lemma renumbered_segment:
  assumes "CHR ''/'' \<notin> set segment" and "segment \<noteq> ''..''" and "list_all isDigit padded" and "padded \<noteq> []"
  shows "CHR ''/'' \<notin> set (replaceFirst r segment padded) \<and> replaceFirst r segment padded \<noteq> ''..''"
proof (cases "exec r segment")
  case None
  then show ?thesis using assms by (simp add: replaceFirst_def)
next
  case (Some f)
  have no: "\<not> isDigit (CHR ''/'')" "\<not> isDigit (CHR ''.'')" by (simp_all add: isDigit_def)
  obtain d where "d \<in> set padded" "isDigit d" using assms(3,4) by (cases padded) auto
  then have "d \<in> set (before f @ padded @ after f)" "d \<noteq> CHR ''.''" using no by auto
  then have "set (before f @ padded @ after f) \<noteq> set ''..''" by (metis empty_iff insert_iff list.set)
  then have "before f @ padded @ after f \<noteq> ''..''" by metis
  moreover have "CHR ''/'' \<notin> set padded" using no assms(3) by (auto simp: list_all_iff)
  moreover have "CHR ''/'' \<notin> set (before f) \<union> set (after f)" using exec_splits [OF Some] assms(1) by auto
  ultimately show ?thesis using Some by (simp add: replaceFirst_def)
qed

lemma splitOn_trailing: "set (splitOn (CHR ''/'') (dropTrailingSlashes p)) \<subseteq> set (splitOn (CHR ''/'') p)"
proof -
  define k where "k = length (takeWhile (\<lambda>c. c = CHR ''/'') (rev p))"
  have t: "takeWhile (\<lambda>c. c = CHR ''/'') (rev p) = replicate k (CHR ''/'')"
    using set_takeWhileD by (fastforce simp: k_def intro: replicate_eqI)
  have "rev p = replicate k (CHR ''/'') @ rev (dropTrailingSlashes p)"
    unfolding dropTrailingSlashes_def by (metis t rev_rev_ident takeWhile_dropWhile_id)
  then have p: "p = dropTrailingSlashes p @ replicate k (CHR ''/'')" by (metis rev_append rev_replicate rev_rev_ident)
  have "set (splitOn (CHR ''/'') d) \<subseteq> set (splitOn (CHR ''/'') (d @ replicate j (CHR ''/'')))" for d j
  proof (cases j)
    case (Suc i)
    then show ?thesis using splitOn_append_sep [of "CHR ''/''" d "replicate i (CHR ''/'')"] by auto
  qed simp
  from this [of "dropTrailingSlashes p" k] p show ?thesis by simp
qed

lemma withSeasonNumber_plain:
  assumes "withSeasonNumber p n = Some q" and "''..'' \<notin> set (splitOn (CHR ''/'') p)"
  shows "''..'' \<notin> set (splitOn (CHR ''/'') q)"
proof -
  define segments where "segments = splitOn (CHR ''/'') (dropTrailingSlashes p)"
  have ne: "segments \<noteq> []" by (simp add: segments_def)
  have parts: "w \<in> set segments \<Longrightarrow> CHR ''/'' \<notin> set w \<and> w \<noteq> ''..''" for w
    using splitOn_trailing [of p] assms(2) by (auto simp: segments_def dest: splitOn_parts)
  obtain padded where padded: "list_all isDigit padded" "padded \<noteq> []"
    and q: "q = joinWith ''/'' (butlast segments @ [replaceFirst TRAILING_NUMBER (last segments) padded])"
  proof -
    have zero: "isDigit (CHR ''0'')" by (simp add: isDigit_def)
    have digits: "list_all isDigit (padStart k (CHR ''0'') (showNat n)) \<and> padStart k (CHR ''0'') (showNat n) \<noteq> []" for k
      using showNat_digits [of n] zero by (auto simp: padStart_def list_all_iff)
    from assms(1) that show thesis
      using digits showNat_digits [of n] by (auto simp: withSeasonNumber_def segments_def Let_def split: option.splits if_splits)
  qed
  let ?new = "replaceFirst TRAILING_NUMBER (last segments) padded"
  have new: "CHR ''/'' \<notin> set ?new \<and> ?new \<noteq> ''..''"
    using renumbered_segment [OF _ _ padded] parts [OF last_in_set [OF ne]] by blast
  have "splitOn (CHR ''/'') q = butlast segments @ [?new]"
    unfolding q by (rule splitOn_joinWith) (use new parts in \<open>auto simp: list_all_iff dest: in_set_butlastD\<close>)
  then show ?thesis using new parts by (auto dest: in_set_butlastD)
qed

lemma relative_plain:
  assumes "''..'' \<notin> set (splitOn (CHR ''/'') sibling)" and "prefix (base @ ''/'') (beforeLastSlash sibling)"
  shows "''..'' \<notin> set (splitOn (CHR ''/'') (dropWhile (\<lambda>c. c = CHR ''/'') (drop (length base) (beforeLastSlash sibling))))"
proof -
  have tail: "set (splitOn (CHR ''/'') b) \<subseteq> set (splitOn (CHR ''/'') (a @ ''/'' @ b))" for a b
    by (simp add: splitOn_append_sep)
  have head: "set (splitOn (CHR ''/'') a) \<subseteq> set (splitOn (CHR ''/'') (a @ ''/'' @ b))" for a b
    by (simp add: splitOn_append_sep)
  obtain rest where d: "beforeLastSlash sibling = base @ ''/'' @ rest" using assms(2) by (auto simp: prefix_def)
  then have "beforeLastSlash sibling \<noteq> []" by simp
  then obtain name where s: "sibling = beforeLastSlash sibling @ ''/'' @ name"
  proof -
    assume a: "beforeLastSlash sibling \<noteq> []" and that: "\<And>name. sibling = beforeLastSlash sibling @ ''/'' @ name \<Longrightarrow> thesis"
    let ?P = "\<lambda>c. c \<noteq> CHR ''/''"
    have ne: "dropWhile ?P (rev sibling) \<noteq> []" using a unfolding beforeLastSlash_def by (metis drop_Nil rev.simps(1))
    then have h: "hd (dropWhile ?P (rev sibling)) = CHR ''/''" using hd_dropWhile [of ?P] by blast
    have "rev sibling = takeWhile ?P (rev sibling) @ CHR ''/'' # drop 1 (dropWhile ?P (rev sibling))"
      using ne h by (metis takeWhile_dropWhile_id hd_Cons_tl drop_Suc drop_0 One_nat_def)
    then have "sibling = beforeLastSlash sibling @ ''/'' @ rev (takeWhile ?P (rev sibling))"
      unfolding beforeLastSlash_def by (metis rev_append rev_rev_ident append_Cons append_Nil append_assoc rev.simps(2))
    then show thesis by (rule that)
  qed
  have "''..'' \<notin> set (splitOn (CHR ''/'') (beforeLastSlash sibling))" using assms(1) head s by (metis subsetD)
  then have r: "''..'' \<notin> set (splitOn (CHR ''/'') rest)" using tail d by (metis subsetD)
  have strip: "set (splitOn (CHR ''/'') (dropWhile (\<lambda>c. c = CHR ''/'') u)) \<subseteq> set (splitOn (CHR ''/'') u)" for u
    by (induction u) (auto split: list.splits)
  have "dropWhile (\<lambda>c. c = CHR ''/'') (drop (length base) (beforeLastSlash sibling)) = dropWhile (\<lambda>c. c = CHR ''/'') rest"
    by (simp add: d)
  then show ?thesis using strip [of rest] r by auto
qed

lemma imitatedDirectory_plain:
  assumes "imitatedDirectory item context = Some d" and "''..'' \<notin> set (splitOn (CHR ''/'') (orEmpty (siblingPath context)))"
  shows "''..'' \<notin> set (splitOn (CHR ''/'') d)"
proof -
  let ?s = "orEmpty (siblingPath context)" and ?b = "dropTrailingSlashes (orEmpty (libraryRoot context))"
  define relative where "relative = dropWhile (\<lambda>c. c = CHR ''/'') (drop (length ?b) (beforeLastSlash ?s))"
  have ne: "relative \<noteq> []" and under: "beforeLastSlash ?s = ?b \<or> prefix (?b @ ''/'') (beforeLastSlash ?s)"
    and d: "d = relative \<or> (\<exists>n. withSeasonNumber relative n = Some d)"
    using assms(1) by (auto simp: imitatedDirectory_def relative_def Let_def split: if_splits option.splits)
  from under ne have "prefix (?b @ ''/'') (beforeLastSlash ?s)" by (auto simp: relative_def)
  from relative_plain [OF assms(2) this] have "''..'' \<notin> set (splitOn (CHR ''/'') relative)" by (simp add: relative_def)
  then show ?thesis using d withSeasonNumber_plain by blast
qed

lemma directoryFor_components:
  assumes "isPinnedRoot context \<or> imitatedDirectory item context = None" and "directoryFor item context \<noteq> []"
  shows "list_all safeComponent (splitOn (CHR ''/'') (directoryFor item context))"
proof (cases "isPinnedRoot context")
  case True
  then show ?thesis using assms(2) insideAPin_safe [of item "context"] by (auto simp: directoryFor_def splitOn_safe)
next
  case False
  with assms have "directoryFor item context \<noteq> []" "imitatedDirectory item context = None" by auto
  then show ?thesis using False splitOn_append_sep [of "CHR ''/''"]
    by (simp add: directoryFor_def splitOn_safe sanitise_safe split: if_splits)
qed

text \<open>
  (C17) The path a file is given under a library has no step upwards, whatever the titles, the source's
  name and the settings are, as long as the local file it imitates has none; its last component is a
  safe file name: not empty, no separator, no control or reserved character, at most 201 characters.
  Where no local file is imitated every component of it is such a name.
\<close>

theorem rendered_name_stays_inside:
  assumes "''..'' \<notin> set (splitOn (CHR ''/'') (orEmpty (siblingPath context)))"
  shows "let parts = splitOn (CHR ''/'') (renderName order item context) in
    ''..'' \<notin> set parts \<and> safeComponent (last parts)
    \<and> (if isPinnedRoot context \<or> imitatedDirectory item context = None then list_all safeComponent parts else True)"
proof -
  let ?name = "fileNameFor order item context (extensionOf (nSourcePath item))" and ?d = "directoryFor item context"
  have name: "safeComponent ?name" by (rule fileNameFor_safe)
  have parts: "splitOn (CHR ''/'') (renderName order item context) = (if ?d = [] then [] else splitOn (CHR ''/'') ?d) @ [?name]"
    using splitOn_append_sep [of "CHR ''/''" ?d ?name] splitOn_safe [OF name] by (simp add: renderName_def Let_def)
  have "''..'' \<notin> set (splitOn (CHR ''/'') ?d)" if "?d \<noteq> []"
  proof (cases "isPinnedRoot context \<or> imitatedDirectory item context = None")
    case True
    from directoryFor_components [OF this that] show ?thesis using safe_plain by (auto simp: list_all_iff)
  next
    case False
    then show ?thesis using imitatedDirectory_plain [OF _ assms] by (auto simp: directoryFor_def)
  qed
  then show ?thesis using name safe_plain [OF name] directoryFor_components [of "context" item] by (auto simp: parts)
qed

text \<open>An episode of a show the library already holds, named after a peer's title that tries to climb.\<close>

definition climbingEpisode :: NameableItem where
  "climbingEpisode =
     \<lparr>nKind = EPISODE, nTitle = ''../../etc'', nYear = None, nSeason = Some (Some 2), nEpisode = Some (Some 5),
      nSeriesTitle = Some ''Show'', nSeriesYear = None, nSourcePath = Some ''/data/..''\<rparr>"

definition heldShow :: NamingContext where
  "heldShow =
     \<lparr>samples = [], siblingPath = Some ''/srv/tv/Show/Season 01/a.mkv'', libraryRoot = Some ''/srv/tv'', pinnedFolder = None\<rparr>"

theorem rendered_name_stays_inside_witness:
  "''..'' \<notin> set (splitOn (CHR ''/'') (renderName [SOURCE, STANDARD] climbingEpisode heldShow))"
proof -
  have "''..'' \<notin> set (splitOn (CHR ''/'') (orEmpty (siblingPath heldShow)))" by (simp add: heldShow_def orEmpty_def)
  from rendered_name_stays_inside [OF this, of "[SOURCE, STANDARD]" climbingEpisode] show ?thesis by (simp add: Let_def)
qed

subsection \<open>Every attempt has a name of its own\<close>

text \<open>What a component says apart from blanks, which sanitising keeps up to dots at its end.\<close>

definition essence :: "string \<Rightarrow> string" where
  "essence s = filter (\<lambda>c. \<not> isSpace c) (toSpace illegal s)"

lemma isSpace_space: "isSpace (CHR '' '')"
  by (simp add: isSpace_def)

lemma filter_collapse: "filter (\<lambda>c. \<not> isSpace c) (collapse s) = filter (\<lambda>c. \<not> isSpace c) s"
  by (induction s rule: collapse.induct) (auto simp: isSpace_space)

lemma filter_dropWhile_spaces: "filter (\<lambda>c. \<not> isSpace c) (dropWhile isSpace s) = filter (\<lambda>c. \<not> isSpace c) s"
  by (induction s) auto

lemma filter_js_trim: "filter (\<lambda>c. \<not> isSpace c) (js_trim s) = filter (\<lambda>c. \<not> isSpace c) s"
  unfolding js_trim_def by (metis filter_dropWhile_spaces rev_filter rev_rev_ident)

lemma filter_dropWhile_dots:
  "list_all (\<lambda>c. isSpace c \<longrightarrow> c = CHR '' '') s \<Longrightarrow>
   filter (\<lambda>c. \<not> isSpace c) (dropWhile (\<lambda>c. c = CHR ''.'' \<or> c = CHR '' '') s) = dropWhile (\<lambda>c. c = CHR ''.'') (filter (\<lambda>c. \<not> isSpace c) s)"
  by (induction s) (auto simp: isSpace_def)

lemma essence_cleaned: "filter (\<lambda>c. \<not> isSpace c) (cleaned s) = dropTail (\<lambda>c. c = CHR ''.'') (essence s)"
proof -
  let ?u = "rev (collapse (toSpace illegal s))"
  have "list_all (\<lambda>c. isSpace c \<longrightarrow> c = CHR '' '') ?u" using collapse_chars by (auto simp: list_all_iff)
  from filter_dropWhile_dots [OF this] show ?thesis
    by (simp add: cleaned_def filter_js_trim dropTail_def essence_def rev_filter [symmetric] filter_collapse)
qed

lemma length_cleaned: "length (cleaned s) \<le> length s"
proof -
  have "length (collapse u) \<le> length u" for u by (induction u rule: collapse.induct) auto
  from this [of "toSpace illegal s"] have "length (collapse (toSpace illegal s)) \<le> length s" by (simp add: toSpace_def)
  then show ?thesis unfolding cleaned_def
    by (rule le_trans [OF le_trans [OF sublist_length_le [OF sublist_js_trim] sublist_length_le [OF sublist_dropTail]]])
qed

lemma sanitise_essence:
  assumes "length s \<le> MAX_COMPONENT_LENGTH" and "CHR ''-'' \<in> set (essence s)"
  shows "filter (\<lambda>c. \<not> isSpace c) (sanitise s) \<in> {dropTail (\<lambda>c. c = CHR ''.'') (essence s), CHR ''_'' # dropTail (\<lambda>c. c = CHR ''.'') (essence s)}"
proof -
  have "CHR ''-'' \<in> set (dropTail (\<lambda>c. c = CHR ''.'') (essence s))"
  proof -
    obtain a b where ab: "essence s = a @ CHR ''-'' # b" using assms(2) by (metis split_list)
    show ?thesis unfolding ab dropTail_def by (simp add: dropWhile_append)
  qed
  then have "cleaned s \<noteq> []" using essence_cleaned [of s] by (metis filter.simps(1) empty_iff empty_set)
  moreover have "\<not> MAX_COMPONENT_LENGTH < length (cleaned s)" using length_cleaned [of s] assms(1) by simp
  moreover have "\<not> isSpace (CHR ''_'')" by (simp add: isSpace_def)
  ultimately show ?thesis using essence_cleaned [of s] by (simp add: sanitise_cleaned Let_def)
qed

lemma dropTail_append: "dropTail P (a @ b) = (if list_all P b then dropTail P a else a @ dropTail P b)"
  by (auto simp: dropTail_def dropWhile_append list_all_iff)

lemma sanitise_distinct:
  assumes len: "length s \<le> MAX_COMPONENT_LENGTH" "length t \<le> MAX_COMPONENT_LENGTH"
    and s: "essence s = a @ x @ b" and t: "essence t = a @ y @ b" and dash: "CHR ''-'' \<in> set a"
    and ends: "x = [] \<or> last x \<noteq> CHR ''.''" "y = [] \<or> last y \<noteq> CHR ''.''" and differ: "x \<noteq> y"
  shows "sanitise s \<noteq> sanitise t"
proof
  let ?dot = "\<lambda>c. c = CHR ''.''" and ?dash = "\<lambda>c. c \<noteq> CHR ''-''"
  let ?s = "dropTail ?dot (a @ x @ b)" and ?t = "dropTail ?dot (a @ y @ b)"
  assume same: "sanitise s = sanitise t"
  have "takeWhile ?dash (dropTail ?dot (a @ z)) = takeWhile ?dash a" for z
  proof -
    obtain u v where a: "a = u @ CHR ''-'' # v" "CHR ''-'' \<notin> set u" using dash by (metis split_list_first)
    have "dropTail ?dot (a @ z) = u @ CHR ''-'' # dropTail ?dot (v @ z)"
      using a by (simp add: dropTail_def dropWhile_append)
    then show ?thesis using a by (simp add: takeWhile_append)
  qed
  then have heads: "takeWhile ?dash ?s = takeWhile ?dash ?t" by metis
  have short: "length (dropTail ?dot a) \<le> length a" by (rule sublist_length_le [OF sublist_dropTail])
  have longer: "a @ z \<noteq> dropTail ?dot a" "dropTail ?dot a \<noteq> a @ z" if "z \<noteq> []" for z
    using short that by (metis add_le_same_cancel1 le_zero_eq length_0_conv length_append)+
  have kept: "dropTail ?dot (a @ z) = a @ z" if "z \<noteq> []" "last z \<noteq> CHR ''.''" for z
    using that by (cases z rule: rev_cases) (simp_all add: dropTail_def)
  have ne: "?s \<noteq> ?t"
  proof (cases "list_all ?dot b")
    case True
    then have "?s = dropTail ?dot (a @ x)" "?t = dropTail ?dot (a @ y)"
      using dropTail_append [of ?dot "a @ x" b] dropTail_append [of ?dot "a @ y" b] by simp_all
    then show ?thesis using kept [of x] kept [of y] longer ends differ by (cases "x = []"; cases "y = []") auto
  next
    case False
    then show ?thesis using dropTail_append [of ?dot "a @ x" b] dropTail_append [of ?dot "a @ y" b] differ by simp
  qed
  let ?f = "filter (\<lambda>c. \<not> isSpace c) (sanitise s)"
  have "?f \<in> {?s, CHR ''_'' # ?s}" using sanitise_essence [OF len(1)] dash s by simp
  moreover have "?f \<in> {?t, CHR ''_'' # ?t}" using sanitise_essence [OF len(2)] dash t same by simp
  moreover have "u \<noteq> CHR ''_'' # v" if "takeWhile ?dash u = takeWhile ?dash v" for u v
  proof
    assume "u = CHR ''_'' # v"
    with that have "CHR ''_'' # takeWhile ?dash v = takeWhile ?dash v" by simp
    then show False by simp
  qed
  note this [OF heads] this [OF heads [symmetric]]
  ultimately show False using ne by auto
qed

lemma essence_append: "essence (a @ b) = essence a @ essence b"
  by (simp add: essence_def toSpace_def)

lemma essence_digits: "list_all isDigit s \<Longrightarrow> essence s = s"
proof (induction s)
  case (Cons c s)
  have "\<not> illegal c \<and> \<not> isSpace c" using Cons.prems by (auto simp: isDigit_def illegal_def isSpace_def Let_def)
  with Cons show ?case by (simp add: essence_def toSpace_def)
qed (simp add: essence_def toSpace_def)

lemma showNat_inj: "showNat m = showNat n \<longleftrightarrow> m = n"
proof -
  have "parseDigits (showNat n) = n" for n
  proof (induction n rule: showNat.induct)
    case (1 n)
    then show ?case by (subst showNat.simps) (auto simp: parseDigits_def digitValue_def)
  qed
  then show ?thesis by metis
qed

lemma showNat_last: "last (showNat n) \<noteq> CHR ''.''"
proof -
  have "isDigit (last (showNat n))" using showNat_digits [of n] by (auto simp: list_all_iff)
  then show ?thesis by (auto simp: isDigit_def)
qed

lemma essence_second:
  "\<exists>a b d. (\<forall>n. essence (secondName name marks n) = a @ d n @ b) \<and> inj d \<and> CHR ''-'' \<in> set a
     \<and> (\<forall>n. d n = [] \<or> last (d n) \<noteq> CHR ''.'')"
proof -
  define extension where "extension = extensionOf (Some name)"
  define stem where "stem = (if extension = [] then name else take (length name - length extension) name)"
  define chosen where "chosen =
    (case versionLabel marks of
       None \<Rightarrow> None
     | Some (t, tag) \<Rightarrow> if sublist (toLowerCase (taggedWith t tag)) (toLowerCase stem) then None else Some (t, tag))"
  define tag where "tag \<longleftrightarrow> isDotted stem \<or> (case chosen of None \<Rightarrow> False | Some (t, tag) \<Rightarrow> tag)"
  define pre where "pre = (if tag then ''{edition-'' else [])"
  define post where "post = (if tag then ''}'' else [])"
  have form: "secondName name marks n =
      stem @ '' - '' @ pre @ (case chosen of
               None \<Rightarrow> showNat (n + 1)
             | Some (t, tag) \<Rightarrow> if n = 1 then t else t @ '' ('' @ showNat n @ '')'') @ post @ extension" for n
    unfolding secondName_def Let_def extension_def [symmetric] stem_def [symmetric] chosen_def [symmetric] tag_def [symmetric]
    unfolding taggedWith_def pre_def post_def by simp
  have dash: "CHR ''-'' \<in> set (essence '' - '')" by (simp add: essence_def toSpace_def illegal_def isSpace_def)
  have num: "essence (showNat n) = showNat n" for n using essence_digits showNat_digits by blast
  show ?thesis
  proof (cases chosen)
    case None
    then have "essence (secondName name marks n) = (essence stem @ essence '' - '' @ essence pre) @ showNat (n + 1) @ essence post @ essence extension" for n
      by (simp only: form essence_append num option.case append_assoc)
    moreover have "inj (\<lambda>n. showNat (n + 1))" by (rule injI) (simp add: showNat_inj)
    ultimately show ?thesis using dash showNat_last
      by (intro exI [of _ "essence stem @ essence '' - '' @ essence pre"] exI [of _ "essence post @ essence extension"]
          exI [of _ "\<lambda>n. showNat (n + 1)"]) auto
  next
    case (Some c)
    obtain t tg where c: "c = (t, tg)" by (cases c)
    define d where "d n = (if n = 1 then [] else ''('' @ showNat n @ '')'')" for n
    have "essence '' ('' = ''(''" "essence '')'' = '')''" by (simp_all add: essence_def toSpace_def illegal_def isSpace_def)
    then have "essence (secondName name marks n) = (essence stem @ essence '' - '' @ essence pre @ essence t) @ d n @ essence post @ essence extension" for n
      by (simp only: form essence_append num option.case append_assoc Some c prod.case d_def split: if_split)
         (simp add: essence_append num)
    moreover have "inj d" by (rule injI) (auto simp: d_def showNat_inj split: if_splits)
    moreover have "d n = [] \<or> last (d n) \<noteq> CHR ''.''" for n by (simp add: d_def)
    ultimately show ?thesis using dash
      by (intro exI [of _ "essence stem @ essence '' - '' @ essence pre @ essence t"] exI [of _ "essence post @ essence extension"]
          exI [of _ d]) auto
  qed
qed

lemma second_distinct:
  assumes "i \<noteq> j" and "length (secondName name marks i) \<le> MAX_COMPONENT_LENGTH" and "length (secondName name marks j) \<le> MAX_COMPONENT_LENGTH"
  shows "sanitise (secondName name marks i) \<noteq> sanitise (secondName name marks j)"
proof -
  obtain a b d where e: "\<And>n. essence (secondName name marks n) = a @ d n @ b" "inj d" "CHR ''-'' \<in> set a"
    "\<And>n. d n = [] \<or> last (d n) \<noteq> CHR ''.''"
    using essence_second by metis
  from sanitise_distinct [OF assms(2,3) e(1) e(1) e(3) e(4) e(4)] show ?thesis using assms(1) e(2) by (auto dest: injD)
qed

subsection \<open>What the names get wrong\<close>

text \<open>
  A component of more than 200 characters is cut with its extension, and the cut may leave the dot
  that sanitising is there to remove. A name that is already cut has no second name: every attempt
  gives the name that is taken.
\<close>

definition longName :: string where "longName = replicate 200 (CHR ''a'')"

lemma long_name_loses_extension:
  "sanitise (longName @ ''.mkv'') = longName"
  "sanitise (replicate 199 (CHR ''a'') @ ''.mkv'') = replicate 199 (CHR ''a'') @ ''.''"
  by code_simp+

lemma long_name_parts:
  "nameOf longName = ([], longName)" "extensionOf (Some longName) = []" "isDotted longName = False"
  "sanitise (longName @ '' - 2'') = longName" "sanitise (longName @ '' - 3'') = longName"
  by code_simp+

lemma long_name_has_no_second:
  "disambiguate longName \<lparr>markEdition = None, markQuality = None\<rparr> 1 = longName"
  "disambiguate longName \<lparr>markEdition = None, markQuality = None\<rparr> 2 = longName"
proof -
  have "showNat 2 = ''2''" "showNat 3 = ''3''" "showNat (Suc (Suc 0)) = ''2''" by code_simp+
  then show "disambiguate longName \<lparr>markEdition = None, markQuality = None\<rparr> 1 = longName"
    "disambiguate longName \<lparr>markEdition = None, markQuality = None\<rparr> 2 = longName"
    using long_name_parts
    by (simp_all add: disambiguate_def secondName_def versionLabel_def orEmpty_def js_trim_def taggedWith_def)
qed

text \<open>
  Imitating a local file keeps its separator and drops everything after the episode title. A folder
  pinned for a season is the folder when naming is told of the pin; told only that it is the root,
  naming builds the show and the season in it again.
\<close>

definition fromS04E05 :: NameableItem where
  "fromS04E05 =
     \<lparr>nKind = EPISODE, nTitle = ''Pilot'', nYear = None, nSeason = Some (Some 4), nEpisode = Some (Some 5),
      nSeriesTitle = Some ''FROM'', nSeriesYear = Some 2022, nSourcePath = Some ''x.mkv''\<rparr>"

lemma imitated_name_drops_its_tail:
  "fromLocal fromS04E05 \<lparr>samples = [''Show - S01E01 - Old 1080p.mkv''], siblingPath = None, libraryRoot = None, pinnedFolder = None\<rparr> ''.mkv''
     = Some ''Show - S04E05 - Pilot.mkv''"
  by code_simp

lemma pinned_folder_is_rebuilt:
  "directoryFor fromS04E05 \<lparr>samples = [], siblingPath = None, libraryRoot = Some ''/tv/From/Saison 04'', pinnedFolder = Some ''/tv/From/Saison 04''\<rparr>
     = []"
  "directoryFor fromS04E05 \<lparr>samples = [], siblingPath = None, libraryRoot = Some ''/tv/From/Saison 04'', pinnedFolder = None\<rparr>
     = ''FROM (2022)/Season 04''"
  by code_simp+

end
