(* ===== verification/Placement.thy ===== *)
theory Placement
  imports Naming Space
begin

text \<open>
  Where a pulled file lands: \<open>packages/api/src/services/placement.service.ts\<close> and \<open>placed-by.ts\<close>. The
  filesystem is a parameter: which paths exist, which may be written, what \<open>statfs\<close> answers, and the
  working directory of the process. A name given as a string is the constant function.
\<close>

subsection \<open>Data\<close>

datatype LibraryKind = MOVIES | SHOWS | MUSIC | MIXED | OTHER

datatype PlacementStrategy = BESIDE_EXISTING | DEFAULT_LIBRARY | FIXED_PATH

datatype PlacedBy =
  ByRequest | ByPlanPreference | ChosenByHand | ByExistingCopy | ByCategory | ByDefaultLibrary | ByFixedPath | ByFallbackPath | ByAnyWritable

record PlacementLibrary =
  plId :: string
  plName :: string
  plKind :: LibraryKind
  plLocalPath :: "string option"
  plLocalRoots :: "string list"
  plWritable :: bool
  plDefault :: bool
  plCategory :: "string option"

record PlacementSettings =
  stPlacement :: PlacementStrategy
  stFixedPath :: "string option"
  stCategoryTargets :: "string \<rightharpoonup> string"
  stDefaultTargetLibraryId :: "string option"
  stDefaultTargetPath :: "string option"

record PlacementPin =
  pinRoot :: string
  pinLibraryId :: string
  pinLibraryName :: string
  pinStrategy :: PlacementStrategy
  pinFallback :: bool
  pinPlacedBy :: PlacedBy

record PlacementRequest =
  rqKind :: MediaKind
  rqCategoryKey :: "string option"
  rqSettings :: PlacementSettings
  rqLibraries :: "PlacementLibrary list"
  rqRelativeName :: "string \<Rightarrow> string"
  rqExistingPath :: "string option"
  rqPinnedPath :: "string option"
  rqPreferredLibraryId :: "string option"
  rqPreferredBy :: "PlacedBy option"
  rqRequiredBytes :: int
  rqReplacesPath :: "string option"
  rqDisambiguate :: "(string \<Rightarrow> nat \<Rightarrow> string) option"
  rqReserved :: "string list"
  rqPinned :: "PlacementPin option"

record PlacementTarget =
  tgLibraryId :: string
  tgLibraryName :: string
  tgRoot :: string
  tgDirectory :: string
  tgPath :: string
  tgStrategy :: PlacementStrategy
  tgFallback :: bool
  tgNotes :: "string list"
  tgPlacedBy :: PlacedBy

record PlacementAttempt =
  atLibrary :: PlacementLibrary
  atRoot :: string
  atStrategy :: PlacementStrategy
  atFallback :: bool

datatype PlacementError = NoSpaceLeft "string list" | PathNotWritable "string list" | TargetOccupied string

record PlaceEnv =
  fileExists :: "string \<Rightarrow> bool"
  mayWrite :: "string \<Rightarrow> bool"
  statfsOf :: "string \<Rightarrow> (int \<times> int) option"
  workDir :: "string list"

definition MAX_NAME_ATTEMPTS :: nat where "MAX_NAME_ATTEMPTS = 50"

subsection \<open>Paths\<close>

definition resolvePath :: "PlaceEnv \<Rightarrow> string \<Rightarrow> string" where
  "resolvePath env p = render (resolveRequest (workDir env) p)"

text \<open>Node's POSIX \<open>dirname\<close> and \<open>basename\<close>.\<close>

definition dirName :: "string \<Rightarrow> string" where
  "dirName p =
     (let above = dropTail (\<lambda>c. c \<noteq> CHR ''/'') (dropTail (\<lambda>c. c = CHR ''/'') p) in
      if above = [] then (if isAbsolute p then ''/'' else ''.'')
      else if above = ''/'' then ''/''
      else if above = ''//'' then ''//''
      else butlast above)"

definition lastName :: "string \<Rightarrow> string" where
  "lastName p = rev (takeWhile (\<lambda>c. c \<noteq> CHR ''/'') (rev (dropTail (\<lambda>c. c = CHR ''/'') p)))"

definition safeRelative :: "string \<Rightarrow> string" where
  "safeRelative relativeName =
     (let parts = filter (\<lambda>c. c \<noteq> ''.'' \<and> c \<noteq> ''..'')
            (pathComponents (map (\<lambda>c. if c = CHR 0x5C then CHR ''/'' else c) (normalizePath relativeName)))
      in if parts = [] then ''untitled'' else joinWith ''/'' parts)"

definition landing :: "string \<Rightarrow> string \<Rightarrow> string" where
  "landing base relativeName = joinPaths [base, safeRelative relativeName]"

definition isGiven :: "string option \<Rightarrow> bool" where
  "isGiven v \<longleftrightarrow> v \<noteq> None \<and> v \<noteq> Some []"

subsection \<open>Probing a directory\<close>

fun nearestExisting :: "PlaceEnv \<Rightarrow> string list \<Rightarrow> string option" where
  "nearestExisting env revPath =
     (if fileExists env (render (rev revPath)) then Some (render (rev revPath))
      else case revPath of
        [] \<Rightarrow> None
      | c # parent \<Rightarrow> nearestExisting env parent)"

declare nearestExisting.simps [simp del]

definition marginFor :: "int \<Rightarrow> rat" where
  "marginFor required = max (64 * 1024 * 1024) (of_int required / 100)"

definition showInt :: "int \<Rightarrow> string" where
  "showInt n = (if n < 0 then ''-'' @ showNat (nat (- n)) else showNat (nat n))"

text \<open>\<open>None\<close> is a directory that can be used, otherwise the reason why not.\<close>

definition probe :: "PlaceEnv \<Rightarrow> string \<Rightarrow> int \<Rightarrow> string option" where
  "probe env directory required =
     (case nearestExisting env (rev (resolveRequest (workDir env) directory)) of
        None \<Rightarrow> Some ''no existing ancestor''
      | Some current \<Rightarrow>
          if \<not> mayWrite env current then Some (current @ '' is not writable'')
          else if required \<le> 0 then None
          else case freeBytesAt (statfsOf env) current of
            None \<Rightarrow> None
          | Some free \<Rightarrow>
              if of_int free < of_int required + marginFor required
              then Some (''not enough space ('' @ showInt free @ '' free, '' @ showInt required @ '' needed)'')
              else None)"

subsection \<open>A free path\<close>

definition occupied :: "PlaceEnv \<Rightarrow> PlacementRequest \<Rightarrow> string \<Rightarrow> bool" where
  "occupied env rq p =
     (let absolute = resolvePath env p in
      if isGiven (rqReplacesPath rq) \<and> absolute = resolvePath env (the (rqReplacesPath rq)) then False
      else absolute \<in> set (map (resolvePath env) (rqReserved rq)) \<or> fileExists env absolute)"

fun tryNames :: "PlaceEnv \<Rightarrow> PlacementRequest \<Rightarrow> string \<Rightarrow> string \<Rightarrow> (nat \<Rightarrow> string) \<Rightarrow> nat list \<Rightarrow> string option" where
  "tryNames env rq base wanted other [] = None"
| "tryNames env rq base wanted other (n # ns) =
     (let candidate = landing base (other n) in
      if candidate = wanted then tryNames env rq base wanted other ns
      else if \<not> occupied env rq candidate then Some candidate
      else tryNames env rq base wanted other ns)"

definition freePath :: "PlaceEnv \<Rightarrow> PlacementRequest \<Rightarrow> string \<Rightarrow> string \<Rightarrow> string + string \<times> string list" where
  "freePath env rq base relativeName =
     (let wanted = landing base relativeName in
      if \<not> occupied env rq wanted then Inr (wanted, [])
      else case rqDisambiguate rq of
        None \<Rightarrow> Inl wanted
      | Some other \<Rightarrow>
          (case tryNames env rq base wanted (other relativeName) [1..<Suc MAX_NAME_ATTEMPTS] of
             None \<Rightarrow> Inl wanted
           | Some candidate \<Rightarrow> Inr (candidate, [lastName wanted @ '' is taken, landing as '' @ lastName candidate])))"

subsection \<open>Candidates\<close>

definition syntheticLibrary :: "string \<Rightarrow> PlacementLibrary" where
  "syntheticLibrary p =
     \<lparr>plId = [], plName = p, plKind = OTHER, plLocalPath = Some p, plLocalRoots = [], plWritable = True, plDefault = False, plCategory = None\<rparr>"

definition usableLibraries :: "PlacementLibrary list \<Rightarrow> PlacementLibrary list" where
  "usableLibraries libraries = filter (\<lambda>l. plWritable l \<and> isGiven (plLocalPath l)) libraries"

definition rootsOf :: "PlacementLibrary \<Rightarrow> string list" where
  "rootsOf l = uniques (filter (\<lambda>r. r \<noteq> []) ((case plLocalPath l of None \<Rightarrow> [] | Some p \<Rightarrow> [p]) @ plLocalRoots l))"

definition holdsPath :: "PlaceEnv \<Rightarrow> string \<Rightarrow> string \<Rightarrow> bool" where
  "holdsPath env p base = isInside (resolvePath env p) (resolvePath env base)"

definition rootHolding :: "PlaceEnv \<Rightarrow> PlacementLibrary list \<Rightarrow> string \<Rightarrow> (PlacementLibrary \<times> string) option" where
  "rootHolding env libraries p =
     (case sort_key (\<lambda>(l, r). - int (length r))
        (filter (\<lambda>(l, r). holdsPath env p r) (concat (map (\<lambda>l. map (Pair l) (rootsOf l)) libraries))) of
        [] \<Rightarrow> None
      | x # _ \<Rightarrow> Some x)"

definition libraryHolding :: "PlaceEnv \<Rightarrow> PlacementLibrary list \<Rightarrow> string \<Rightarrow> PlacementLibrary option" where
  "libraryHolding env libraries p = map_option fst (rootHolding env libraries p)"

definition libraryKindFor :: "MediaKind \<Rightarrow> LibraryKind" where
  "libraryKindFor kind = (if kind = MOVIE \<or> kind = COLLECTION then MOVIES else SHOWS)"

definition ownFirst :: "string option \<Rightarrow> PlacementLibrary list \<Rightarrow> PlacementLibrary list" where
  "ownFirst categoryKey band =
     (if categoryKey = None then band
      else filter (\<lambda>l. plCategory l = categoryKey) band @ filter (\<lambda>l. plCategory l \<noteq> categoryKey) band)"

definition preferredFirst :: "string option \<Rightarrow> PlacementLibrary list \<Rightarrow> PlacementLibrary list" where
  "preferredFirst categoryKey band = ownFirst categoryKey (filter plDefault band) @ ownFirst categoryKey (filter (\<lambda>l. \<not> plDefault l) band)"

definition byPreference :: "PlacementLibrary list \<Rightarrow> MediaKind \<Rightarrow> string option \<Rightarrow> PlacementLibrary list" where
  "byPreference libraries kind categoryKey =
     (let wanted = libraryKindFor kind in
      preferredFirst categoryKey (filter (\<lambda>l. plKind l = wanted) libraries)
      @ preferredFirst categoryKey (filter (\<lambda>l. plKind l = MIXED) libraries)
      @ preferredFirst categoryKey (filter (\<lambda>l. plKind l \<noteq> wanted \<and> plKind l \<noteq> MIXED) libraries))"

definition pushConfigured ::
  "PlacementLibrary list \<Rightarrow> string option \<Rightarrow> string \<Rightarrow> PlacementAttempt list \<times> string list \<Rightarrow> PlacementAttempt list \<times> string list" where
  "pushConfigured libraries choice label acc =
     (case acc of (attempts, skipped) \<Rightarrow>
        if \<not> isGiven choice then (attempts, skipped)
        else
          let c = the choice;
              asRoot = (if isAbsolute c then find (\<lambda>l. c \<in> set (plLocalRoots l)) libraries else None);
              library = (case asRoot of Some l \<Rightarrow> Some l | None \<Rightarrow> find (\<lambda>l. plId l = c) libraries)
          in case library of
            None \<Rightarrow> (attempts, skipped @ [label @ '' no longer exists ('' @ c @ '')''])
          | Some l \<Rightarrow>
              if \<not> plWritable l then (attempts, skipped @ [label @ '', '' @ plName l @ '', is not writable''])
              else
                let chosen = (if asRoot = None then plLocalPath l else choice) in
                if \<not> isGiven chosen then (attempts, skipped @ [label @ '', '' @ plName l @ '', has no local path''])
                else (attempts @ [\<lparr>atLibrary = l, atRoot = the chosen, atStrategy = DEFAULT_LIBRARY, atFallback = False\<rparr>], skipped))"

fun firstPerRoot :: "string set \<Rightarrow> PlacementAttempt list \<Rightarrow> PlacementAttempt list" where
  "firstPerRoot known [] = []"
| "firstPerRoot known (a # as) =
     (let key = normalizePath (atRoot a) in
      if key \<in> known then firstPerRoot known as else a # firstPerRoot (insert key known) as)"

definition trimmedPath :: "string option \<Rightarrow> string" where
  "trimmedPath p = js_trim (orEmpty p)"

definition namedAttempts :: "PlaceEnv \<Rightarrow> PlacementRequest \<Rightarrow> PlacementLibrary list \<Rightarrow> PlacementAttempt list" where
  "namedAttempts env rq usableLibs =
     (let named = dropTrailingSlashes (trimmedPath (rqPinnedPath rq)) in
      if named \<noteq> [] \<and> isAbsolute named
      then [\<lparr>atLibrary = (case libraryHolding env usableLibs named of Some l \<Rightarrow> l | None \<Rightarrow> syntheticLibrary named),
             atRoot = named, atStrategy = FIXED_PATH, atFallback = False\<rparr>]
      else [])"

definition existingAttempts :: "PlaceEnv \<Rightarrow> PlacementRequest \<Rightarrow> PlacementLibrary list \<Rightarrow> PlacementAttempt list" where
  "existingAttempts env rq usableLibs =
     (if isGiven (rqExistingPath rq) then
        (case rootHolding env usableLibs (the (rqExistingPath rq)) of
           None \<Rightarrow> []
         | Some (l, r) \<Rightarrow> [\<lparr>atLibrary = l, atRoot = r, atStrategy = BESIDE_EXISTING, atFallback = False\<rparr>])
      else [])"

definition preferredAttempts :: "PlacementRequest \<Rightarrow> PlacementLibrary list \<Rightarrow> PlacementAttempt list" where
  "preferredAttempts rq usableLibs =
     (case find (\<lambda>l. Some (plId l) = rqPreferredLibraryId rq) usableLibs of
        None \<Rightarrow> []
      | Some l \<Rightarrow> [\<lparr>atLibrary = l, atRoot = the (plLocalPath l), atStrategy = stPlacement (rqSettings rq), atFallback = False\<rparr>])"

definition perCategory :: "PlacementRequest \<Rightarrow> string option" where
  "perCategory rq = (if isGiven (rqCategoryKey rq) then stCategoryTargets (rqSettings rq) (the (rqCategoryKey rq)) else None)"

definition fixedAttempts :: "PlaceEnv \<Rightarrow> PlacementRequest \<Rightarrow> PlacementLibrary list \<Rightarrow> PlacementAttempt list" where
  "fixedAttempts env rq usableLibs =
     (let fixed = trimmedPath (stFixedPath (rqSettings rq)) in
      if stPlacement (rqSettings rq) = FIXED_PATH \<and> fixed \<noteq> [] \<and> isAbsolute fixed
      then [\<lparr>atLibrary =
               (case libraryHolding env usableLibs fixed of
                  Some l \<Rightarrow> l
                | None \<Rightarrow> (case usableLibs of l # _ \<Rightarrow> l | [] \<Rightarrow> syntheticLibrary fixed)),
             atRoot = fixed, atStrategy = FIXED_PATH, atFallback = False\<rparr>]
      else [])"

definition fallbackAttempts :: "PlaceEnv \<Rightarrow> PlacementRequest \<Rightarrow> PlacementLibrary list \<Rightarrow> PlacementAttempt list" where
  "fallbackAttempts env rq usableLibs =
     (let folder = trimmedPath (stDefaultTargetPath (rqSettings rq)) in
      if folder \<noteq> [] \<and> isAbsolute folder
      then [\<lparr>atLibrary = (case libraryHolding env usableLibs folder of Some l \<Rightarrow> l | None \<Rightarrow> syntheticLibrary folder),
             atRoot = folder, atStrategy = DEFAULT_LIBRARY, atFallback = True\<rparr>]
      else [])"

definition anyAttempts :: "PlacementRequest \<Rightarrow> PlacementLibrary list \<Rightarrow> PlacementAttempt list" where
  "anyAttempts rq usableLibs =
     map (\<lambda>l. \<lparr>atLibrary = l, atRoot = the (plLocalPath l), atStrategy = DEFAULT_LIBRARY,
                atFallback = (stPlacement (rqSettings rq) \<noteq> DEFAULT_LIBRARY)\<rparr>)
       (byPreference usableLibs (rqKind rq) (rqCategoryKey rq))"

definition candidates :: "PlaceEnv \<Rightarrow> PlacementRequest \<Rightarrow> PlacementAttempt list \<times> string list" where
  "candidates env rq =
     (case rqPinned rq of
        Some pin \<Rightarrow>
          let host = (case find (\<lambda>l. plId l = pinLibraryId pin) (rqLibraries rq) of Some l \<Rightarrow> l | None \<Rightarrow> syntheticLibrary (pinRoot pin))
          in ([\<lparr>atLibrary = host\<lparr>plName := pinLibraryName pin\<rparr>, atRoot = pinRoot pin, atStrategy = pinStrategy pin, atFallback = pinFallback pin\<rparr>], [])
      | None \<Rightarrow>
          let usableLibs = usableLibraries (rqLibraries rq);
              asked = namedAttempts env rq usableLibs @ existingAttempts env rq usableLibs @ preferredAttempts rq usableLibs;
              (configured, skipped) =
                pushConfigured (rqLibraries rq) (stDefaultTargetLibraryId (rqSettings rq)) ''the default target library''
                  (pushConfigured (rqLibraries rq) (perCategory rq)
                    (''the library configured for \"'' @ orEmpty (rqCategoryKey rq) @ ''\"'') (asked, []))
          in (firstPerRoot {} (configured @ fixedAttempts env rq usableLibs @ fallbackAttempts env rq usableLibs @ anyAttempts rq usableLibs), skipped))"

subsection \<open>The decision\<close>

definition placedByFor :: "PlaceEnv \<Rightarrow> string \<Rightarrow> string \<Rightarrow> PlacementStrategy \<Rightarrow> PlacementRequest \<Rightarrow> PlacedBy" where
  "placedByFor env targetLibrary targetPath strategy rq =
     (let folder = trimmedPath (stDefaultTargetPath (rqSettings rq)) in
      if strategy = BESIDE_EXISTING then ByExistingCopy
      else if isGiven (rqPreferredLibraryId rq) \<and> rqPreferredLibraryId rq = Some targetLibrary
        then (case rqPreferredBy rq of Some b \<Rightarrow> b | None \<Rightarrow> ByRequest)
      else if strategy = FIXED_PATH then ByFixedPath
      else if perCategory rq = Some targetLibrary then ByCategory
      else if isGiven (stDefaultTargetLibraryId (rqSettings rq)) \<and> stDefaultTargetLibraryId (rqSettings rq) = Some targetLibrary then ByDefaultLibrary
      else if folder \<noteq> [] \<and> isAbsolute folder \<and> isInside (resolvePath env targetPath) (resolvePath env folder) then ByFallbackPath
      else ByAnyWritable)"

definition attemptDirectory :: "PlacementRequest \<Rightarrow> PlacementAttempt \<Rightarrow> string" where
  "attemptDirectory rq a = dirName (landing (atRoot a) (rqRelativeName rq (atRoot a)))"

definition targetFor :: "PlaceEnv \<Rightarrow> PlacementRequest \<Rightarrow> string list \<Rightarrow> PlacementAttempt \<Rightarrow> string \<Rightarrow> string list \<Rightarrow> PlacementTarget" where
  "targetFor env rq skipped a p notes =
     \<lparr>tgLibraryId = plId (atLibrary a), tgLibraryName = plName (atLibrary a), tgRoot = atRoot a,
      tgDirectory = attemptDirectory rq a, tgPath = p, tgStrategy = atStrategy a,
      tgFallback =
        (case rqPinned rq of
           Some pin \<Rightarrow> pinFallback pin
         | None \<Rightarrow>
             if atStrategy a = FIXED_PATH \<and> isGiven (rqPinnedPath rq) then False
             else skipped \<noteq> [] \<or> atFallback a \<or> atStrategy a \<noteq> stPlacement (rqSettings rq)),
      tgNotes = notes,
      tgPlacedBy =
        (case rqPinned rq of
           Some pin \<Rightarrow> pinPlacedBy pin
         | None \<Rightarrow> placedByFor env (plId (atLibrary a)) p (atStrategy a) rq)\<rparr>"

fun resolveLoop :: "PlaceEnv \<Rightarrow> PlacementRequest \<Rightarrow> string list \<Rightarrow> string list \<Rightarrow> PlacementAttempt list \<Rightarrow> PlacementError + PlacementTarget" where
  "resolveLoop env rq skipped rejected [] =
     Inl (if list_ex (sublist ''space'') rejected then NoSpaceLeft rejected else PathNotWritable rejected)"
| "resolveLoop env rq skipped rejected (a # as) =
     (case probe env (attemptDirectory rq a) (rqRequiredBytes rq) of
        None \<Rightarrow>
          (case freePath env rq (atRoot a) (rqRelativeName rq (atRoot a)) of
             Inl wanted \<Rightarrow> Inl (TargetOccupied wanted)
           | Inr (p, note) \<Rightarrow> Inr (targetFor env rq skipped a p (rejected @ note)))
      | Some why \<Rightarrow> resolveLoop env rq skipped (rejected @ [plName (atLibrary a) @ '': '' @ why]) as)"

definition resolvePlacement :: "PlaceEnv \<Rightarrow> PlacementRequest \<Rightarrow> PlacementError + PlacementTarget" where
  "resolvePlacement env rq = (case candidates env rq of (attempts, skipped) \<Rightarrow> resolveLoop env rq skipped skipped attempts)"

subsection \<open>Inside the root, on a free path\<close>

lemma component_split: "list_all component cs \<Longrightarrow> cs \<noteq> [] \<Longrightarrow> pathComponents (joinWith ''/'' cs) = cs"
proof -
  assume cs: "list_all component cs" "cs \<noteq> []"
  then have "splitOn (CHR ''/'') (joinWith ''/'' cs) = cs" by (intro splitOn_joinWith) (auto simp: list_all_iff component_def)
  moreover have "filter (\<lambda>c. c \<noteq> []) cs = cs" using cs(1) by (auto simp: list_all_iff component_def filter_id_conv)
  ultimately show ?thesis by (simp add: pathComponents_def)
qed

lemma safeRelative_components:
  "pathComponents (safeRelative rel) \<noteq> [] \<and> ''..'' \<notin> set (pathComponents (safeRelative rel)) \<and> ''.'' \<notin> set (pathComponents (safeRelative rel))"
proof -
  define parts where "parts = filter (\<lambda>c. c \<noteq> ''.'' \<and> c \<noteq> ''..'')
    (pathComponents (map (\<lambda>c. if c = CHR 0x5C then CHR ''/'' else c) (normalizePath rel)))"
  have "list_all component parts" using pathComponents_component by (auto simp: parts_def list_all_iff)
  then have "parts \<noteq> [] \<Longrightarrow> pathComponents (joinWith ''/'' parts) = parts" by (rule component_split)
  moreover have "''..'' \<notin> set parts" "''.'' \<notin> set parts" by (auto simp: parts_def)
  moreover have "pathComponents ''untitled'' = [''untitled'']" by (simp add: pathComponents_def)
  ultimately show ?thesis by (simp add: safeRelative_def parts_def [symmetric])
qed

lemma resolve_plain:
  assumes "isAbsolute p" and "''..'' \<notin> set (pathComponents p)"
  shows "resolvePath env p = render (realComponents p)"
proof -
  have "''..'' \<notin> set (splitOn (CHR ''/'') p)" using assms(2) by (auto simp: pathComponents_def)
  then show ?thesis using assms(1) by (simp add: resolvePath_def resolveRequest_def normalComponents_plain realComponents_filter)
qed

lemma landing_components:
  assumes "isAbsolute base" and "''..'' \<notin> set (pathComponents base)"
  shows "realComponents (landing base rel) = realComponents base @ pathComponents (safeRelative rel)"
proof -
  have "filter (\<lambda>c. c \<noteq> ''.'') (pathComponents (safeRelative rel)) = pathComponents (safeRelative rel)"
    using safeRelative_components by (auto simp: filter_id_conv)
  then have "realComponents (safeRelative rel) = pathComponents (safeRelative rel)" by (simp add: realComponents_def)
  then show ?thesis using realComponents_join [OF assms, of "[safeRelative rel]"] safeRelative_components [of rel] by (simp add: landing_def)
qed

lemma join_absolute: "isAbsolute base \<Longrightarrow> isAbsolute (joinPaths (base # parts))"
proof -
  assume base: "isAbsolute base"
  have whole: "isAbsolute (joinWith ''/'' (base # filter (\<lambda>p. p \<noteq> []) parts))"
    using base by (cases base; cases "filter (\<lambda>p. p \<noteq> []) parts") (auto simp: isAbsolute_def joinWith_def)
  have norm: "isAbsolute p \<Longrightarrow> isAbsolute (normalizePath p)" for p
    by (cases p) (simp_all add: normalizePath_def isAbsolute_def Let_def)
  have "base \<noteq> []" using base by (auto simp: isAbsolute_def)
  then have "joinPaths (base # parts) = normalizePath (joinWith ''/'' (base # filter (\<lambda>p. p \<noteq> []) parts))" by (simp add: joinPaths_def)
  then show ?thesis using norm [OF whole] by simp
qed

lemma real_dots: "''..'' \<in> set (pathComponents p) \<longleftrightarrow> ''..'' \<in> set (realComponents p)"
  by (auto simp: realComponents_def)

lemma landing_resolved:
  assumes "isAbsolute base" and "''..'' \<notin> set (pathComponents base)"
  shows "resolvePath env (landing base rel) = render (realComponents base @ pathComponents (safeRelative rel))"
proof -
  have "isAbsolute (landing base rel)" unfolding landing_def by (rule join_absolute [OF assms(1)])
  moreover have "''..'' \<notin> set (pathComponents (landing base rel))"
    unfolding real_dots landing_components [OF assms] using assms(2) safeRelative_components [of rel] by (simp add: real_dots)
  ultimately show ?thesis by (simp add: resolve_plain landing_components [OF assms])
qed

lemma real_component: "list_all component (realComponents p)"
  using pathComponents_component [of p] by (auto simp: realComponents_def list_all_iff)

lemma landing_inside:
  assumes "isAbsolute base" and "''..'' \<notin> set (pathComponents base)"
  shows "holdsPath env (landing base rel) base \<and> resolvePath env (landing base rel) \<noteq> resolvePath env base"
proof -
  let ?r = "realComponents base" and ?p = "realComponents base @ pathComponents (safeRelative rel)"
  have comp: "list_all component ?r" "list_all component ?p"
    using real_component [of base] pathComponents_component [of "safeRelative rel"] by (simp_all add: list_all_append)
  have "isInside (render ?p) (render ?r)" unfolding isInside_components [OF comp(2,1)] by simp
  moreover have "render ?p \<noteq> render ?r"
    using pathComponents_render [OF comp(1)] pathComponents_render [OF comp(2)] safeRelative_components [of rel] by (metis append_self_conv)
  ultimately show ?thesis by (simp add: holdsPath_def landing_resolved [OF assms] resolve_plain [OF assms])
qed

lemma tryNames_Some:
  "tryNames env rq base wanted other ns = Some p \<Longrightarrow> \<not> occupied env rq p \<and> (\<exists>n \<in> set ns. p = landing base (other n))"
  by (induction ns) (auto simp: Let_def split: if_splits)

lemma freePath_free:
  "freePath env rq base rel = Inr (p, note) \<Longrightarrow> \<not> occupied env rq p \<and> (\<exists>r. p = landing base r)"
  by (auto simp: freePath_def Let_def split: if_splits option.splits dest: tryNames_Some)

text \<open>The loop takes the first attempt whose directory can be used, and keeps why the earlier ones could not.\<close>

definition usableAttempt :: "PlaceEnv \<Rightarrow> PlacementRequest \<Rightarrow> PlacementAttempt \<Rightarrow> bool" where
  "usableAttempt env rq a \<longleftrightarrow> probe env (attemptDirectory rq a) (rqRequiredBytes rq) = None"

definition rejection :: "PlaceEnv \<Rightarrow> PlacementRequest \<Rightarrow> PlacementAttempt \<Rightarrow> string" where
  "rejection env rq a = plName (atLibrary a) @ '': '' @ the (probe env (attemptDirectory rq a) (rqRequiredBytes rq))"

lemma resolveLoop_find:
  "resolveLoop env rq skipped rejected as =
     (case find (usableAttempt env rq) as of
        None \<Rightarrow> resolveLoop env rq skipped (rejected @ map (rejection env rq) as) []
      | Some a \<Rightarrow>
          (case freePath env rq (atRoot a) (rqRelativeName rq (atRoot a)) of
             Inl wanted \<Rightarrow> Inl (TargetOccupied wanted)
           | Inr (p, note) \<Rightarrow>
               Inr (targetFor env rq skipped a p
                 (rejected @ map (rejection env rq) (takeWhile (\<lambda>b. \<not> usableAttempt env rq b) as) @ note))))"
proof (induction as arbitrary: rejected)
  case (Cons a as)
  show ?case
  proof (cases "usableAttempt env rq a")
    case True
    then have "probe env (attemptDirectory rq a) (rqRequiredBytes rq) = None" by (simp add: usableAttempt_def)
    with True show ?thesis by (simp split: sum.split)
  next
    case False
    then have "resolveLoop env rq skipped rejected (a # as) = resolveLoop env rq skipped (rejected @ [rejection env rq a]) as"
      by (auto simp: usableAttempt_def rejection_def)
    with Cons.IH [of "rejected @ [rejection env rq a]"] False show ?thesis
      by (simp del: resolveLoop.simps split: option.split sum.split)
  qed
qed simp

lemma resolve_chosen:
  assumes "resolvePlacement env rq = Inr t"
  obtains a p n skipped rest where "find (usableAttempt env rq) (fst (candidates env rq)) = Some a"
    "t = targetFor env rq skipped a p rest" "freePath env rq (atRoot a) (rqRelativeName rq (atRoot a)) = Inr (p, n)"
  using assms unfolding resolvePlacement_def case_prod_unfold
  by (subst (asm) resolveLoop_find) (auto split: prod.splits option.splits sum.splits)

text \<open>
  (C5) A file is placed strictly below the root it is placed under, whatever names a service or a peer
  sent, in a directory that can be written and has room for it, on a path where nothing is and that
  no earlier file of the run was promised, unless it is the copy this pull replaces.
\<close>

theorem placed_inside_and_free:
  assumes "resolvePlacement env rq = Inr t" and "isAbsolute (tgRoot t)" and "''..'' \<notin> set (pathComponents (tgRoot t))"
  shows "isInside (resolvePath env (tgPath t)) (resolvePath env (tgRoot t))
    \<and> resolvePath env (tgPath t) \<noteq> resolvePath env (tgRoot t)
    \<and> probe env (tgDirectory t) (rqRequiredBytes rq) = None
    \<and> (if isGiven (rqReplacesPath rq) \<and> resolvePath env (tgPath t) = resolvePath env (the (rqReplacesPath rq)) then True
       else \<not> fileExists env (resolvePath env (tgPath t)) \<and> resolvePath env (tgPath t) \<notin> resolvePath env ` set (rqReserved rq))"
proof -
  obtain a p n skipped rest where found: "find (usableAttempt env rq) (fst (candidates env rq)) = Some a"
    and t: "t = targetFor env rq skipped a p rest" and free: "freePath env rq (atRoot a) (rqRelativeName rq (atRoot a)) = Inr (p, n)"
    by (rule resolve_chosen [OF assms(1)])
  have ok: "probe env (attemptDirectory rq a) (rqRequiredBytes rq) = None"
    using find_Some_in [OF found] by (simp add: usableAttempt_def)
  have sel: "tgPath t = p" "tgRoot t = atRoot a" "tgDirectory t = attemptDirectory rq a" by (simp_all add: t targetFor_def)
  obtain r where "p = landing (atRoot a) r" "\<not> occupied env rq p" using freePath_free [OF free] by blast
  then have "holdsPath env p (atRoot a)" "resolvePath env p \<noteq> resolvePath env (atRoot a)" and occ: "\<not> occupied env rq p"
    using landing_inside [OF assms(2,3)[unfolded sel]] by blast+
  moreover from occ have "if isGiven (rqReplacesPath rq) \<and> resolvePath env p = resolvePath env (the (rqReplacesPath rq)) then True
       else \<not> fileExists env (resolvePath env p) \<and> resolvePath env p \<notin> resolvePath env ` set (rqReserved rq)"
    unfolding occupied_def Let_def set_map by (simp split: if_splits)
  ultimately show ?thesis unfolding sel holdsPath_def using ok by blast
qed

subsection \<open>Which root\<close>

lemma firstPerRoot_distinct:
  "distinct (map (normalizePath \<circ> atRoot) (firstPerRoot known as)) \<and> set (map (normalizePath \<circ> atRoot) (firstPerRoot known as)) \<inter> known = {}"
proof (induction as arbitrary: known)
  case (Cons a as)
  show ?case using Cons.IH [of known] Cons.IH [of "insert (normalizePath (atRoot a)) known"] by (auto simp: Let_def)
qed simp

lemma firstPerRoot_hd: "firstPerRoot {} (a # as) = a # firstPerRoot {normalizePath (atRoot a)} as"
  by simp

text \<open>
  (C30) A placement takes the first candidate whose directory can be used, never two candidates with the
  same root, and refuses only when no candidate can be used or every name in the chosen one is taken.
  A file of a lot that already has a destination has that root as its only candidate.
\<close>

theorem placement_takes_first_usable:
  "case candidates env rq of (attempts, skipped) \<Rightarrow>
     (case rqPinned rq of
        Some pin \<Rightarrow> map atRoot attempts = [pinRoot pin]
      | None \<Rightarrow> distinct (map (normalizePath \<circ> atRoot) attempts))
     \<and> (case find (usableAttempt env rq) attempts of
          None \<Rightarrow> resolvePlacement env rq \<in> {Inl (NoSpaceLeft (skipped @ map (rejection env rq) attempts)),
                                              Inl (PathNotWritable (skipped @ map (rejection env rq) attempts))}
        | Some a \<Rightarrow>
            (case freePath env rq (atRoot a) (rqRelativeName rq (atRoot a)) of
               Inl wanted \<Rightarrow> resolvePlacement env rq = Inl (TargetOccupied wanted)
             | Inr (p, note) \<Rightarrow>
                 resolvePlacement env rq =
                   Inr (targetFor env rq skipped a p
                     (skipped @ map (rejection env rq) (takeWhile (\<lambda>b. \<not> usableAttempt env rq b) attempts) @ note))))"
proof -
  obtain attempts skipped where c: "candidates env rq = (attempts, skipped)" by (cases "candidates env rq")
  have "case rqPinned rq of Some pin \<Rightarrow> map atRoot attempts = [pinRoot pin] | None \<Rightarrow> distinct (map (normalizePath \<circ> atRoot) attempts)"
    using c firstPerRoot_distinct by (auto simp: candidates_def Let_def split: option.splits prod.splits)
  moreover have "resolvePlacement env rq = resolveLoop env rq skipped skipped attempts" by (simp add: resolvePlacement_def c)
  ultimately show ?thesis unfolding c using resolveLoop_find [of env rq skipped skipped attempts]
    by (simp split: option.split sum.split)
qed

lemma rootHolding_spec:
  assumes "rootHolding env libraries p = Some (l, r)"
  shows "l \<in> set libraries \<and> r \<in> set (rootsOf l) \<and> holdsPath env p r
    \<and> (\<forall>l' \<in> set libraries. \<forall>r' \<in> set (rootsOf l'). holdsPath env p r' \<longrightarrow> length r' \<le> length r)"
proof -
  let ?key = "\<lambda>(l, r). - int (length r)"
  define all where "all = filter (\<lambda>(l, r). holdsPath env p r) (concat (map (\<lambda>l. map (Pair l) (rootsOf l)) libraries))"
  obtain rest where s: "sort_key ?key all = (l, r) # rest"
    using assms by (auto simp: rootHolding_def all_def split: list.splits)
  then have "set all = set ((l, r) # rest)" by (metis set_sort)
  then have "(l, r) \<in> set all" by simp
  moreover have "sorted (map ?key ((l, r) # rest))" using s by (metis sorted_sort_key)
  then have "\<forall>x \<in> set all. ?key (l, r) \<le> ?key x" unfolding \<open>set all = _\<close> by auto
  ultimately show ?thesis by (auto simp: all_def)
qed

lemma pushConfigured_appends: "\<exists>more. fst (pushConfigured libraries choice label acc) = fst acc @ more"
  by (cases acc) (auto simp: pushConfigured_def Let_def split: option.splits)

lemma candidates_begin:
  assumes "rqPinned rq = None"
    and "namedAttempts env rq (usableLibraries (rqLibraries rq)) @ existingAttempts env rq (usableLibraries (rqLibraries rq)) = a # as"
  shows "\<exists>more. fst (candidates env rq) = a # more"
proof -
  let ?u = "usableLibraries (rqLibraries rq)"
  define inner where "inner = pushConfigured (rqLibraries rq) (perCategory rq) (''the library configured for \"'' @ orEmpty (rqCategoryKey rq) @ ''\"'')
    (a # as @ preferredAttempts rq ?u, [])"
  define conf where "conf = pushConfigured (rqLibraries rq) (stDefaultTargetLibraryId (rqSettings rq)) ''the default target library'' inner"
  obtain m n where "fst conf = fst inner @ m" "fst inner = (a # as @ preferredAttempts rq ?u) @ n"
    using pushConfigured_appends unfolding conf_def inner_def by (metis fst_conv)
  then obtain more where "fst conf = a # more" by simp
  moreover have "fst (candidates env rq) = firstPerRoot {} (fst conf @ fixedAttempts env rq ?u @ fallbackAttempts env rq ?u @ anyAttempts rq ?u)"
    using assms by (simp add: candidates_def Let_def case_prod_unfold conf_def inner_def append_assoc [symmetric] del: append_assoc)
  ultimately show ?thesis by simp
qed

text \<open>
  (C29) A show the household holds stays in one place: when its copy is below a root of a library that can
  be written, and neither the lot nor the person named a folder, the file goes below that root, the
  deepest one that holds the copy, whatever library is preferred or configured.
\<close>

theorem show_stays_together:
  assumes "rqPinned rq = None" and "\<not> isGiven (rqPinnedPath rq)" and "rqExistingPath rq = Some copy" and "copy \<noteq> []"
    and "rootHolding env (usableLibraries (rqLibraries rq)) copy = Some (l, r)"
    and "probe env (dirName (landing r (rqRelativeName rq r))) (rqRequiredBytes rq) = None"
    and "resolvePlacement env rq = Inr t"
  shows "tgRoot t = r \<and> tgPlacedBy t = ByExistingCopy \<and> holdsPath env copy r \<and> r \<in> set (rootsOf l)
    \<and> list_all (\<lambda>l'. list_all (\<lambda>r'. holdsPath env copy r' \<longrightarrow> length r' \<le> length r) (rootsOf l')) (usableLibraries (rqLibraries rq))"
proof -
  let ?a = "\<lparr>atLibrary = l, atRoot = r, atStrategy = BESIDE_EXISTING, atFallback = False\<rparr>"
  have "namedAttempts env rq u = []" for u
    using assms(2) by (auto simp: namedAttempts_def isGiven_def trimmedPath_def orEmpty_def js_trim_def dropTrailingSlashes_def split: option.splits)
  moreover have "existingAttempts env rq (usableLibraries (rqLibraries rq)) = [?a]"
    using assms(3-5) by (simp add: existingAttempts_def isGiven_def)
  ultimately have "\<exists>more. fst (candidates env rq) = ?a # more" using candidates_begin [OF assms(1)] by fastforce
  then obtain more where "fst (candidates env rq) = ?a # more" ..
  moreover have "usableAttempt env rq ?a" using assms(6) by (simp add: usableAttempt_def attemptDirectory_def)
  ultimately have first: "find (usableAttempt env rq) (fst (candidates env rq)) = Some ?a" by simp
  obtain a p n skipped rest where "find (usableAttempt env rq) (fst (candidates env rq)) = Some a" "t = targetFor env rq skipped a p rest"
    by (rule resolve_chosen [OF assms(7)])
  with first have "t = targetFor env rq skipped ?a p rest" by simp
  then have "tgRoot t = r" "tgPlacedBy t = ByExistingCopy"
    using assms(1) by (simp_all add: targetFor_def placedByFor_def Let_def)
  then show ?thesis using rootHolding_spec [OF assms(5)] by (simp add: list_all_iff)
qed

subsection \<open>A second name is found\<close>

lemma tryNames_None:
  "tryNames env rq base wanted other ns = None \<Longrightarrow> n \<in> set ns \<Longrightarrow> landing base (other n) = wanted \<or> occupied env rq (landing base (other n))"
  by (induction ns) (auto simp: Let_def split: if_splits)

lemma finite_safe: "finite {c. safeComponent c}"
proof -
  have "{c. safeComponent c} \<subseteq> {c. set c \<subseteq> UNIV \<and> length c \<le> Suc MAX_COMPONENT_LENGTH}" by (auto simp: safeComponent_def)
  then show ?thesis by (rule finite_subset) (rule finite_lists_length_le, simp)
qed

text \<open>
  (C28) A pull never fails for want of a name in a folder where fewer than fifty names are taken: with
  the names the naming service proposes one of the fifty attempts is free, as long as the proposed
  names are within the length a component may have.
\<close>

theorem second_name_is_found:
  assumes "rqDisambiguate rq = Some (\<lambda>r n. disambiguate r marks n)"
    and "card {c. safeComponent c \<and> occupied env rq (landing base (fst (nameOf rel) @ c))} < MAX_NAME_ATTEMPTS"
    and "list_all (\<lambda>n. length (secondName (snd (nameOf rel)) marks n) \<le> MAX_COMPONENT_LENGTH) [1..<Suc MAX_NAME_ATTEMPTS]"
  shows "\<exists>p notes. freePath env rq base rel = Inr (p, notes) \<and> \<not> occupied env rq p"
proof (cases "freePath env rq base rel")
  case (Inr q)
  then show ?thesis using freePath_free by (cases q) blast
next
  case (Inl w)
  let ?name = "\<lambda>n. sanitise (secondName (snd (nameOf rel)) marks n)" and ?ns = "{1..<Suc MAX_NAME_ATTEMPTS}"
  let ?taken = "{c. safeComponent c \<and> occupied env rq (landing base (fst (nameOf rel) @ c))}"
  have second: "disambiguate rel marks n = fst (nameOf rel) @ ?name n" for n by (simp add: disambiguate_def case_prod_unfold Let_def)
  have wanted: "occupied env rq (landing base rel)"
    and none: "tryNames env rq base (landing base rel) (\<lambda>n. disambiguate rel marks n) [1..<Suc MAX_NAME_ATTEMPTS] = None"
    using Inl assms(1) by (auto simp: freePath_def Let_def split: if_splits option.splits)
  have "occupied env rq (landing base (disambiguate rel marks n))" if "n \<in> ?ns" for n
  proof -
    have "n \<in> set [1..<Suc MAX_NAME_ATTEMPTS]" using that by (simp only: set_upt)
    from tryNames_None [OF none this] show ?thesis using wanted by metis
  qed
  then have "?name ` ?ns \<subseteq> ?taken" using sanitise_safe second by auto
  moreover have "inj_on ?name ?ns" using second_distinct assms(3) unfolding inj_on_def list_all_iff set_upt by metis
  ultimately have "card ?ns \<le> card ?taken"
  proof -
    have "finite ?taken" by (rule finite_subset [OF _ finite_safe]) blast
    with \<open>?name ` ?ns \<subseteq> ?taken\<close> have "card (?name ` ?ns) \<le> card ?taken" by (intro card_mono)
    then show ?thesis using \<open>inj_on ?name ?ns\<close> by (simp add: card_image)
  qed
  then show ?thesis using assms(2) by simp
qed

subsection \<open>A library with one film\<close>

definition filmShelf :: PlacementLibrary where
  "filmShelf =
     \<lparr>plId = ''f'', plName = ''Films'', plKind = MOVIES, plLocalPath = Some ''/tv'', plLocalRoots = [''/tv''], plWritable = True,
      plDefault = True, plCategory = None\<rparr>"

definition oneFilm :: PlaceEnv where
  "oneFilm = \<lparr>fileExists = (\<lambda>p. p = ''/tv'' \<or> p = ''/tv/a.mkv''), mayWrite = (\<lambda>p. True), statfsOf = (\<lambda>p. None), workDir = []\<rparr>"

definition filmRequest :: "string option \<Rightarrow> PlacementRequest" where
  "filmRequest copy =
     \<lparr>rqKind = MOVIE, rqCategoryKey = None,
      rqSettings = \<lparr>stPlacement = DEFAULT_LIBRARY, stFixedPath = None, stCategoryTargets = Map.empty, stDefaultTargetLibraryId = None, stDefaultTargetPath = None\<rparr>,
      rqLibraries = [filmShelf], rqRelativeName = (\<lambda>r. ''../a.mkv''), rqExistingPath = copy, rqPinnedPath = None, rqPreferredLibraryId = None,
      rqPreferredBy = None, rqRequiredBytes = 0, rqReplacesPath = None,
      rqDisambiguate = Some (\<lambda>r n. disambiguate r \<lparr>markEdition = None, markQuality = None\<rparr> n), rqReserved = [], rqPinned = None\<rparr>"

definition filmTarget :: "PlacementStrategy \<Rightarrow> PlacedBy \<Rightarrow> PlacementTarget" where
  "filmTarget strategy by =
     \<lparr>tgLibraryId = ''f'', tgLibraryName = ''Films'', tgRoot = ''/tv'', tgDirectory = ''/tv'', tgPath = ''/tv/a - 2.mkv'',
      tgStrategy = strategy, tgFallback = (strategy \<noteq> DEFAULT_LIBRARY), tgNotes = [''a.mkv is taken, landing as a - 2.mkv''], tgPlacedBy = by\<rparr>"

lemma film_placed:
  "resolvePlacement oneFilm (filmRequest None) = Inr (filmTarget DEFAULT_LIBRARY ByAnyWritable)"
  "resolvePlacement oneFilm (filmRequest (Some ''/tv/a.mkv'')) = Inr (filmTarget BESIDE_EXISTING ByExistingCopy)"
  by code_simp+

lemma shelf_plain: "isAbsolute ''/tv''" "''..'' \<notin> set (pathComponents ''/tv'')"
  by (simp_all add: isAbsolute_def pathComponents_def)

theorem placed_inside_and_free_witness:
  "isInside (resolvePath oneFilm ''/tv/a - 2.mkv'') (resolvePath oneFilm ''/tv'') \<and> \<not> fileExists oneFilm (resolvePath oneFilm ''/tv/a - 2.mkv'')"
  using placed_inside_and_free [OF film_placed(1)] shelf_plain by (simp add: filmTarget_def filmRequest_def isGiven_def)

theorem show_stays_together_witness:
  "tgRoot (filmTarget BESIDE_EXISTING ByExistingCopy) = ''/tv'' \<and> holdsPath oneFilm ''/tv/a.mkv'' ''/tv''"
proof -
  let ?rq = "filmRequest (Some ''/tv/a.mkv'')"
  have "rqPinned ?rq = None" "\<not> isGiven (rqPinnedPath ?rq)" "rqExistingPath ?rq = Some ''/tv/a.mkv''" "''/tv/a.mkv'' \<noteq> []"
    by (simp_all add: filmRequest_def isGiven_def)
  moreover have "rootHolding oneFilm (usableLibraries (rqLibraries ?rq)) ''/tv/a.mkv'' = Some (filmShelf, ''/tv'')" by code_simp
  moreover have "probe oneFilm (dirName (landing ''/tv'' (rqRelativeName ?rq ''/tv''))) (rqRequiredBytes ?rq) = None" by code_simp
  ultimately show ?thesis using show_stays_together [OF _ _ _ _ _ _ film_placed(2)] by blast
qed

lemma safeRelative_safe: "safeComponent c \<Longrightarrow> CHR 0x5C \<notin> set c \<and> safeRelative c = c"
proof -
  assume c: "safeComponent c"
  have slash: "CHR ''/'' \<notin> set c" and ne: "c \<noteq> []" "c \<noteq> ''..''" "c \<noteq> ''.''" using safe_plain [OF c] by auto
  have plain: "CHR 0x5C \<notin> set c" using c by (auto simp: safeComponent_def list_all_iff illegal_def)
  then have same: "map (\<lambda>c. if c = CHR 0x5C then CHR ''/'' else c) c = c" by (induction c) auto
  have parts: "splitOn (CHR ''/'') c = [c]" by (rule splitOn_fresh [OF slash])
  have "last c \<noteq> CHR ''/''" using slash ne(1) by (metis last_in_set)
  moreover have "\<not> isAbsolute c" using slash by (cases c) (auto simp: isAbsolute_def)
  ultimately have "normalizePath c = c" using ne by (simp add: normalizePath_def Let_def parts normalComponents_def dotStep_def joinWith_def)
  then show ?thesis using ne plain by (simp add: safeRelative_def same pathComponents_def parts joinWith_def)
qed

lemma film_taken:
  assumes "safeComponent c" and "occupied oneFilm (filmRequest None) (landing ''/tv'' c)"
  shows "c = ''a.mkv''"
proof -
  have "CHR ''/'' \<notin> set c" "c \<noteq> []" using safe_plain [OF assms(1)] by auto
  then have pc: "pathComponents c = [c]" by (simp add: pathComponents_def splitOn_fresh)
  have "resolvePath oneFilm (landing ''/tv'' c) = render [''tv'', c]"
    using landing_resolved [OF shelf_plain, of oneFilm c] safeRelative_safe [OF assms(1)] pc by (simp add: realComponents_def pathComponents_def)
  then have "render [''tv'', c] \<in> {''/tv'', ''/tv/a.mkv''}"
    using assms(2) by (auto simp: occupied_def Let_def filmRequest_def isGiven_def oneFilm_def)
  then have "pathComponents (render [''tv'', c]) \<in> {[''tv''], [''tv'', ''a.mkv'']}" by (auto simp: pathComponents_def)
  moreover have "pathComponents (render [''tv'', c]) = [''tv'', c]"
    by (rule pathComponents_render) (use \<open>CHR ''/'' \<notin> set c\<close> \<open>c \<noteq> []\<close> in \<open>simp add: component_def\<close>)
  ultimately show ?thesis by auto
qed

theorem second_name_is_found_witness:
  "\<exists>p notes. freePath oneFilm (filmRequest None) ''/tv'' ''a.mkv'' = Inr (p, notes) \<and> \<not> occupied oneFilm (filmRequest None) p"
proof (rule second_name_is_found)
  show "rqDisambiguate (filmRequest None) = Some (\<lambda>r n. disambiguate r \<lparr>markEdition = None, markQuality = None\<rparr> n)"
    by (simp add: filmRequest_def)
  have name: "nameOf ''a.mkv'' = ([], ''a.mkv'')" by code_simp
  have "{c. safeComponent c \<and> occupied oneFilm (filmRequest None) (landing ''/tv'' c)} \<subseteq> {''a.mkv''}" using film_taken by blast
  from card_mono [OF _ this]
  show "card {c. safeComponent c \<and> occupied oneFilm (filmRequest None) (landing ''/tv'' (fst (nameOf ''a.mkv'') @ c))} < MAX_NAME_ATTEMPTS"
    by (simp add: name MAX_NAME_ATTEMPTS_def)
  show "list_all (\<lambda>n. length (secondName (snd (nameOf ''a.mkv'')) \<lparr>markEdition = None, markQuality = None\<rparr> n) \<le> MAX_COMPONENT_LENGTH)
      [1..<Suc MAX_NAME_ATTEMPTS]"
    by code_simp
qed

subsection \<open>What placement gets wrong\<close>

text \<open>
  Whether the disks are full is read off the text of the refusals, so a library called "Workspace"
  that may not be written is reported as a lack of space. A category that is sent to one of the roots
  of a library, and lands there, is not credited: the rule is compared with the library only.
\<close>

lemma library_name_reads_as_no_space:
  "sublist ''space'' (plName (atLibrary a)) \<Longrightarrow> probe env (attemptDirectory rq a) (rqRequiredBytes rq) = Some why \<Longrightarrow>
   resolveLoop env rq [] [] [a] = Inl (NoSpaceLeft [plName (atLibrary a) @ '': '' @ why])"
  by (simp add: sublist_append)

lemma configured_root_is_not_credited:
  assumes "perCategory rq = Some r" and "isAbsolute r" and "find (\<lambda>l. r \<in> set (plLocalRoots l)) libraries = Some l"
    and "plWritable l" and "plId l \<noteq> r" and "r \<noteq> []"
  shows "pushConfigured libraries (perCategory rq) label ([], []) = ([\<lparr>atLibrary = l, atRoot = r, atStrategy = DEFAULT_LIBRARY, atFallback = False\<rparr>], [])"
    and "rqPreferredBy rq = None \<Longrightarrow> placedByFor env (plId l) p DEFAULT_LIBRARY rq \<noteq> ByCategory"
  using assms by (auto simp: pushConfigured_def placedByFor_def isGiven_def Let_def)

end
