(* ===== verification/Js_Sort.thy ===== *)
theory Js_Sort
  imports Mcs_Prelude "HOL-Library.Multiset"
begin

text \<open>
  \<open>Array.prototype.sort\<close> with a comparator. The language promises a stable sort for a comparator
  that is consistent, and nothing otherwise; so the model sorts by insertion, and the locale below
  shows that for a consistent comparator the promise has exactly one answer, which is that one.
  Every comparator of the modelled code is shown consistent by an interpretation.
\<close>

subsection \<open>The sort\<close>

type_synonym 'a comparing = "'a \<Rightarrow> 'a \<Rightarrow> int"

fun insertBy :: "'a comparing \<Rightarrow> 'a \<Rightarrow> 'a list \<Rightarrow> 'a list" where
  "insertBy cmp x [] = [x]"
| "insertBy cmp x (y # ys) = (if cmp x y \<le> 0 then x # y # ys else y # insertBy cmp x ys)"

definition sortBy :: "'a comparing \<Rightarrow> 'a list \<Rightarrow> 'a list" where
  "sortBy cmp xs = foldr (insertBy cmp) xs []"

text \<open>\<open>a || b\<close> between two comparisons, and \<open>Number(b)\<close>.\<close>

definition thenBy :: "int \<Rightarrow> int \<Rightarrow> int" where
  "thenBy a b = (if a \<noteq> 0 then a else b)"

definition ofBool :: "bool \<Rightarrow> int" where
  "ofBool b = (if b then 1 else 0)"

text \<open>The sign of a difference of two numbers that need not be whole.\<close>

definition numDiff :: "rat \<Rightarrow> rat \<Rightarrow> int" where
  "numDiff a b = (if a < b then - 1 else if b < a then 1 else 0)"

subsection \<open>What holds of any comparator\<close>

lemma sortBy_simps [simp]: "sortBy cmp [] = []" "sortBy cmp (x # xs) = insertBy cmp x (sortBy cmp xs)"
  by (simp_all add: sortBy_def)

lemma mset_insertBy [simp]: "mset (insertBy cmp x ys) = add_mset x (mset ys)"
  by (induction ys) auto

lemma mset_sortBy [simp]: "mset (sortBy cmp xs) = mset xs"
  by (induction xs) auto

lemma set_sortBy [simp]: "set (sortBy cmp xs) = set xs"
  by (metis mset_sortBy set_mset_mset)

lemma length_sortBy [simp]: "length (sortBy cmp xs) = length xs"
  by (metis mset_sortBy size_mset)

lemma sortBy_Nil_iff [simp]: "sortBy cmp xs = [] \<longleftrightarrow> xs = []"
  by (metis length_0_conv length_sortBy)

lemma distinct_sortBy [simp]: "distinct (sortBy cmp xs) = distinct xs"
  by (metis mset_eq_imp_distinct_iff mset_sortBy)

subsection \<open>Consistent comparators\<close>

definition orderedBy :: "'a comparing \<Rightarrow> 'a list \<Rightarrow> bool" where
  "orderedBy cmp xs \<longleftrightarrow> sorted_wrt (\<lambda>x y. cmp x y \<le> 0) xs"

definition tiedBy :: "'a comparing \<Rightarrow> 'a \<Rightarrow> 'a \<Rightarrow> bool" where
  "tiedBy cmp x y \<longleftrightarrow> cmp x y = 0"

locale consistent_order =
  fixes cmp :: "'a comparing"
  assumes swapped: "cmp y x \<le> 0 \<longleftrightarrow> 0 \<le> cmp x y"
    and chained: "cmp x y \<le> 0 \<Longrightarrow> cmp y z \<le> 0 \<Longrightarrow> cmp x z \<le> 0"
begin

lemma either: "cmp x y \<le> 0 \<or> cmp y x \<le> 0"
  using swapped [of y x] by linarith

lemma tied_iff: "tiedBy cmp x y \<longleftrightarrow> cmp x y \<le> 0 \<and> cmp y x \<le> 0"
  using swapped [of y x] by (auto simp: tiedBy_def)

lemma strict: "cmp x y < 0 \<Longrightarrow> cmp y z \<le> 0 \<Longrightarrow> cmp x z < 0"
  by (meson chained linorder_not_less swapped order_less_imp_le)

lemma strict2: "cmp x y \<le> 0 \<Longrightarrow> cmp y z < 0 \<Longrightarrow> cmp x z < 0"
  by (meson chained linorder_not_less swapped order_less_imp_le)

lemma ordered_insertBy: "orderedBy cmp ys \<Longrightarrow> orderedBy cmp (insertBy cmp x ys)"
proof (induction ys)
  case (Cons y ys)
  then have IH: "orderedBy cmp (insertBy cmp x ys)" and y: "\<forall>z \<in> set ys. cmp y z \<le> 0"
    by (simp_all add: orderedBy_def)
  have "set (insertBy cmp x ys) = insert x (set ys)"
    by (metis mset_insertBy set_mset_add_mset_insert set_mset_mset)
  then show ?case using IH y Cons.prems either [of x y] chained by (auto simp: orderedBy_def)
qed (simp add: orderedBy_def)

lemma ordered_sortBy: "orderedBy cmp (sortBy cmp xs)"
  by (induction xs) (simp add: orderedBy_def, simp add: ordered_insertBy)

lemma filter_insertBy:
  assumes "orderedBy cmp ys"
  shows "filter (tiedBy cmp a) (insertBy cmp x ys) = (if tiedBy cmp a x then x # filter (tiedBy cmp a) ys else filter (tiedBy cmp a) ys)"
  using assms
proof (induction ys)
  case (Cons y ys)
  then have IH: "filter (tiedBy cmp a) (insertBy cmp x ys) = (if tiedBy cmp a x then x # filter (tiedBy cmp a) ys else filter (tiedBy cmp a) ys)"
    by (simp add: orderedBy_def)
  have "\<not> tiedBy cmp a y" if "\<not> cmp x y \<le> 0" "tiedBy cmp a x"
    using that chained [of x a y] by (auto simp: tied_iff)
  then show ?case using IH by auto
qed simp

lemma stable: "filter (tiedBy cmp a) (sortBy cmp xs) = filter (tiedBy cmp a) xs"
  by (induction xs) (simp_all add: filter_insertBy ordered_sortBy)

lemma smallest_first: "orderedBy cmp (x # xs) \<Longrightarrow> y \<in> set xs \<Longrightarrow> cmp x y \<le> 0"
  by (simp add: orderedBy_def)

text \<open>The promise has one answer.\<close>

lemma stable_sort_unique:
  assumes "orderedBy cmp xs" "orderedBy cmp ys" "\<And>a. filter (tiedBy cmp a) xs = filter (tiedBy cmp a) ys"
  shows "xs = ys"
  using assms
proof (induction xs arbitrary: ys)
  case Nil
  have "tiedBy cmp y y" for y using either [of y y] by (simp add: tied_iff)
  then show ?case using Nil.prems(3) [of "hd ys"] by (cases ys) auto
next
  case (Cons x xs)
  have self: "tiedBy cmp z z" for z using either [of z z] by (simp add: tied_iff)
  have there: "z \<in> set (x # xs) \<longleftrightarrow> z \<in> set ys" for z
    using arg_cong [OF Cons.prems(3) [of z], of set] self [of z] by (auto simp: set_eq_iff simp del: filter.simps)
  then obtain y zs where ys: "ys = y # zs" by (cases ys) auto
  have "cmp x y \<le> 0" using there [of y] ys Cons.prems(1) self by (auto simp: orderedBy_def tied_iff)
  moreover have "cmp y x \<le> 0" using there [of x] ys Cons.prems(2) self by (auto simp: orderedBy_def tied_iff)
  ultimately have xy: "tiedBy cmp x y" by (simp add: tied_iff)
  have "x = y" using Cons.prems(3) [of x] xy self ys by simp
  moreover have "filter (tiedBy cmp a) xs = filter (tiedBy cmp a) zs" for a
    using Cons.prems(3) [of a] ys \<open>x = y\<close> by (simp split: if_splits)
  ultimately show ?case using Cons.IH [of zs] Cons.prems ys by (simp add: orderedBy_def)
qed

lemma sortBy_unique:
  assumes "orderedBy cmp ys" "\<And>a. filter (tiedBy cmp a) ys = filter (tiedBy cmp a) xs"
  shows "ys = sortBy cmp xs"
  using stable_sort_unique [OF assms(1) ordered_sortBy] assms(2) stable by simp

lemma sortBy_ordered: "orderedBy cmp xs \<Longrightarrow> sortBy cmp xs = xs"
  using sortBy_unique [of xs xs] by simp

lemma filter_sortBy: "filter P (sortBy cmp xs) = sortBy cmp (filter P xs)"
proof (rule sortBy_unique)
  show "orderedBy cmp (filter P (sortBy cmp xs))"
    using ordered_sortBy by (simp add: orderedBy_def sorted_wrt_filter)
  have swap: "filter (tiedBy cmp a) (filter P ys) = filter P (filter (tiedBy cmp a) ys)" for a ys
    by (simp add: conj_commute)
  show "filter (tiedBy cmp a) (filter P (sortBy cmp xs)) = filter (tiedBy cmp a) (filter P xs)" for a
    unfolding swap stable ..
qed

lemma hd_sortBy_least: "xs \<noteq> [] \<Longrightarrow> y \<in> set xs \<Longrightarrow> cmp (hd (sortBy cmp xs)) y \<le> 0"
proof -
  assume "xs \<noteq> []" "y \<in> set xs"
  then obtain z zs where "sortBy cmp xs = z # zs" by (cases "sortBy cmp xs") auto
  moreover have "cmp z z \<le> 0" using either [of z z] by simp
  ultimately show ?thesis using ordered_sortBy [of xs] \<open>y \<in> set xs\<close> set_sortBy [of cmp xs] by (auto simp: orderedBy_def)
qed

lemma nth_sortBy_le: "i \<le> j \<Longrightarrow> j < length xs \<Longrightarrow> cmp (sortBy cmp xs ! i) (sortBy cmp xs ! j) \<le> 0"
  using ordered_sortBy [of xs] either
  by (cases "i = j") (force simp: orderedBy_def sorted_wrt_iff_nth_less)+

end

subsection \<open>Building consistent comparators\<close>

lemma consistent_diff: "consistent_order (\<lambda>x y. f x - f y)"
  by unfold_locales auto

lemma consistent_diff_rev: "consistent_order (\<lambda>x y. f y - f x)"
  by unfold_locales auto

lemma consistent_numDiff: "consistent_order (\<lambda>x y. numDiff (f x) (f y))"
  by unfold_locales (auto simp: numDiff_def split: if_splits)

lemma consistent_numDiff_rev: "consistent_order (\<lambda>x y. numDiff (f y) (f x))"
  by unfold_locales (auto simp: numDiff_def split: if_splits)

lemma consistent_zero: "consistent_order (\<lambda>x y. 0)"
  by unfold_locales auto

lemma consistent_thenBy:
  assumes "consistent_order f" "consistent_order g"
  shows "consistent_order (\<lambda>x y. thenBy (f x y) (g x y))"
proof -
  note f = consistent_order.swapped [OF assms(1)] consistent_order.chained [OF assms(1)]
  note g = consistent_order.swapped [OF assms(2)] consistent_order.chained [OF assms(2)]
  have zero: "f y x = 0 \<longleftrightarrow> f x y = 0" for x y using f(1) [of x y] f(1) [of y x] by linarith
  show ?thesis
  proof
    show "thenBy (f y x) (g y x) \<le> 0 \<longleftrightarrow> 0 \<le> thenBy (f x y) (g x y)" for x y
      using f(1) [of y x] g(1) [of y x] zero [of x y] by (auto simp: thenBy_def)
    show "thenBy (f x z) (g x z) \<le> 0"
      if "thenBy (f x y) (g x y) \<le> 0" "thenBy (f y z) (g y z) \<le> 0" for x y z
    proof -
      have le: "f x y \<le> 0" "f y z \<le> 0" using that by (auto simp: thenBy_def split: if_splits)
      then have xz: "f x z \<le> 0" by (rule f(2))
      show ?thesis
      proof (cases "f x z = 0")
        case True
        then have "f z x \<le> 0" using zero [of z x] by simp
        then have "f y x \<le> 0" "f z y \<le> 0" using f(2) [of y z x] f(2) [of z x y] le by blast+
        then have "f x y = 0" "f y z = 0" using le f(1) [of y x] f(1) [of z y] by linarith+
        then show ?thesis using that True g(2) [of x y z] by (simp add: thenBy_def)
      next
        case False
        then show ?thesis using xz by (simp add: thenBy_def)
      qed
    qed
  qed
qed

lemmas consistent_comparators =
  consistent_thenBy consistent_diff consistent_diff_rev consistent_numDiff consistent_numDiff_rev consistent_zero

end
