(* ===== verification/Release_Names.thy ===== *)
theory Release_Names
  imports Naming
begin

text \<open>
  What is read off the name of a release: the coordinate, quality, source and languages
  (\<open>services/releases/release-name.ts\<close>), the release group and codec
  (\<open>release-preferences.ts\<close>), whether a name is about a media (\<open>release-match.ts\<close>), and the words of a
  search (\<open>search-terms.ts\<close>). Names are strings of characters below 256, as in the title component.
\<close>

subsection \<open>Classes and tables\<close>

definition oneLetter :: "string \<Rightarrow> char \<Rightarrow> bool" where "oneLetter cs d \<longleftrightarrow> lowerChar d \<in> set cs"
definition teamChar :: "char \<Rightarrow> bool" where "teamChar d \<longleftrightarrow> anyAlnum d \<or> d \<in> {CHR ''&'', CHR 0x27, CHR ''!'', CHR ''+''}"

definition separator :: rx where "separator = Cls (blankOr ''._-'')"
definition separators :: rx where "separators = Star separator"

text \<open>A whole word, under the flag \<open>i\<close>.\<close>

definition wholeWord :: "rx list \<Rightarrow> rx" where
  "wholeWord rs = cats [Bound, ors rs, Bound]"

fun firstMatch :: "string \<Rightarrow> (rx \<times> string) list \<Rightarrow> string option" where
  "firstMatch value [] = None"
| "firstMatch value ((pattern, label) # table) = (if test pattern value then Some label else firstMatch value table)"

subsection \<open>Reading a release name\<close>

datatype ReleaseKind = MOVIE_RELEASE | EPISODE_RELEASE | SEASON_PACK | UNKNOWN_RELEASE

record ReleaseCoverage =
  covSeason :: "nat option"
  covEpisodes :: "nat list"
  wholeSeason :: bool
  wholeSeries :: bool

record ParsedRelease =
  prKind :: ReleaseKind
  prSeason :: "nat option"
  prEpisode :: "nat option"
  prQuality :: "string option"
  prSource :: "string option"
  prLanguages :: "string list"
  prCoverage :: ReleaseCoverage

definition EPISODE_NAMED :: rx where
  "EPISODE_NAMED = cats [Bound, liti ''s'', Group 1 (digits 1 2), separators, liti ''e'', Group 2 (digits 1 3), NotAhead digit]"

definition EPISODE_X :: rx where
  "EPISODE_X = cats [Bound, Group 1 (digits 1 2), liti ''x'', Group 2 (digits 1 3), Bound]"

definition EPISODE_TAIL :: rx where
  "EPISODE_TAIL = cats [separators, Or (cats [lit ''-'', spaces, opt (liti ''e'')]) (liti ''e''), Group 1 (digits 1 3)]"

definition EPISODE_RANGE :: rx where
  "EPISODE_RANGE = cats [Bound, liti ''s'', digits 1 2, separators, liti ''e'', digits 1 3, EPISODE_TAIL, Star EPISODE_TAIL]"

definition WHOLE_SERIES :: rx where
  "WHOLE_SERIES = wholeWord
     [cats [liti ''complete'', separators, ors [liti ''series'', liti ''serie'', liti ''collection'']],
      cats [liti ''int'', Cls (oneLetter [CHR 0xE9, CHR ''e'']), liti ''gral'', opt (liti ''e'')],
      cats [liti ''season'', opt (liti ''s''), separators, digits 1 2, separators, lit ''-'', separators, digits 1 2]]"

definition SEASON_NAMED :: rx where
  "SEASON_NAMED = cats [Bound, liti ''s'', opt (liti ''eason''), separators, Group 1 (digits 1 2), Bound]"

definition QUALITY_TABLE :: "(rx \<times> string) list" where
  "QUALITY_TABLE =
     [(wholeWord [liti ''2160p'', liti ''4k'', liti ''uhd''], ''2160p''),
      (wholeWord [liti ''1080p''], ''1080p''),
      (wholeWord [liti ''720p''], ''720p''),
      (wholeWord [liti ''576p''], ''576p''),
      (wholeWord [liti ''480p''], ''480p'')]"

definition SOURCE_TABLE :: "(rx \<times> string) list" where
  "SOURCE_TABLE =
     [(wholeWord [cats [liti ''blu'', opt separator, liti ''ray''], liti ''bdrip'', liti ''brrip'', liti ''bdremux'', liti ''remux''], ''BluRay''),
      (wholeWord [cats [liti ''web'', opt separator, liti ''dl''], liti ''webdl''], ''WEB-DL''),
      (wholeWord [cats [liti ''web'', opt separator, liti ''rip''], liti ''webrip''], ''WEBRip''),
      (wholeWord [liti ''hdtv''], ''HDTV''),
      (wholeWord [liti ''dvdrip'', liti ''dvd''], ''DVD'')]"

definition LANGUAGE_TABLE :: "(rx \<times> string) list" where
  "LANGUAGE_TABLE =
     [(wholeWord [liti ''multi''], ''MULTI''),
      (wholeWord [liti ''vostfr''], ''VOSTFR''),
      (wholeWord [cats [liti ''vf'', opt (liti ''f'')]], ''VF''),
      (wholeWord [liti ''french'', liti ''truefrench''], ''FRENCH''),
      (wholeWord [liti ''vo'', liti ''english'', liti ''eng''], ''VO''),
      (wholeWord [cats [liti ''jap'', opt (liti ''anese'')]], ''JP'')]"

definition numberOf :: "string option \<Rightarrow> nat option" where
  "numberOf value = map_option parseDigits value"

text \<open>\<open>matchAll\<close>: every match, each search going on where the last one ended.\<close>

function matchAll :: "rx \<Rightarrow> string \<Rightarrow> string \<Rightarrow> (nat \<rightharpoonup> string) list" where
  "matchAll r sn s =
     (case execFrom r sn s of
        None \<Rightarrow> []
      | Some f \<Rightarrow>
          captured f #
            (if length (after f) < length s then matchAll r (rev (before f @ matched f)) (after f) else []))"
  by pat_completeness auto
termination by (relation "measure (\<lambda>(r, sn, s). length s)") auto

declare matchAll.simps [simp del]

definition runOf :: "string \<Rightarrow> nat \<Rightarrow> nat list" where
  "runOf name start =
     (case exec EPISODE_RANGE name of
        None \<Rightarrow> [start]
      | Some run \<Rightarrow>
          (let ends = List.map_filter (\<lambda>g. numberOf (g 1)) (matchAll EPISODE_TAIL [] (matched run)) in
           if ends = [] \<or> List.last ends \<le> start then [start]
           else if 200 < List.last ends - start then [start]
           else [start ..< Suc (List.last ends)]))"

definition languagesOf :: "string \<Rightarrow> string list" where
  "languagesOf name =
     foldl (\<lambda>found (pattern, label). if test pattern name \<and> label \<notin> set found then found @ [label] else found) [] LANGUAGE_TABLE"

definition orIfNone :: "'a option \<Rightarrow> 'a option \<Rightarrow> 'a option" where
  "orIfNone a b = (case a of None \<Rightarrow> b | Some x \<Rightarrow> Some x)"

definition parseReleaseName :: "string \<Rightarrow> bool \<Rightarrow> ParsedRelease" where
  "parseReleaseName name hasSeason =
     (let episode = orIfNone (exec EPISODE_NAMED name) (exec EPISODE_X name);
          seasonNumber = Option.bind episode (\<lambda>e. numberOf (captured e 1));
          episodeNumber = Option.bind episode (\<lambda>e. numberOf (captured e 2));
          pack = (if episode = None \<and> hasSeason then exec SEASON_NAMED name else None);
          packSeason = Option.bind pack (\<lambda>p. numberOf (captured p 1));
          episodeNumbers = (case episodeNumber of None \<Rightarrow> [] | Some n \<Rightarrow> runOf name n)
      in \<lparr>prKind =
            (if episodeNumber \<noteq> None then EPISODE_RELEASE
             else if packSeason \<noteq> None then SEASON_PACK
             else if hasSeason then UNKNOWN_RELEASE else MOVIE_RELEASE),
          prSeason = orIfNone seasonNumber packSeason,
          prEpisode = episodeNumber,
          prQuality = firstMatch name QUALITY_TABLE,
          prSource = firstMatch name SOURCE_TABLE,
          prLanguages = languagesOf name,
          prCoverage =
            \<lparr>covSeason = orIfNone seasonNumber packSeason,
             covEpisodes = episodeNumbers,
             wholeSeason = (episodeNumbers = [] \<and> packSeason \<noteq> None),
             wholeSeries = (hasSeason \<and> test WHOLE_SERIES name)\<rparr>\<rparr>)"

subsection \<open>Release group and codec\<close>

definition CODECS :: "(rx \<times> string) list" where
  "CODECS =
     [(wholeWord [liti ''av1''], ''AV1''),
      (wholeWord [cats [Cls (oneLetter ''xh''), opt separator, lit ''265''], liti ''hevc''], ''x265''),
      (wholeWord [cats [Cls (oneLetter ''xh''), opt separator, lit ''264''], liti ''avc''], ''x264''),
      (wholeWord [liti ''xvid'', liti ''divx''], ''XviD'')]"

definition releaseCodecOf :: "string \<Rightarrow> string option" where
  "releaseCodecOf name = firstMatch name CODECS"

definition RELEASE_EXTENSION :: rx where
  "RELEASE_EXTENSION = cats [lit ''.'', ors [liti ''mkv'', liti ''mp4'', liti ''avi'', liti ''ts'', liti ''m2ts'', liti ''iso''], Finish]"

definition TRAILING_TAG :: rx where
  "TRAILING_TAG = cats [Cls (oneOf ''[({''), Star (Cls (noneOf ''[({])}'')), Cls (oneOf ''])}''), spaces, Finish]"

definition NOT_A_TEAM :: "string list" where
  "NOT_A_TEAM =
     [''dl'', ''rip'', ''web'', ''bd'', ''bdrip'', ''brrip'', ''dvd'', ''dvdrip'', ''hdtv'', ''tv'', ''hd'',
      ''sd'', ''uhd'', ''hdr'', ''sdr'', ''remux'', ''proper'', ''repack'', ''internal'', ''extended'',
      ''unrated'', ''limited'', ''complete'', ''integrale'', ''final'',
      ''x264'', ''x265'', ''h264'', ''h265'', ''hevc'', ''avc'', ''av1'', ''xvid'', ''divx'', ''264'', ''265'',
      ''aac'', ''ac3'', ''eac3'', ''dts'', ''ddp'', ''ma'', ''atmos'', ''flac'', ''mp3'',
      ''multi'', ''french'', ''truefrench'', ''vf'', ''vff'', ''vfq'', ''vo'', ''vostfr'', ''subfrench'',
      ''fr'', ''en'', ''eng'', ''vost'',
      ''1080p'', ''720p'', ''2160p'', ''576p'', ''480p'', ''360p'', ''4k'']"

definition TEAM :: rx where
  "TEAM = cats [Start, Cls anyAlnum, Times 1 19 (Cls teamChar), Finish]"

lemma js_trim_shorter: "length (js_trim s) \<le> length s"
proof -
  have "length (js_trim s) \<le> length (dropWhile isSpace s)"
    using length_dropWhile_le [of isSpace "rev (dropWhile isSpace s)"] by (simp add: js_trim_def)
  then show ?thesis using length_dropWhile_le [of isSpace s] by simp
qed

text \<open>The loop that takes the tags off the end: the name without them, and the last one taken off.\<close>

function stripTags :: "string \<Rightarrow> string option \<Rightarrow> string \<times> string option" where
  "stripTags name stripped =
     (case exec TRAILING_TAG name of
        None \<Rightarrow> (name, stripped)
      | Some tag \<Rightarrow> stripTags (js_trim (before tag)) (Some (matched tag)))"
  by pat_completeness auto
termination
proof (relation "measure (\<lambda>(name, stripped). length name)", goal_cases)
  case (2 name stripped tag)
  then have "length (before tag) < length name"
    using exec_consumes [of TRAILING_TAG name tag] by (simp add: TRAILING_TAG_def cats_def)
  then show ?case using js_trim_shorter [of "before tag"] by simp
qed simp

declare stripTags.simps [simp del]

definition aTeam :: "string \<Rightarrow> string option" where
  "aTeam tail = (if test TEAM tail \<and> toLowerCase tail \<notin> set NOT_A_TEAM then Some tail else None)"

definition releaseTeamOf :: "string \<Rightarrow> string option" where
  "releaseTeamOf whole =
     (let (name, stripped) = stripTags (replaceFirst RELEASE_EXTENSION (js_trim whole) []) None;
          ending = rev (takeWhile (\<lambda>c. c \<noteq> CHR ''-'') (rev name));
          tail = js_trim ending
      in if CHR ''-'' \<notin> set name \<or> length name = Suc (length ending) then None
         else case (tail, stripped) of
            ([], Some tag) \<Rightarrow>
              (case exec (Cat (Cls anyAlnum) (Star (Cls anyAlnum))) tag of None \<Rightarrow> None | Some inner \<Rightarrow> aTeam (matched inner))
          | _ \<Rightarrow> aTeam tail)"

subsection \<open>Is a name about a media?\<close>

definition TRANSPARENT :: "string list" where
  "TRANSPARENT = [''us'', ''uk'', ''au'', ''ca'', ''nz'', ''fr'', ''de'', ''jp'', ''kr'', ''aka'']"

definition COORDINATE :: rx where
  "COORDINATE = cats [Start,
     ors [cats [lit ''s'', digits 1 3, opt (cats [lit ''e'', digits 1 4])],
          cats [digits 1 2, lit ''x'', digits 1 3],
          lit ''season'', lit ''saison'', lit ''staffel'', lit ''temporada''],
     Finish]"

definition CLOSE_ENOUGH :: rat where "CLOSE_ENOUGH = 85 / 100"

definition tokensOf :: "string \<Rightarrow> string list" where
  "tokensOf value = filter (\<lambda>token. token \<noteq> []) (splitOn (CHR '' '') (normalizeTitle value))"

definition transparent :: "string \<Rightarrow> bool" where
  "transparent token \<longleftrightarrow> test YEAR_PATTERN token \<or> token \<in> set TRANSPARENT"

definition startsWith :: "'a list \<Rightarrow> 'a list \<Rightarrow> bool" where
  "startsWith ws xs \<longleftrightarrow> take (length ws) xs = ws"

definition namesMedia :: "string \<Rightarrow> string \<Rightarrow> bool" where
  "namesMedia releaseName mediaTitle =
     (let wanted = tokensOf mediaTitle; carried = tokensOf releaseName in
      if wanted = [] then True
      else if startsWith wanted carried then
        (let rest = drop (length wanted) carried in
         if list_ex (test COORDINATE) rest
         then list_all transparent (takeWhile (\<lambda>token. \<not> test COORDINATE token) rest)
         else True)
      else CLOSE_ENOUGH \<le> similarity (pNormalizedTitle (parseTitle releaseName)) (normalizeTitle mediaTitle))"

subsection \<open>The words of a search\<close>

record IndexerQuery =
  qTerm :: string
  qSeason :: "nat option"
  qEpisode :: "nat option"
  seasonPack :: bool

definition TRAILING_BRACKET :: rx where
  "TRAILING_BRACKET = cats [spaces, lit ''('', Star (Cls (noneOf ''()'')), lit '')'', spaces, Finish]"

function dropBrackets :: "string \<Rightarrow> string" where
  "dropBrackets kept =
     (case exec TRAILING_BRACKET kept of
        None \<Rightarrow> kept
      | Some f \<Rightarrow> (let shorter = js_trim (before f @ after f) in if shorter = [] then kept else dropBrackets shorter))"
  by pat_completeness auto
termination
proof (relation "measure length", goal_cases)
  case (2 kept f shorter)
  then have "length (before f @ after f) < length kept"
    using exec_consumes [of TRAILING_BRACKET kept f] by (simp add: TRAILING_BRACKET_def cats_def lit_def)
  then show ?case using 2 js_trim_shorter [of "before f @ after f"] by simp
qed simp

declare dropBrackets.simps [simp del]

definition releaseTitle :: "string \<Rightarrow> string" where
  "releaseTitle whole = dropBrackets (js_trim whole)"

definition searchTerms :: "IndexerQuery \<Rightarrow> string" where
  "searchTerms query =
     (let parts = js_trim (qTerm query) #
        (case qSeason query of
           None \<Rightarrow> []
         | Some season \<Rightarrow>
             (case qEpisode query of
                None \<Rightarrow> [''S'' @ pad season]
              | Some episode \<Rightarrow> if seasonPack query then [''S'' @ pad season] else [''S'' @ pad season @ ''E'' @ pad episode]))
      in joinWith '' '' (filter (\<lambda>p. p \<noteq> []) parts))"

subsection \<open>What a parsed name says\<close>

lemma runOf_interval: "\<exists>m. runOf name n = [n ..< Suc m] \<and> n \<le> m \<and> m \<le> n + 200"
proof (cases "exec EPISODE_RANGE name")
  case None
  then show ?thesis by (intro exI [of _ n]) (simp add: runOf_def)
next
  case (Some run)
  define ends where "ends = List.map_filter (\<lambda>g. numberOf (g 1)) (matchAll EPISODE_TAIL [] (matched run))"
  have run: "runOf name n = (if ends = [] \<or> List.last ends \<le> n then [n] else if 200 < List.last ends - n then [n] else [n ..< Suc (List.last ends)])"
    unfolding runOf_def Some ends_def Let_def option.case ..
  show ?thesis
  proof (cases "ends = [] \<or> List.last ends \<le> n \<or> 200 < List.last ends - n")
    case True
    then show ?thesis using run by (intro exI [of _ n]) auto
  next
    case False
    then show ?thesis using run by (intro exI [of _ "List.last ends"]) (auto simp del: upt_Suc)
  qed
qed

lemma firstMatch_label: "firstMatch v table = Some label \<Longrightarrow> label \<in> snd ` set table"
  by (induction v table rule: firstMatch.induct) (auto split: if_splits)

lemma languagesOf_labels: "set (languagesOf name) \<subseteq> snd ` set LANGUAGE_TABLE \<and> distinct (languagesOf name)"
proof -
  have "set (foldl (\<lambda>found (pattern, label). if test pattern name \<and> label \<notin> set found then found @ [label] else found) acc table)
        \<subseteq> set acc \<union> snd ` set table
      \<and> (distinct acc \<longrightarrow> distinct (foldl (\<lambda>found (pattern, label). if test pattern name \<and> label \<notin> set found then found @ [label] else found) acc table))"
    for acc and table :: "(rx \<times> string) list"
  proof (induction table arbitrary: acc)
    case (Cons row table)
    obtain pattern label where "row = (pattern, label)" by fastforce
    then show ?case using Cons.IH [of acc] Cons.IH [of "acc @ [label]"] by auto
  qed simp
  from this [of "[]" LANGUAGE_TABLE] show ?thesis by (simp add: languagesOf_def)
qed

lemma coordinates_are_groups:
  "captures 1 EPISODE_NAMED" "captures 2 EPISODE_NAMED" "captures 1 EPISODE_X" "captures 2 EPISODE_X" "captures 1 SEASON_NAMED"
  by (simp_all add: EPISODE_NAMED_def EPISODE_X_def SEASON_NAMED_def cats_def)

lemmas coordinates_captured = coordinates_are_groups [THEN exec_captures]

text \<open>The two readings of a coordinate: an episode tag, or a season alone.\<close>

definition episodeRead :: "string \<Rightarrow> found option" where
  "episodeRead name = orIfNone (exec EPISODE_NAMED name) (exec EPISODE_X name)"

lemma episodeRead_numbers:
  assumes "episodeRead name = Some f"
  obtains s e where "numberOf (captured f 1) = Some s" "numberOf (captured f 2) = Some e"
proof -
  have "captured f 1 \<noteq> None \<and> captured f 2 \<noteq> None"
    using assms coordinates_captured by (auto simp: episodeRead_def orIfNone_def split: option.splits)
  then show ?thesis using that by (auto simp: numberOf_def)
qed


subsection \<open>Teams and titles\<close>

lemma team_letters: "test TEAM w \<Longrightarrow> list_all teamChar w \<and> w \<noteq> []"
proof -
  assume "test TEAM w"
  then obtain f where f: "exec TEAM w = Some f" by (auto simp: test_def)
  obtain q where q: "q \<in> set (attempt TEAM \<lparr>seen = rev (before f), left = matched f @ after f, groups = []\<rparr>)" "left q = after f"
    by (rule exec_attempt [OF f])
  have "before f = []" "after f = []" using q by (auto simp: TEAM_def cats_def split: if_splits)
  then have "matched f = w" using exec_splits [OF f] by simp
  moreover have "list_all teamChar (matched f)"
    by (rule exec_madeOf [OF _ f]) (simp add: TEAM_def cats_def teamChar_def)
  moreover have "length (before f) + length (after f) < length w"
    by (rule exec_consumes [OF _ f]) (simp add: TEAM_def cats_def)
  ultimately show ?thesis by auto
qed

lemma releaseTeamOf_team:
  "releaseTeamOf name = Some team \<Longrightarrow> list_all teamChar team \<and> team \<noteq> [] \<and> toLowerCase team \<notin> set NOT_A_TEAM"
proof -
  have a: "aTeam w = Some team \<Longrightarrow> ?thesis" for w
    using team_letters [of w] by (auto simp: aTeam_def split: if_splits)
  then show "releaseTeamOf name = Some team \<Longrightarrow> ?thesis"
    by (auto simp: releaseTeamOf_def Let_def split: prod.splits if_splits list.splits option.splits)
qed

text \<open>The title sent to an indexer ends in no bracket, unless a bracket is all there is.\<close>

lemma releaseTitle_bare:
  "exec TRAILING_BRACKET (releaseTitle t) = None
   \<or> (\<exists>f. exec TRAILING_BRACKET (releaseTitle t) = Some f \<and> js_trim (before f @ after f) = [])"
proof -
  have "exec TRAILING_BRACKET (dropBrackets s) = None
     \<or> (\<exists>f. exec TRAILING_BRACKET (dropBrackets s) = Some f \<and> js_trim (before f @ after f) = [])" for s
  proof (induction s rule: dropBrackets.induct)
    case (1 s)
    show ?case
    proof (cases "exec TRAILING_BRACKET s")
      case None
      then show ?thesis by (subst (1) dropBrackets.simps, subst dropBrackets.simps) simp
    next
      case (Some f)
      show ?thesis
      proof (cases "js_trim (before f @ after f) = []")
        case True
        then have "dropBrackets s = s" using Some by (subst dropBrackets.simps) simp
        then show ?thesis using Some True by simp
      next
        case False
        then have "dropBrackets s = dropBrackets (js_trim (before f @ after f))"
          using Some by (subst dropBrackets.simps) simp
        then show ?thesis using 1 [OF Some refl False] by simp
      qed
    qed
  qed
  then show ?thesis by (simp add: releaseTitle_def)
qed

text \<open>A name that begins with the title is decided by what stands before its coordinate.\<close>

lemma names_by_what_is_between:
  assumes "tokensOf media \<noteq> []" and "tokensOf name = tokensOf media @ words @ coordinate # rest"
    and "list_all (\<lambda>token. \<not> test COORDINATE token) words" and "test COORDINATE coordinate"
  shows "namesMedia name media \<longleftrightarrow> list_all transparent words"
proof -
  have "takeWhile (\<lambda>token. \<not> test COORDINATE token) (words @ coordinate # rest) = words"
    using assms(3,4) by (induction words) auto
  then show ?thesis using assms by (simp add: namesMedia_def startsWith_def Let_def)
qed

subsection \<open>Names that are misread\<close>

text \<open>The digits of a resolution or of a title after a dash are taken for the end of a run of episodes.\<close>

lemma resolution_read_as_run: "covEpisodes (prCoverage (parseReleaseName ''X.S01E05-1080p'' True)) = [5 ..< 109]"
  by code_simp

lemma title_read_as_run: "covEpisodes (prCoverage (parseReleaseName ''X - S01E05 - 24 h'' True)) = [5 ..< 25]"
  by code_simp

text \<open>One episode, and the whole series with it.\<close>

lemma episode_claims_the_series:
  "covEpisodes (prCoverage (parseReleaseName ''Integrale.S01E05'' True)) = [5]
   \<and> wholeSeries (prCoverage (parseReleaseName ''Integrale.S01E05'' True))"
  by code_simp

text \<open>Words in front of the title are not looked at: another show whose name ends in the title is taken for it.\<close>

lemma contained_title_is_close:
  assumes "6 \<le> length b" "length b < length a" "sublist b a"
  shows "CLOSE_ENOUGH \<le> similarity a b"
  using assms by (auto simp: similarity_def CLOSE_ENOUGH_def Let_def)

lemma show_ending_in_the_title_is_taken: "namesMedia ''Fear.the.Walking.Dead.S04E01'' ''The Walking Dead''"
proof -
  have media: "tokensOf ''The Walking Dead'' = [''walking'', ''dead'']" "normalizeTitle ''The Walking Dead'' = ''walking dead''" by code_simp+
  have front: "hd (tokensOf ''Fear.the.Walking.Dead.S04E01'') = ''fear''" by code_simp
  have parsed: "pNormalizedTitle (parseTitle ''Fear.the.Walking.Dead.S04E01'') = ''fear the walking dead''" by code_simp
  have "sublist ''walking dead'' (''fear the '' @ ''walking dead'' @ [])" by (rule sublist_appendI)
  then have "CLOSE_ENOUGH \<le> similarity ''fear the walking dead'' ''walking dead''"
    by (intro contained_title_is_close) simp_all
  moreover have "\<not> startsWith (tokensOf ''The Walking Dead'') (tokensOf ''Fear.the.Walking.Dead.S04E01'')"
    using front by (cases "tokensOf ''Fear.the.Walking.Dead.S04E01''") (auto simp: startsWith_def media)
  ultimately show ?thesis unfolding namesMedia_def Let_def by (simp add: media parsed)
qed

end
