(* ===== verification/Release_Lists.thy ===== *)
theory Release_Lists
  imports Release_Names Js_Sort
begin

text \<open>
  The list a search shows: releases folded into lines (\<open>services/releases/release-grouping.ts\<close>), and
  the order the household prefers put on it (\<open>release-preferences.ts\<close>). Sizes and seeders are natural
  numbers.
\<close>

subsection \<open>Releases and lines\<close>

record Release =
  relId :: string
  relTitle :: string
  indexer :: string
  relSize :: "nat option"
  relSeeders :: "nat option"
  leechers :: "nat option"
  publishedAt :: "string option"
  magnetUrl :: "string option"
  downloadUrl :: "string option"
  relKind :: ReleaseKind
  relSeason :: "nat option"
  relEpisode :: "nat option"
  relQuality :: "string option"
  relSource :: "string option"
  relLanguages :: "string list"
  relCoverage :: ReleaseCoverage
  relHeld :: bool
  relOffTarget :: bool
  relFlags :: "string list"

record EpisodeRef =
  refItem :: string
  refSeason :: "nat option"
  refEpisode :: "nat option"
  refTitle :: string

record ReleaseGroup =
  grpKey :: string
  grpTitle :: string
  grpKind :: ReleaseKind
  grpSeason :: "nat option"
  grpEpisode :: "nat option"
  grpQuality :: "string option"
  grpSource :: "string option"
  grpLanguages :: "string list"
  grpSize :: "nat option"
  grpSeeders :: "nat option"
  grpReleases :: "Release list"
  grpFlags :: "string list"
  grpIndexers :: "string list"
  grpCoverage :: ReleaseCoverage
  grpFills :: "EpisodeRef list"
  grpBrings :: "(nat option \<times> nat option) list"
  grpHeld :: bool
  grpOffTarget :: bool

subsection \<open>Rows of the indexer\<close>

record ProwlarrRelease =
  rowGuid :: "string option"
  rowTitle :: "string option"
  rowIndexer :: "string option"
  rowIndexerId :: "nat option"
  rowSize :: "nat option"
  rowSeeders :: "nat option"
  rowLeechers :: "nat option"
  rowPublishDate :: "string option"
  rowMagnetUrl :: "string option"
  rowDownloadUrl :: "string option"
  rowFlags :: "string list"

definition lacking :: "string option \<Rightarrow> bool" where
  "lacking s \<longleftrightarrow> s = None \<or> s = Some []"

definition toRelease :: "bool \<Rightarrow> ProwlarrRelease \<Rightarrow> Release option" where
  "toRelease isShow row =
     (let name = map_option js_trim (rowTitle row) in
      if lacking name \<or> (lacking (rowMagnetUrl row) \<and> lacking (rowDownloadUrl row)) then None
      else
        let parsed = parseReleaseName (the name) isShow in
        Some \<lparr>relId =
                the (orIfNone (map_option showNat (rowIndexerId row)) (orIfNone (rowIndexer row) (Some ''prowlarr''))) @ '':''
                @ the (orIfNone (rowGuid row) (orIfNone (rowDownloadUrl row) name)),
              relTitle = the name,
              indexer = the (orIfNone (rowIndexer row) (Some ''Prowlarr'')),
              relSize = (case rowSize row of None \<Rightarrow> None | Some n \<Rightarrow> if 0 < n then Some n else None),
              relSeeders = rowSeeders row, leechers = rowLeechers row, publishedAt = rowPublishDate row,
              magnetUrl = rowMagnetUrl row, downloadUrl = rowDownloadUrl row,
              relKind = (if prKind parsed = UNKNOWN_RELEASE \<and> \<not> isShow then MOVIE_RELEASE else prKind parsed),
              relSeason = prSeason parsed, relEpisode = prEpisode parsed, relQuality = prQuality parsed,
              relSource = prSource parsed, relLanguages = prLanguages parsed, relCoverage = prCoverage parsed,
              relHeld = False, relOffTarget = False,
              relFlags = filter (\<lambda>flag. flag \<noteq> []) (map (\<lambda>flag. toLowerCase (js_trim flag)) (rowFlags row))\<rparr>)"

subsection \<open>Folding\<close>

fun kindName :: "ReleaseKind \<Rightarrow> string" where
  "kindName MOVIE_RELEASE = ''movie''"
| "kindName EPISODE_RELEASE = ''episode''"
| "kindName SEASON_PACK = ''season_pack''"
| "kindName UNKNOWN_RELEASE = ''unknown''"

definition showOr :: "nat option \<Rightarrow> string" where
  "showOr n = (case n of None \<Rightarrow> [] | Some k \<Rightarrow> showNat k)"

text \<open>\<open>sort()\<close> with no comparator: by code units.\<close>

fun compareStrings :: "string \<Rightarrow> string \<Rightarrow> int" where
  "compareStrings [] [] = 0"
| "compareStrings [] (d # ds) = - 1"
| "compareStrings (c # cs) [] = 1"
| "compareStrings (c # cs) (d # ds) =
     thenBy (int (of_char c) - int (of_char d)) (compareStrings cs ds)"

definition hundredMegabytes :: "nat \<Rightarrow> nat" where
  "hundredMegabytes n = (n + 50000000) div 100000000"

definition sizeBucket :: "nat option \<Rightarrow> nat option" where
  "sizeBucket s = map_option hundredMegabytes s"

definition keyParts :: "Release \<Rightarrow> string list" where
  "keyParts r =
     [if relOffTarget r then ''off'' else [],
      kindName (relKind r),
      showOr (covSeason (relCoverage r)),
      joinWith ''-'' (map showNat (covEpisodes (relCoverage r))),
      if wholeSeason (relCoverage r) then ''season'' else [],
      if wholeSeries (relCoverage r) then ''series'' else [],
      orEmpty (relQuality r),
      orEmpty (relSource r),
      joinWith ''+'' (sortBy compareStrings (relLanguages r)),
      orEmpty (releaseCodecOf (relTitle r)),
      orEmpty (releaseTeamOf (relTitle r)),
      showOr (sizeBucket (relSize r))]"

definition releaseKey :: "Release \<Rightarrow> string" where
  "releaseKey r = joinWith ''|'' (keyParts r)"

definition natOrZero :: "nat option \<Rightarrow> int" where
  "natOrZero n = (case n of None \<Rightarrow> 0 | Some k \<Rightarrow> int k)"

definition better :: "Release comparing" where
  "better l r = thenBy (natOrZero (relSeeders r) - natOrZero (relSeeders l)) (natOrZero (relSize r) - natOrZero (relSize l))"

definition addCopy :: "(string \<times> Release list) list \<Rightarrow> Release \<Rightarrow> (string \<times> Release list) list" where
  "addCopy lines r =
     (case map_of lines (releaseKey r) of
        None \<Rightarrow> AList.update (releaseKey r) [r] lines
      | Some copies \<Rightarrow> AList.update (releaseKey r) (copies @ [r]) lines)"

definition largestSize :: "Release list \<Rightarrow> nat option" where
  "largestSize rs =
     foldl (\<lambda>largest one. case relSize one of
         None \<Rightarrow> largest
       | Some n \<Rightarrow> if natOrZero largest < int n then Some n else largest) None rs"

definition foldedGroup :: "string \<Rightarrow> Release list \<Rightarrow> ReleaseGroup" where
  "foldedGroup key copies =
     (let best = sortBy better copies; top = hd best in
      \<lparr>grpKey = key, grpTitle = relTitle top, grpKind = relKind top, grpSeason = relSeason top,
       grpEpisode = relEpisode top, grpQuality = relQuality top, grpSource = relSource top,
       grpLanguages = relLanguages top,
       grpSize = largestSize best,
       grpSeeders =
         (if list_ex (\<lambda>one. relSeeders one \<noteq> None) best
          then Some (foldl (\<lambda>total one. total + nat (natOrZero (relSeeders one))) 0 best) else None),
       grpReleases = best,
       grpFlags = uniques (concat (map relFlags best)),
       grpIndexers = uniques (map indexer best),
       grpCoverage = relCoverage top, grpFills = [], grpBrings = [],
       grpHeld = list_ex relHeld best,
       grpOffTarget = relOffTarget top\<rparr>)"

definition lineOrder :: "ReleaseGroup comparing" where
  "lineOrder l r =
     thenBy (ofBool (grpHeld l) - ofBool (grpHeld r))
       (thenBy (natOrZero (grpSeeders r) - natOrZero (grpSeeders l)) (natOrZero (grpSize r) - natOrZero (grpSize l)))"

definition groupReleases :: "Release list \<Rightarrow> ReleaseGroup list" where
  "groupReleases releases =
     sortBy lineOrder (map (\<lambda>(key, copies). foldedGroup key copies) (foldl addCopy [] releases))"

subsection \<open>Preferences\<close>

datatype Dimension = RESOLUTION | CODEC | TEAM_ORDER | SOURCE_ORDER | LANGUAGE | COST | INDEXER

record ReleasePreferenceRank =
  dimension :: Dimension
  rankValues :: "string list"

type_synonym ReleasePreference = "ReleasePreferenceRank list"

text \<open>What a rank reads of a release or of a line: a release has its own tracker, a line all of them.\<close>

record PreferableRelease =
  pfTitle :: string
  pfQuality :: "string option"
  pfSource :: "string option"
  pfLanguages :: "string list"
  pfFlags :: "string list"
  pfIndexers :: "string list"

definition ofRelease :: "Release \<Rightarrow> PreferableRelease" where
  "ofRelease r =
     \<lparr>pfTitle = relTitle r, pfQuality = relQuality r, pfSource = relSource r, pfLanguages = relLanguages r,
      pfFlags = relFlags r, pfIndexers = [indexer r]\<rparr>"

definition ofGroup :: "ReleaseGroup \<Rightarrow> PreferableRelease" where
  "ofGroup g =
     \<lparr>pfTitle = grpTitle g, pfQuality = grpQuality g, pfSource = grpSource g, pfLanguages = grpLanguages g,
      pfFlags = grpFlags g, pfIndexers = grpIndexers g\<rparr>"

definition RESOLUTIONS :: "(rx \<times> string) list" where
  "RESOLUTIONS =
     [(wholeWord [liti ''2160p'', liti ''4k'', liti ''uhd''], ''2160p''),
      (wholeWord [liti ''1080p''], ''1080p''),
      (wholeWord [liti ''720p''], ''720p''),
      (wholeWord [liti ''sd'', liti ''576p'', liti ''480p'', liti ''360p''], ''SD'')]"

definition SOURCES :: "(rx \<times> string) list" where
  "SOURCES =
     [(wholeWord [cats [liti ''blu'', opt separator, liti ''ray''], liti ''bdrip'', liti ''brrip'', liti ''bdremux'', liti ''remux''], ''BluRay''),
      (wholeWord [cats [liti ''web'', opt separator, liti ''dl'']], ''WEB-DL''),
      (wholeWord [cats [liti ''web'', opt separator, liti ''rip'']], ''WEBRip''),
      (wholeWord [liti ''hdtv''], ''HDTV''),
      (wholeWord [liti ''dvdrip'', liti ''dvd''], ''DVD'')]"

definition LANGUAGES :: "(rx \<times> string) list" where
  "LANGUAGES =
     [(wholeWord [liti ''multi''], ''MULTI''),
      (wholeWord [liti ''vostfr'', liti ''subfrench''], ''VOSTFR''),
      (wholeWord [liti ''truefrench'', liti ''french''], ''FRENCH''),
      (wholeWord [cats [liti ''vf'', opt (liti ''f'')]], ''VF''),
      (wholeWord [liti ''vo'', liti ''english'', liti ''eng''], ''VO'')]"

definition COSTS :: "(rx \<times> string) list" where
  "COSTS =
     [(ors [cats [liti ''free'', spaces, liti ''leech''], liti ''freeleech'', liti ''gratuit'', wholeWord [liti ''free''], liti ''golden''], ''free''),
      (ors [cats [liti ''half'', spaces, liti ''leech''], liti ''halfleech'', liti ''demi'', wholeWord [liti ''half'']], ''half'')]"

definition FREE_RELEASE_FLAGS :: "(string \<times> string) list" where
  "FREE_RELEASE_FLAGS =
     [(''freeleech'', ''free''), (''free'', ''free''), (''g_freeleech'', ''free''), (''ptp_golden'', ''free''),
      (''halfleech'', ''half''), (''g_halfleech'', ''half'')]"

text \<open>A flag spelled like an inherited property of an object, \<open>constructor\<close> say, is left aside.\<close>

definition releaseCostOf :: "string list \<Rightarrow> string option" where
  "releaseCostOf flags =
     (let costs = List.map_filter (\<lambda>flag. map_of FREE_RELEASE_FLAGS (toLowerCase flag)) flags in
      if ''free'' \<in> set costs then Some ''free'' else if costs = [] then None else Some (hd costs))"

definition listOf :: "string option \<Rightarrow> string list" where
  "listOf value = (case value of None \<Rightarrow> [] | Some v \<Rightarrow> [v])"

fun readers :: "Dimension \<Rightarrow> PreferableRelease \<Rightarrow> string list" where
  "readers RESOLUTION r = (if pfQuality r \<noteq> None then listOf (pfQuality r) else listOf (firstMatch (pfTitle r) RESOLUTIONS))"
| "readers CODEC r = listOf (releaseCodecOf (pfTitle r))"
| "readers TEAM_ORDER r = listOf (releaseTeamOf (pfTitle r))"
| "readers SOURCE_ORDER r = (if pfSource r \<noteq> None then listOf (pfSource r) else listOf (firstMatch (pfTitle r) SOURCES))"
| "readers LANGUAGE r = (if pfLanguages r \<noteq> [] then pfLanguages r else listOf (firstMatch (pfTitle r) LANGUAGES))"
| "readers COST r = listOf (releaseCostOf (pfFlags r))"
| "readers INDEXER r = pfIndexers r"

fun folds :: "Dimension \<Rightarrow> (rx \<times> string) list" where
  "folds RESOLUTION = RESOLUTIONS"
| "folds CODEC = CODECS"
| "folds TEAM_ORDER = []"
| "folds SOURCE_ORDER = SOURCES"
| "folds LANGUAGE = LANGUAGES"
| "folds COST = COSTS"
| "folds INDEXER = []"

definition foldValue :: "Dimension \<Rightarrow> string \<Rightarrow> string" where
  "foldValue d value =
     filter isAlnum (toLowerCase (case firstMatch value (folds d) of None \<Rightarrow> value | Some label \<Rightarrow> label))"

definition MAX_SAFE_INTEGER :: int where "MAX_SAFE_INTEGER = 9007199254740991"

fun placeIn :: "'a \<Rightarrow> 'a list \<Rightarrow> nat option" where
  "placeIn v [] = None"
| "placeIn v (x # xs) = (if x = v then Some 0 else map_option Suc (placeIn v xs))"

definition placeOf :: "PreferableRelease \<Rightarrow> ReleasePreferenceRank \<Rightarrow> int" where
  "placeOf r rank =
     (let wanted = map (foldValue (dimension rank)) (rankValues rank);
          carried = map (foldValue (dimension rank)) (readers (dimension rank) r)
      in foldl (\<lambda>best value. case placeIn value wanted of
             None \<Rightarrow> best
           | Some place \<Rightarrow> if int place < best then int place else best) MAX_SAFE_INTEGER carried)"

fun compareByReleasePreference :: "ReleasePreference \<Rightarrow> PreferableRelease comparing" where
  "compareByReleasePreference [] l r = 0"
| "compareByReleasePreference (rank # ranks) l r =
     (if rankValues rank = [] then compareByReleasePreference ranks l r
      else let difference = placeOf l rank - placeOf r rank in
        if difference \<noteq> 0 then difference else compareByReleasePreference ranks l r)"

definition sortByReleasePreference :: "Release list \<Rightarrow> ReleasePreference \<Rightarrow> Release list" where
  "sortByReleasePreference releases preference =
     sortBy (\<lambda>l r. compareByReleasePreference preference (ofRelease l) (ofRelease r)) releases"

datatype Scope = MEDIA_SCOPE | CATEGORY_SCOPE | GLOBAL_SCOPE | NO_SCOPE

record ReleasePreferenceLevels =
  levelGlobal :: "ReleasePreference option"
  levelCategory :: "ReleasePreference option"
  levelMedia :: "ReleasePreference option"

definition resolveReleasePreference :: "ReleasePreferenceLevels \<Rightarrow> Scope \<times> ReleasePreference" where
  "resolveReleasePreference levels =
     (case levelMedia levels of Some p \<Rightarrow> (MEDIA_SCOPE, p) | None \<Rightarrow>
      case levelCategory levels of Some p \<Rightarrow> (CATEGORY_SCOPE, p) | None \<Rightarrow>
      case levelGlobal levels of Some p \<Rightarrow> (GLOBAL_SCOPE, p) | None \<Rightarrow> (NO_SCOPE, []))"

definition orderCopies :: "ReleasePreference \<Rightarrow> ReleaseGroup \<Rightarrow> ReleaseGroup" where
  "orderCopies preference g =
     (let rs = sortByReleasePreference (grpReleases g) preference in
      g\<lparr>grpReleases := rs, grpIndexers := uniques (map indexer rs)\<rparr>)"

definition preferredOrder :: "ReleasePreference \<Rightarrow> ReleaseGroup comparing" where
  "preferredOrder preference l r =
     thenBy (ofBool (grpHeld l) - ofBool (grpHeld r)) (compareByReleasePreference preference (ofGroup l) (ofGroup r))"

definition orderGroupsByPreference :: "ReleaseGroup list \<Rightarrow> ReleasePreference \<Rightarrow> ReleaseGroup list" where
  "orderGroupsByPreference lines preference = sortBy (preferredOrder preference) (map (orderCopies preference) lines)"

subsection \<open>The orders are consistent\<close>

lemma consistent_compareStrings: "consistent_order compareStrings"
proof
  show "compareStrings y x \<le> 0 \<longleftrightarrow> 0 \<le> compareStrings x y" for x y
    by (induction x y rule: compareStrings.induct) (auto simp: thenBy_def)
  show "compareStrings x z \<le> 0" if "compareStrings x y \<le> 0" "compareStrings y z \<le> 0" for x y z
    using that
  proof (induction x y arbitrary: z rule: compareStrings.induct)
    case (4 c cs d ds)
    then show ?case by (cases z) (auto simp: thenBy_def split: if_splits)
  next
    case (2 d ds)
    then show ?case by (cases z) auto
  qed auto
qed

lemma compareStrings_tied: "compareStrings x y = 0 \<longleftrightarrow> x = y"
  by (induction x y rule: compareStrings.induct) (auto simp: thenBy_def)

interpretation strings: consistent_order compareStrings
  by (rule consistent_compareStrings)

lemma consistent_on: "consistent_order f \<Longrightarrow> consistent_order (\<lambda>x y. f (g x) (g y))"
  unfolding consistent_order_def by blast

interpretation copies: consistent_order better
  unfolding better_def [abs_def] by (intro consistent_comparators)

interpretation lines: consistent_order lineOrder
  unfolding lineOrder_def [abs_def] by (intro consistent_comparators)

lemma consistent_preference: "consistent_order (compareByReleasePreference preference)"
proof (induction preference)
  case Nil
  have "compareByReleasePreference [] = (\<lambda>l r. 0)" by (intro ext) simp
  then show ?case using consistent_zero by simp
next
  case (Cons rank ranks)
  have "compareByReleasePreference (rank # ranks) =
    (\<lambda>l r. if rankValues rank = [] then compareByReleasePreference ranks l r
            else thenBy (placeOf l rank - placeOf r rank) (compareByReleasePreference ranks l r))"
    by (intro ext) (simp add: thenBy_def)
  then show ?case using Cons consistent_thenBy [OF consistent_diff [of "\<lambda>l. placeOf l rank"] Cons]
    by (cases "rankValues rank = []") simp_all
qed

interpretation preferred: consistent_order "compareByReleasePreference preference" for preference
  by (rule consistent_preference)

interpretation preferredCopies: consistent_order "\<lambda>l r. compareByReleasePreference preference (ofRelease l) (ofRelease r)" for preference
  by (rule consistent_on [OF consistent_preference, where g = ofRelease])

interpretation preferredLines: consistent_order "preferredOrder preference" for preference
  unfolding preferredOrder_def [abs_def]
  by (rule consistent_thenBy [OF consistent_diff [where f = "\<lambda>l. ofBool (grpHeld l)"]
        consistent_on [OF consistent_preference, where g = ofGroup]])

subsection \<open>What a line holds\<close>

definition copiesOf :: "string \<Rightarrow> Release list \<Rightarrow> Release list" where
  "copiesOf key rs = filter (\<lambda>r. releaseKey r = key) rs"

definition linesOf :: "Release list \<Rightarrow> (string \<times> Release list) list \<Rightarrow> bool" where
  "linesOf rs ls \<longleftrightarrow>
     distinct (map fst ls) \<and> set ls = (\<lambda>key. (key, copiesOf key rs)) ` releaseKey ` set rs"

lemma linesOf_lookup: "linesOf rs ls \<Longrightarrow> map_of ls key = (if key \<in> releaseKey ` set rs then Some (copiesOf key rs) else None)"
  by (auto simp: linesOf_def map_of_eq_None_iff image_iff intro!: map_of_is_SomeI)

lemma linesOf_addCopy:
  assumes "linesOf rs ls"
  shows "linesOf (rs @ [r]) (addCopy ls r)"
proof -
  let ?old = "if releaseKey r \<in> releaseKey ` set rs then copiesOf (releaseKey r) rs else []"
  have add: "addCopy ls r = AList.update (releaseKey r) (?old @ [r]) ls"
    using linesOf_lookup [OF assms, of "releaseKey r"] by (simp add: addCopy_def)
  have old: "?old = copiesOf (releaseKey r) rs"
    by (auto simp: copiesOf_def image_iff intro!: filter_False [symmetric])
  have d: "distinct (map fst (addCopy ls r))"
    using assms by (simp add: add linesOf_def distinct_update)
  have "map_of (addCopy ls r) key = (if key \<in> releaseKey ` set (rs @ [r]) then Some (copiesOf key (rs @ [r])) else None)" for key
    using linesOf_lookup [OF assms, of key] unfolding add old by (auto simp: update_conv copiesOf_def)
  then have "(key, cs) \<in> set (addCopy ls r) \<longleftrightarrow> key \<in> releaseKey ` set (rs @ [r]) \<and> cs = copiesOf key (rs @ [r])" for key cs
    using map_of_eq_Some_iff [OF d, of key cs] by (auto split: if_splits)
  then show ?thesis using d by (auto simp: linesOf_def)
qed

lemma linesOf_fold: "linesOf rs (foldl addCopy [] rs)"
proof (induction rs rule: rev_induct)
  case (snoc r rs)
  then show ?case by (simp add: linesOf_addCopy)
qed (simp add: linesOf_def)

lemma foldedGroup_fields [simp]:
  "grpKey (foldedGroup key cs) = key" "grpReleases (foldedGroup key cs) = sortBy better cs"
  by (simp_all add: foldedGroup_def Let_def)

lemma partition_by_key:
  assumes "distinct ks" "set ks = releaseKey ` set rs"
  shows "mset (concat (map (\<lambda>k. copiesOf k rs) ks)) = mset rs"
proof -
  have "mset (concat (map (\<lambda>k. copiesOf k rs) ks)) = (\<Sum>k\<in>set ks. filter_mset (\<lambda>r. releaseKey r = k) (mset rs))"
    using assms(1) by (simp add: mset_concat copiesOf_def comp_def sum_list_distinct_conv_sum_set)
  also have "\<dots> = mset rs"
  proof (rule multiset_eqI)
    fix r
    have "count (\<Sum>k\<in>set ks. filter_mset (\<lambda>r. releaseKey r = k) (mset rs)) r = (\<Sum>k\<in>set ks. if releaseKey r = k then count (mset rs) r else 0)"
      by (simp add: count_sum if_distrib cong: if_cong)
    also have "\<dots> = (if releaseKey r \<in> set ks then count (mset rs) r else 0)"
      by (simp add: sum.delta)
    also have "\<dots> = count (mset rs) r"
      using assms(2) by (auto simp: count_eq_zero_iff)
    finally show "count (\<Sum>k\<in>set ks. filter_mset (\<lambda>r. releaseKey r = k) (mset rs)) r = count (mset rs) r" .
  qed
  finally show ?thesis .
qed

lemma set_groupReleases:
  "set (groupReleases rs) = (\<lambda>key. foldedGroup key (copiesOf key rs)) ` releaseKey ` set rs"
  using linesOf_fold [of rs] by (auto simp: groupReleases_def linesOf_def image_iff split: prod.splits)

lemma distinct_grpKeys: "distinct (map grpKey (groupReleases rs))"
proof -
  let ?ls = "foldl addCopy [] rs"
  have "mset (map grpKey (groupReleases rs)) = mset (map grpKey (map (\<lambda>(key, cs). foldedGroup key cs) ?ls))"
    by (simp add: groupReleases_def multiset.map_comp)
  also have "map grpKey (map (\<lambda>(key, cs). foldedGroup key cs) ?ls) = map fst ?ls" by auto
  finally show ?thesis using linesOf_fold [of rs] by (metis linesOf_def mset_eq_imp_distinct_iff)
qed

lemma mset_concat_image: "mset (concat (map f xs)) = (\<Sum>x\<in>#mset xs. mset (f x))"
  by (induction xs) auto

lemma mset_groupReleases: "mset (concat (map grpReleases (groupReleases rs))) = mset rs"
proof -
  let ?ls = "foldl addCopy [] rs"
  have l: "distinct (map fst ?ls)" "set ?ls = (\<lambda>key. (key, copiesOf key rs)) ` releaseKey ` set rs"
    using linesOf_fold [of rs] by (simp_all add: linesOf_def)
  have "mset (concat (map grpReleases (groupReleases rs))) = (\<Sum>g\<in>#mset (groupReleases rs). mset (grpReleases g))"
    by (rule mset_concat_image)
  also have "\<dots> = (\<Sum>l\<in>#mset ?ls. mset (snd l))"
    by (simp add: groupReleases_def image_mset.compositionality comp_def split_beta)
  also have "\<dots> = (\<Sum>l\<in>#mset ?ls. mset (copiesOf (fst l) rs))"
    using l(2) by (intro arg_cong [of _ _ sum_mset] image_mset_cong) auto
  also have "\<dots> = mset (concat (map (\<lambda>k. copiesOf k rs) (map fst ?ls)))"
    by (simp add: mset_concat_image multiset.map_comp comp_def del: mset_concat)
  also have "\<dots> = mset rs" by (rule partition_by_key [OF l(1)]) (use l(2) in \<open>auto simp: image_iff\<close>)
  finally show ?thesis .
qed

subsection \<open>What the key tells\<close>

text \<open>Two releases that are the same thing to grab, and the ones whose labels were read off their name.\<close>

definition sameThing :: "Release \<Rightarrow> Release \<Rightarrow> bool" where
  "sameThing r s \<longleftrightarrow>
     relOffTarget r = relOffTarget s \<and> relKind r = relKind s \<and> relCoverage r = relCoverage s
     \<and> relQuality r = relQuality s \<and> relSource r = relSource s \<and> mset (relLanguages r) = mset (relLanguages s)
     \<and> releaseCodecOf (relTitle r) = releaseCodecOf (relTitle s) \<and> releaseTeamOf (relTitle r) = releaseTeamOf (relTitle s)
     \<and> sizeBucket (relSize r) = sizeBucket (relSize s)"

definition asRead :: "Release \<Rightarrow> bool" where
  "asRead r \<longleftrightarrow>
     (\<exists>isShow. relQuality r = prQuality (parseReleaseName (relTitle r) isShow)
        \<and> relSource r = prSource (parseReleaseName (relTitle r) isShow)
        \<and> relLanguages r = prLanguages (parseReleaseName (relTitle r) isShow))"

definition plainWord :: "string \<Rightarrow> bool" where
  "plainWord w \<longleftrightarrow> w \<noteq> [] \<and> CHR ''|'' \<notin> set w \<and> CHR ''+'' \<notin> set w"

lemma tables_plain: "plainWord ` snd ` set (QUALITY_TABLE @ SOURCE_TABLE @ CODECS) \<subseteq> {True}"
  by (simp add: QUALITY_TABLE_def SOURCE_TABLE_def CODECS_def plainWord_def)

lemma labels_plain:
  "firstMatch name QUALITY_TABLE = Some w \<Longrightarrow> plainWord w" "firstMatch name SOURCE_TABLE = Some w \<Longrightarrow> plainWord w"
  "releaseCodecOf name = Some w \<Longrightarrow> plainWord w"
  using tables_plain unfolding releaseCodecOf_def by (auto dest!: firstMatch_label)

lemma languages_plain: "list_all plainWord (languagesOf name)"
  using languagesOf_labels [of name] by (auto simp: list_all_iff LANGUAGE_TABLE_def plainWord_def)

lemma team_plain: "releaseTeamOf name = Some w \<Longrightarrow> w \<noteq> [] \<and> CHR ''|'' \<notin> set w"
proof -
  assume "releaseTeamOf name = Some w"
  then have "list_all teamChar w" "w \<noteq> []" by (auto dest: releaseTeamOf_team)
  moreover have "\<not> teamChar (CHR ''|'')" by (simp add: teamChar_def anyAlnum_def isAlnum_def between_def isDigit_def lowerChar_def)
  ultimately show ?thesis by (auto simp: list_all_iff)
qed

lemma asRead_plain:
  assumes "asRead r"
  shows "relQuality r = Some w \<Longrightarrow> plainWord w" "relSource r = Some w \<Longrightarrow> plainWord w" "list_all plainWord (relLanguages r)"
  using assms labels_plain(1,2) languages_plain by (auto simp: asRead_def parseReleaseName_def Let_def)

lemma toRelease_asRead: "toRelease isShow row = Some r \<Longrightarrow> asRead r"
  by (auto simp: toRelease_def asRead_def Let_def split: if_splits intro!: exI [of _ isShow])

lemma set_joinWith: "set (joinWith sep ws) \<subseteq> set sep \<union> \<Union> (set ` set ws)"
  by (cases ws) (auto simp: joinWith_def)

lemma joinWith_Nil_iff: "list_all (\<lambda>w. w \<noteq> []) ws \<Longrightarrow> joinWith sep ws = [] \<longleftrightarrow> ws = []"
  by (cases ws) (auto simp: joinWith_def)

lemma joinWith_inj:
  assumes "list_all (\<lambda>w. w \<noteq> [] \<and> sep \<notin> set w) xs" "list_all (\<lambda>w. w \<noteq> [] \<and> sep \<notin> set w) ys"
  shows "joinWith [sep] xs = joinWith [sep] ys \<longleftrightarrow> xs = ys"
proof
  assume eq: "joinWith [sep] xs = joinWith [sep] ys"
  have nil: "xs = [] \<longleftrightarrow> ys = []"
    using eq joinWith_Nil_iff [of xs "[sep]"] joinWith_Nil_iff [of ys "[sep]"] assms by (simp add: list_all_iff)
  have fresh: "list_all (\<lambda>w. sep \<notin> set w) xs" "list_all (\<lambda>w. sep \<notin> set w) ys" using assms by (simp_all add: list_all_iff)
  show "xs = ys"
  proof (cases "xs = []")
    case False
    then show ?thesis using eq nil splitOn_joinWith [OF _ fresh(1)] splitOn_joinWith [OF _ fresh(2)] by metis
  qed (use nil in simp)
qed simp

lemma showNat_plain: "showNat n \<noteq> []" "CHR ''|'' \<notin> set (showNat n)" "CHR ''-'' \<notin> set (showNat n)"
  using showNat_digits [of n] by (auto simp: list_all_iff isDigit_def)

lemma showOr_inj: "showOr a = showOr b \<longleftrightarrow> a = b"
  using showNat_plain(1) by (cases a; cases b) (auto simp: showOr_def showNat_inj dest: sym)

lemma kindName_inj: "kindName a = kindName b \<longleftrightarrow> a = b"
  by (cases a; cases b) simp_all

lemma orEmpty_inj: "a \<noteq> Some [] \<Longrightarrow> b \<noteq> Some [] \<Longrightarrow> orEmpty a = orEmpty b \<longleftrightarrow> a = b"
  by (cases a; cases b) (auto simp: orEmpty_def)

lemma sortBy_strings_eq: "sortBy compareStrings xs = sortBy compareStrings ys \<longleftrightarrow> mset xs = mset ys"
proof
  assume m: "mset xs = mset ys"
  have f: "filter (tiedBy compareStrings a) zs = replicate (count (mset zs) a) a" for a zs
    by (induction zs) (auto simp: tiedBy_def compareStrings_tied)
  show "sortBy compareStrings xs = sortBy compareStrings ys"
    by (rule strings.stable_sort_unique [OF strings.ordered_sortBy strings.ordered_sortBy]) (simp only: f mset_sortBy m)
qed (metis mset_sortBy)

lemma keyParts_plain:
  assumes "asRead r"
  shows "list_all (\<lambda>w. CHR ''|'' \<notin> set w) (keyParts r)"
proof -
  have o: "CHR ''|'' \<notin> set (orEmpty v)" if "\<And>w. v = Some w \<Longrightarrow> CHR ''|'' \<notin> set w" for v
    using that by (cases v) (auto simp: orEmpty_def)
  have "CHR ''|'' \<notin> set (joinWith ''-'' (map showNat es))" for es
    using set_joinWith [of "''-''" "map showNat es"] showNat_plain(2) by auto
  moreover have "CHR ''|'' \<notin> set (joinWith ''+'' (sortBy compareStrings (relLanguages r)))"
    using set_joinWith [of "''+''" "sortBy compareStrings (relLanguages r)"] asRead_plain(3) [OF assms]
    by (auto simp: list_all_iff plainWord_def)
  moreover have "CHR ''|'' \<notin> set (showOr n)" for n by (cases n) (auto simp: showOr_def showNat_plain)
  moreover have "CHR ''|'' \<notin> set (kindName k)" for k by (cases k) auto
  moreover have "CHR ''|'' \<notin> set (orEmpty (relQuality r))" "CHR ''|'' \<notin> set (orEmpty (relSource r))"
    using asRead_plain(1,2) [OF assms] by (auto intro!: o simp: plainWord_def)
  moreover have "CHR ''|'' \<notin> set (orEmpty (releaseCodecOf (relTitle r)))" "CHR ''|'' \<notin> set (orEmpty (releaseTeamOf (relTitle r)))"
    using labels_plain(3) team_plain by (auto intro!: o simp: plainWord_def)
  ultimately show ?thesis by (simp add: keyParts_def)
qed

lemma releaseKey_tells:
  assumes "asRead r" "asRead s"
  shows "releaseKey r = releaseKey s \<longleftrightarrow> sameThing r s"
proof -
  have parts: "keyParts x \<noteq> []" for x by (simp add: keyParts_def)
  have "releaseKey r = releaseKey s \<longleftrightarrow> keyParts r = keyParts s"
    using splitOn_joinWith [OF parts keyParts_plain [OF assms(1)]] splitOn_joinWith [OF parts keyParts_plain [OF assms(2)]]
    by (metis releaseKey_def)
  moreover have "joinWith ''-'' (map showNat es) = joinWith ''-'' (map showNat fs) \<longleftrightarrow> es = fs" for es fs
    using showNat_plain by (subst joinWith_inj) (auto simp: list_all_iff inj_map_eq_map inj_def showNat_inj)
  moreover have "joinWith ''+'' (sortBy compareStrings (relLanguages r)) = joinWith ''+'' (sortBy compareStrings (relLanguages s))
      \<longleftrightarrow> mset (relLanguages r) = mset (relLanguages s)"
    using asRead_plain(3) [OF assms(1)] asRead_plain(3) [OF assms(2)]
    by (subst joinWith_inj) (auto simp: list_all_iff plainWord_def sortBy_strings_eq)
  moreover have "orEmpty (relQuality r) = orEmpty (relQuality s) \<longleftrightarrow> relQuality r = relQuality s"
    "orEmpty (relSource r) = orEmpty (relSource s) \<longleftrightarrow> relSource r = relSource s"
    using asRead_plain(1,2) [OF assms(1)] asRead_plain(1,2) [OF assms(2)] by (auto intro!: orEmpty_inj simp: plainWord_def)
  moreover have "orEmpty (releaseCodecOf (relTitle r)) = orEmpty (releaseCodecOf (relTitle s)) \<longleftrightarrow> releaseCodecOf (relTitle r) = releaseCodecOf (relTitle s)"
    "orEmpty (releaseTeamOf (relTitle r)) = orEmpty (releaseTeamOf (relTitle s)) \<longleftrightarrow> releaseTeamOf (relTitle r) = releaseTeamOf (relTitle s)"
    using labels_plain(3) team_plain by (auto intro!: orEmpty_inj simp: plainWord_def)
  ultimately show ?thesis
    by (simp add: keyParts_def sameThing_def kindName_inj showOr_inj) (auto intro: ReleaseCoverage.equality)
qed

subsection \<open>Lines\<close>


definition listing :: "string \<Rightarrow> string \<Rightarrow> nat \<Rightarrow> ProwlarrRelease" where
  "listing name tracker seeds =
     \<lparr>rowGuid = Some name, rowTitle = Some name, rowIndexer = Some tracker, rowIndexerId = None, rowSize = None,
      rowSeeders = Some seeds, rowLeechers = None, rowPublishDate = None, rowMagnetUrl = Some ''magnet:'', rowDownloadUrl = None, rowFlags = []\<rparr>"

definition twoListings :: "Release list" where
  "twoListings = List.map_filter (toRelease True) [listing ''X.S01E01-GRP'' ''A'' 9, listing ''x.s01e01-GRP'' ''B'' 2]"

lemma twoListings_asRead: "list_all asRead twoListings"
  by (auto simp: twoListings_def map_filter_def list_all_iff dest: toRelease_asRead split: option.splits)

lemma twoListings_one_line: "map grpTitle (groupReleases twoListings) = [''X.S01E01-GRP'']"
  by code_simp


subsection \<open>The preferred order\<close>

lemma sorted_by_preference:
  "mset (sortByReleasePreference rs preference) = mset rs"
  "orderedBy (\<lambda>l r. compareByReleasePreference preference (ofRelease l) (ofRelease r)) (sortByReleasePreference rs preference)"
  by (simp_all add: sortByReleasePreference_def preferredCopies.ordered_sortBy)

text \<open>The first rank with values that separates two releases decides between them.\<close>

lemma first_rank_decides:
  assumes "list_all (\<lambda>rank. rankValues rank = [] \<or> placeOf l rank = placeOf r rank) before_it"
    and "rankValues rank \<noteq> []" and "placeOf l rank \<noteq> placeOf r rank"
  shows "compareByReleasePreference (before_it @ rank # after_it) l r = placeOf l rank - placeOf r rank"
  using assms by (induction before_it) auto

lemma placeIn_bounds: "placeIn v xs = Some i \<Longrightarrow> i < length xs \<and> xs ! i = v"
  by (induction v xs arbitrary: i rule: placeIn.induct) (auto split: if_splits)

lemma placeIn_member: "placeIn v xs \<noteq> None \<longleftrightarrow> v \<in> set xs"
  by (induction v xs rule: placeIn.induct) auto

text \<open>
  (C34) A preference orders and never hides. The lines it gives are the lines it was given, each with
  its own copies in the preferred order and nothing else changed but the list of trackers; what is held
  comes after everything that is not, a line never comes before one the preference puts above it, and
  lines it does not separate stay in the order they came in.
\<close>

theorem preference_orders_and_never_hides:
  "mset (orderGroupsByPreference ls preference) = image_mset (orderCopies preference) (mset ls)
   \<and> sorted_wrt (\<lambda>l r. grpHeld l \<longrightarrow> grpHeld r) (orderGroupsByPreference ls preference)
   \<and> sorted_wrt (\<lambda>l r. grpHeld l = grpHeld r \<longrightarrow> compareByReleasePreference preference (ofGroup l) (ofGroup r) \<le> 0)
        (orderGroupsByPreference ls preference)
   \<and> (\<forall>g. filter (\<lambda>h. grpHeld g = grpHeld h \<and> compareByReleasePreference preference (ofGroup g) (ofGroup h) = 0)
            (orderGroupsByPreference ls preference)
          = filter (\<lambda>h. grpHeld g = grpHeld h \<and> compareByReleasePreference preference (ofGroup g) (ofGroup h) = 0)
            (map (orderCopies preference) ls))
   \<and> (\<forall>g. mset (grpReleases (orderCopies preference g)) = mset (grpReleases g)
        \<and> sorted_wrt (\<lambda>l r. compareByReleasePreference preference (ofRelease l) (ofRelease r) \<le> 0) (grpReleases (orderCopies preference g)))"
proof -
  have tied: "tiedBy (preferredOrder preference) g h
      \<longleftrightarrow> grpHeld g = grpHeld h \<and> compareByReleasePreference preference (ofGroup g) (ofGroup h) = 0" for g h
    by (auto simp: tiedBy_def preferredOrder_def thenBy_def ofBool_def)
  have ordered: "sorted_wrt (\<lambda>l r. preferredOrder preference l r \<le> 0) (orderGroupsByPreference ls preference)"
    using preferredLines.ordered_sortBy [of preference "map (orderCopies preference) ls"]
    by (simp add: orderedBy_def orderGroupsByPreference_def)
  have "sorted_wrt (\<lambda>l r. grpHeld l \<longrightarrow> grpHeld r) (orderGroupsByPreference ls preference)"
    by (rule sorted_wrt_mono_rel [OF _ ordered]) (auto simp: preferredOrder_def thenBy_def ofBool_def split: if_splits)
  moreover have "sorted_wrt (\<lambda>l r. grpHeld l = grpHeld r \<longrightarrow> compareByReleasePreference preference (ofGroup l) (ofGroup r) \<le> 0)
      (orderGroupsByPreference ls preference)"
    by (rule sorted_wrt_mono_rel [OF _ ordered]) (auto simp: preferredOrder_def thenBy_def ofBool_def split: if_splits)
  moreover have "filter (\<lambda>h. grpHeld g = grpHeld h \<and> compareByReleasePreference preference (ofGroup g) (ofGroup h) = 0)
      (orderGroupsByPreference ls preference)
      = filter (\<lambda>h. grpHeld g = grpHeld h \<and> compareByReleasePreference preference (ofGroup g) (ofGroup h) = 0)
          (map (orderCopies preference) ls)" for g
    using preferredLines.stable [of preference g "map (orderCopies preference) ls"]
    unfolding orderGroupsByPreference_def by (simp only: tied [abs_def])
  moreover have "mset (orderGroupsByPreference ls preference) = image_mset (orderCopies preference) (mset ls)"
    by (simp add: orderGroupsByPreference_def)
  moreover have "mset (grpReleases (orderCopies preference g)) = mset (grpReleases g)
      \<and> sorted_wrt (\<lambda>l r. compareByReleasePreference preference (ofRelease l) (ofRelease r) \<le> 0) (grpReleases (orderCopies preference g))" for g
    using sorted_by_preference [where rs = "grpReleases g" and preference = preference] by (simp add: orderCopies_def Let_def orderedBy_def)
  ultimately show ?thesis by blast
qed

text \<open>The copy a grab takes need not be the one the line is named after.\<close>

definition trackerB :: ReleasePreference where
  "trackerB = [\<lparr>dimension = INDEXER, rankValues = [''B'']\<rparr>]"

lemma line_named_after_another_copy:
  "map (\<lambda>g. (grpTitle g, relTitle (hd (grpReleases g)))) (orderGroupsByPreference (groupReleases twoListings) trackerB)
   = [(''X.S01E01-GRP'', ''x.s01e01-GRP'')]"
  by code_simp

theorem preference_orders_and_never_hides_witness:
  "mset (orderGroupsByPreference (groupReleases twoListings) trackerB)
     = image_mset (orderCopies trackerB) (mset (groupReleases twoListings))"
  using preference_orders_and_never_hides [of "groupReleases twoListings" trackerB] by blast

end
