(* ===== verification/Release_Plan.thy ===== *)
theory Release_Plan
  imports Release_Lists Quality Match_Graph Episode_Numbering
begin

text \<open>
  From a search to a plan: what is missing under a media, which lines and which copies of connected
  servers would fill it, the one list they are shown in, and the smallest set of releases to grab.
  The search and plan of \<open>managers/release.manager.ts\<close> and \<open>services/releases/peer-suggestions.ts\<close>. What
  the indexer answers, the rows of the catalogue and the groups of a media are arguments. Season and
  episode numbers are natural numbers.
\<close>

subsection \<open>What was asked\<close>

record CatalogueRow =
  rowId :: string
  rowParent :: "string option"
  rowName :: string
  rowKind :: MediaKind
  rowSeason :: "nat option"
  rowEpisode :: "nat option"
  rowFileSize :: "nat option"

record SearchQuery =
  askedTerm :: "string option"
  askedSeason :: "nat option"
  askedEpisode :: "nat option"
  askedPack :: bool
  askedShow :: "bool option"

definition rowOf :: "CatalogueRow list \<Rightarrow> string \<Rightarrow> CatalogueRow option" where
  "rowOf rows i = List.find (\<lambda>r. rowId r = i) rows"

primrec climb :: "CatalogueRow list \<Rightarrow> nat \<Rightarrow> CatalogueRow \<Rightarrow> CatalogueRow" where
  "climb rows 0 r = r"
| "climb rows (Suc n) r =
     (case rowParent r of
        None \<Rightarrow> r
      | Some p \<Rightarrow> if p = [] then r else (case rowOf rows p of None \<Rightarrow> r | Some up \<Rightarrow> climb rows n up))"

definition showOf :: "CatalogueRow list \<Rightarrow> CatalogueRow \<Rightarrow> CatalogueRow" where
  "showOf rows item = climb rows 2 item"

definition showTitleOf :: "CatalogueRow list \<Rightarrow> CatalogueRow \<Rightarrow> string" where
  "showTitleOf rows item = releaseTitle (rowName (showOf rows item))"

text \<open>The words and numbers of the search, and whether a show is searched for.\<close>

definition termsOf :: "CatalogueRow list \<Rightarrow> CatalogueRow option \<Rightarrow> SearchQuery \<Rightarrow> IndexerQuery \<times> bool" where
  "termsOf rows item query =
     (case item of
        None \<Rightarrow>
          (\<lparr>qTerm = orEmpty (askedTerm query), qSeason = askedSeason query, qEpisode = askedEpisode query, seasonPack = askedPack query\<rparr>,
           (case askedShow query of None \<Rightarrow> True | Some b \<Rightarrow> b))
      | Some row \<Rightarrow>
          (\<lparr>qTerm = orString (js_trim (orEmpty (askedTerm query))) (showTitleOf rows row),
            qSeason = orIfNone (askedSeason query) (rowSeason row),
            qEpisode = (if askedPack query then None else orIfNone (askedEpisode query) (rowEpisode row)),
            seasonPack = askedPack query\<rparr>,
           (case askedShow query of None \<Rightarrow> rowKind row \<noteq> MOVIE \<and> rowKind row \<noteq> COLLECTION | Some b \<Rightarrow> b)))"

definition sizesHeld :: "CatalogueRow list \<Rightarrow> CatalogueRow option \<Rightarrow> nat set" where
  "sizesHeld rows item =
     (case item of
        None \<Rightarrow> {}
      | Some row \<Rightarrow> 
          set (filter (\<lambda>n. n \<noteq> 0) (List.map_filter rowFileSize (row # filter (\<lambda>r. rowParent r = Some (rowId row)) rows))))"

subsection \<open>What is not what was asked\<close>

definition offTarget :: "Release \<Rightarrow> string option \<Rightarrow> nat option \<Rightarrow> nat option \<Rightarrow> bool" where
  "offTarget r name season episode =
     (let c = relCoverage r in
      if (case name of None \<Rightarrow> False | Some t \<Rightarrow> \<not> namesMedia (relTitle r) t) then True
      else if wholeSeries c then False
      else if season \<noteq> None \<and> covSeason c \<noteq> None \<and> covSeason c \<noteq> season then True
      else
        case episode of
          None \<Rightarrow> False
        | Some e \<Rightarrow> if wholeSeason c then False else covEpisodes c \<noteq> [] \<and> e \<notin> set (covEpisodes c))"

definition markOffTarget :: "Release list \<Rightarrow> IndexerQuery \<Rightarrow> bool \<Rightarrow> Release list" where
  "markOffTarget rs asked ofMedia =
     (let name = (if ofMedia then Some (qTerm asked) else None) in
      if qSeason asked = None \<and> qEpisode asked = None \<and> name = None then rs
      else map (\<lambda>r. r\<lparr>relOffTarget := offTarget r name (qSeason asked) (qEpisode asked)\<rparr>) rs)"

definition markHeld :: "nat set \<Rightarrow> Release \<Rightarrow> Release" where
  "markHeld sizes r = r\<lparr>relHeld := (case relSize r of None \<Rightarrow> False | Some n \<Rightarrow> n \<in> sizes)\<rparr>"

definition claimedQuality :: "Release \<Rightarrow> string option" where
  "claimedQuality r =
     (let parts = filter (\<lambda>p. p \<noteq> []) (listOf (relQuality r) @ listOf (relSource r) @ relLanguages r) in
      if parts = [] then None else Some (joinWith ('' '' @ [CHR 0xB7] @ '' '') parts))"

subsection \<open>What is missing\<close>

record MediaGroupSource =
  srcItem :: string
  srcService :: string
  srcServiceName :: string
  srcPeer :: "string option"
  srcPeerName :: "string option"
  srcQuality :: "QualitySummary option"
  srcBytes :: "int option"
  srcLocal :: bool
  srcPath :: "string option"

record MediaGroup =
  mgId :: string
  mgKind :: MediaKind
  mgTitle :: string
  mgSeason :: "nat option"
  mgEpisode :: "nat option"
  mgEpisodeEnd :: "nat option"
  mgSync :: SyncState
  mgSources :: "MediaGroupSource list"

record SuggestionHolding =
  holdRef :: EpisodeRef
  holdSources :: "MediaGroupSource list"

record Coverage =
  missing :: "EpisodeRef list"
  known :: "string list"
  holdings :: "SuggestionHolding list"

definition refOf :: "MediaGroup \<Rightarrow> EpisodeRef" where
  "refOf g = \<lparr>refItem = mgId g, refSeason = mgSeason g, refEpisode = mgEpisode g, refTitle = mgTitle g\<rparr>"

definition coordinateKey :: "nat option \<Rightarrow> nat option \<Rightarrow> string" where
  "coordinateKey season episode = showOr season @ '':'' @ showOr episode"

definition refKey :: "EpisodeRef \<Rightarrow> string" where
  "refKey e = coordinateKey (refSeason e) (refEpisode e)"

definition remember :: "string list \<Rightarrow> MediaGroup \<Rightarrow> string list" where
  "remember ks g =
     ks @ map (\<lambda>n. coordinateKey (mgSeason g) (Some (nat n)))
            (spanOf \<lparr>spanStart = map_option int (mgEpisode g), spanEnd = map_option int (mgEpisodeEnd g)\<rparr>)
        @ (if mgEpisode g = None then [refKey (refOf g)] else [])"

definition takeGroup :: "Coverage \<Rightarrow> MediaGroup \<Rightarrow> Coverage" where
  "takeGroup c g =
     (if mgKind g \<noteq> EPISODE then c
      else
        let c' = c\<lparr>known := remember (known c) g\<rparr> in
        if mgSync g = Missing
        then c'\<lparr>missing := missing c' @ [refOf g], holdings := holdings c' @ [\<lparr>holdRef = refOf g, holdSources = mgSources g\<rparr>]\<rparr>
        else c')"

definition noCoverage :: Coverage where
  "noCoverage = \<lparr>missing = [], known = [], holdings = []\<rparr>"

text \<open>The page of a group's children holds at most 500 of them.\<close>

definition coverageOf :: "(string \<Rightarrow> MediaGroup list) \<Rightarrow> MediaGroup \<Rightarrow> Coverage" where
  "coverageOf children g =
     (if mgKind g = MOVIE \<or> mgKind g = EPISODE
      then
        \<lparr>missing = (if mgSync g = Missing then [refOf g] else []), known = remember [] g,
         holdings = (if mgSync g = Missing then [\<lparr>holdRef = refOf g, holdSources = mgSources g\<rparr>] else [])\<rparr>
      else foldl (\<lambda>c child. if mgKind child = EPISODE then takeGroup c child
                             else foldl takeGroup c (take 500 (children (mgId child))))
             noCoverage (take 500 (children (mgId g))))"

subsection \<open>What a line fills and brings\<close>

definition fillsOf :: "ReleaseGroup \<Rightarrow> EpisodeRef list \<Rightarrow> EpisodeRef list" where
  "fillsOf g gaps =
     (let c = grpCoverage g in
      if grpOffTarget g then []
      else if wholeSeries c then gaps
      else if wholeSeason c then filter (\<lambda>e. refSeason e = covSeason c) gaps
      else if covEpisodes c \<noteq> [] then
        filter (\<lambda>e. refSeason e = covSeason c \<and> (case refEpisode e of None \<Rightarrow> False | Some n \<Rightarrow> n \<in> set (covEpisodes c))) gaps
      else if grpKind g = MOVIE_RELEASE then gaps else [])"

definition newIn :: "ReleaseGroup \<Rightarrow> string list \<Rightarrow> (nat option \<times> nat option) list" where
  "newIn g ks =
     (let c = grpCoverage g in
      if grpOffTarget g then []
      else if covEpisodes c \<noteq> [] then
        filter (\<lambda>(s, e). coordinateKey s e \<notin> set ks) (map (\<lambda>n. (covSeason c, Some n)) (covEpisodes c))
      else
        case covSeason c of
          None \<Rightarrow> []
        | Some s \<Rightarrow>
            if \<not> wholeSeason c then []
            else if list_ex (startsWith (showNat s @ '':'')) ks then [] else [(Some s, None)])"

subsection \<open>What connected servers hold\<close>

datatype MediaOrigin = LOCAL_ORIGIN | DIRECT | FRIEND | FRIEND_OF_FRIEND | REQUESTED

record PeerCopy =
  copyId :: string
  copyItems :: "string list"
  copyTitle :: string
  copyService :: string
  copyServiceName :: string
  copyPeer :: "string option"
  copyPeerName :: "string option"
  copyOrigin :: MediaOrigin
  copySeason :: "nat option"
  copyEpisode :: "nat option"
  copySize :: "int option"
  copyQuality :: "QualitySummary option"
  copyPath :: "string option"
  copyFills :: "EpisodeRef list"

record CopyFold =
  foldSource :: MediaGroupSource
  foldFills :: "EpisodeRef list"
  foldItems :: "string list"
  foldQualities :: "QualitySummary option list"

definition addSource :: "EpisodeRef \<Rightarrow> (string \<times> CopyFold) list \<Rightarrow> MediaGroupSource \<Rightarrow> (string \<times> CopyFold) list" where
  "addSource ref fs s =
     (if srcLocal s then fs
      else
        let key = srcService s @ '':'' @ showOr (refSeason ref) in
        case map_of fs key of
          None \<Rightarrow> AList.update key \<lparr>foldSource = s, foldFills = [ref], foldItems = [srcItem s], foldQualities = [srcQuality s]\<rparr> fs
        | Some f \<Rightarrow>
            if list_ex (\<lambda>e. refItem e = refItem ref) (foldFills f) then fs
            else AList.update key
              (f\<lparr>foldFills := foldFills f @ [ref], foldItems := foldItems f @ [srcItem s], foldQualities := foldQualities f @ [srcQuality s]\<rparr>) fs)"

definition originOf :: "MediaGroupSource \<Rightarrow> string set \<Rightarrow> MediaOrigin" where
  "originOf s friendsOfFriends =
     (case srcPeer s of None \<Rightarrow> DIRECT | Some p \<Rightarrow> if p \<in> friendsOfFriends then FRIEND_OF_FRIEND else FRIEND)"

definition offerSize :: "QualitySummary option list \<Rightarrow> MediaGroupSource \<Rightarrow> bool \<Rightarrow> int option" where
  "offerSize qs s single =
     (if single then orIfNone (srcBytes s) (case qs of Some q # _ \<Rightarrow> Some (totalBytes q) | _ \<Rightarrow> None)
      else
        let all = foldl (\<lambda>n q. n + (case q of None \<Rightarrow> 0 | Some x \<Rightarrow> totalBytes x)) 0 qs in
        if 0 < all then Some all else None)"

definition peerCopy :: "string \<Rightarrow> string set \<Rightarrow> CopyFold \<Rightarrow> PeerCopy" where
  "peerCopy whole friendsOfFriends f =
     (let s = foldSource f; single = (length (foldFills f) = 1); front = hd (foldFills f);
          season = refSeason front; q = mergeSummaries (foldQualities f)
      in \<lparr>copyId = ''peer:'' @ srcService s @ '':'' @ showOr season,
          copyItems = foldItems f,
          copyTitle = (if single then refTitle front else whole),
          copyService = srcService s, copyServiceName = srcServiceName s, copyPeer = srcPeer s, copyPeerName = srcPeerName s,
          copyOrigin = originOf s friendsOfFriends,
          copySeason = season,
          copyEpisode = (if single then refEpisode front else None),
          copySize = offerSize (foldQualities f) s single,
          copyQuality = (if variants q = [] then None else Some q),
          copyPath = (if single then srcPath s else None),
          copyFills = foldFills f\<rparr>)"

definition copiesFor :: "SuggestionHolding list \<Rightarrow> string \<Rightarrow> string set \<Rightarrow> PeerCopy list" where
  "copiesFor hs whole friendsOfFriends =
     map (\<lambda>(k, f). peerCopy whole friendsOfFriends f)
       (foldl (\<lambda>fs h. foldl (addSource (holdRef h)) fs (holdSources h)) [] hs)"

subsection \<open>One list\<close>

datatype Suggestion = PeerOffer PeerCopy | IndexerOffer ReleaseGroup

definition RESOLUTION_RANK :: "string list" where
  "RESOLUTION_RANK = [''2160p'', ''1080p'', ''720p'', ''576p'', ''480p'']"

fun ORIGIN_DISTANCE :: "MediaOrigin \<Rightarrow> int" where
  "ORIGIN_DISTANCE LOCAL_ORIGIN = 0"
| "ORIGIN_DISTANCE DIRECT = 1"
| "ORIGIN_DISTANCE FRIEND = 2"
| "ORIGIN_DISTANCE FRIEND_OF_FRIEND = 3"
| "ORIGIN_DISTANCE REQUESTED = 4"

definition resolutionRank :: "QualitySummary option \<Rightarrow> int" where
  "resolutionRank q =
     (case placeIn (orEmpty (Option.bind (Option.bind q dominant) vResolution)) RESOLUTION_RANK of
        None \<Rightarrow> int (length RESOLUTION_RANK)
      | Some i \<Rightarrow> int i)"

definition comparePeerCopies :: "PeerCopy comparing" where
  "comparePeerCopies l r =
     thenBy (ORIGIN_DISTANCE (copyOrigin l) - ORIGIN_DISTANCE (copyOrigin r))
       (thenBy (int (length (copyFills r)) - int (length (copyFills l)))
         (thenBy (resolutionRank (copyQuality l) - resolutionRank (copyQuality r))
           (orZero (copySize r) - orZero (copySize l))))"

fun gapsOf :: "Suggestion \<Rightarrow> int" where
  "gapsOf (PeerOffer c) = int (length (copyFills c))"
| "gapsOf (IndexerOffer g) = int (length (grpFills g))"

definition coversNoGap :: "Suggestion \<Rightarrow> bool" where
  "coversNoGap s \<longleftrightarrow> gapsOf s = 0"

fun isOffTarget :: "Suggestion \<Rightarrow> bool" where
  "isOffTarget (PeerOffer c) = False"
| "isOffTarget (IndexerOffer g) = grpOffTarget g"

fun bringsNothing :: "Suggestion \<Rightarrow> bool" where
  "bringsNothing (PeerOffer c) = (copyFills c = [])"
| "bringsNothing (IndexerOffer g) = grpHeld g"

fun fromIndexer :: "Suggestion \<Rightarrow> bool" where
  "fromIndexer (PeerOffer c) = False"
| "fromIndexer (IndexerOffer g) = True"

definition suggestionOrder :: "Suggestion comparing" where
  "suggestionOrder l r =
     thenBy (ofBool (isOffTarget l) - ofBool (isOffTarget r))
       (thenBy (ofBool (bringsNothing l) - ofBool (bringsNothing r))
         (thenBy (ofBool (\<not> bringsNothing l \<and> coversNoGap l) - ofBool (\<not> bringsNothing r \<and> coversNoGap r))
           (thenBy (ofBool (fromIndexer l) - ofBool (fromIndexer r)) (gapsOf r - gapsOf l))))"

definition orderSuggestions :: "PeerCopy list \<Rightarrow> ReleaseGroup list \<Rightarrow> Suggestion list" where
  "orderSuggestions cs gs = sortBy suggestionOrder (map PeerOffer (sortBy comparePeerCopies cs) @ map IndexerOffer gs)"

subsection \<open>The search\<close>

datatype SearchError = INDEXER_NOT_CONFIGURED | NOTHING_ASKED

record SearchEnv =
  catalogue :: "CatalogueRow list"
  configured :: bool
  asking :: "IndexerQuery \<Rightarrow> bool \<Rightarrow> string + ProwlarrRelease list"
  underMedia :: "string \<Rightarrow> Coverage"
  levels :: ReleasePreferenceLevels
  introduced :: "string set"

record SearchResult =
  sentQuery :: string
  suggestions :: "Suggestion list"
  gaps :: "EpisodeRef list"
  refused :: "string option"

definition withFills :: "Coverage \<Rightarrow> ReleaseGroup \<Rightarrow> ReleaseGroup" where
  "withFills cover g =
     g\<lparr>grpFills := fillsOf g (missing cover), grpBrings := (if known cover = [] then [] else newIn g (known cover))\<rparr>"

definition peerCopiesOf :: "Coverage \<Rightarrow> CatalogueRow option \<Rightarrow> string set \<Rightarrow> PeerCopy list" where
  "peerCopiesOf cover item friendsOfFriends =
     (case item of
        None \<Rightarrow> []
      | Some row \<Rightarrow> if holdings cover = [] then [] else copiesFor (holdings cover) (rowName row) friendsOfFriends)"

definition search :: "SearchEnv \<Rightarrow> SearchQuery \<Rightarrow> CatalogueRow option \<Rightarrow> SearchError + SearchResult" where
  "search env query item =
     (if \<not> configured env then Inl INDEXER_NOT_CONFIGURED
      else
        let (asked, isShow) = termsOf (catalogue env) item query in
        if js_trim (qTerm asked) = [] then Inl NOTHING_ASKED
        else
          let answer = asking env asked isShow;
              rs = (case answer of Inl e \<Rightarrow> [] | Inr rows \<Rightarrow> List.map_filter (toRelease isShow) rows);
              marked = map (markHeld (sizesHeld (catalogue env) item)) (markOffTarget rs asked (item \<noteq> None));
              cover = (case item of None \<Rightarrow> noCoverage | Some row \<Rightarrow> underMedia env (rowId row));
              preference = snd (resolveReleasePreference (levels env));
              gs = map (withFills cover) (orderGroupsByPreference (groupReleases marked) preference);
              cs = peerCopiesOf cover item (introduced env)
          in Inr \<lparr>sentQuery = searchTerms asked, suggestions = orderSuggestions cs gs, gaps = missing cover,
                  refused = (case answer of Inl e \<Rightarrow> Some e | Inr rows \<Rightarrow> None)\<rparr>)"

subsection \<open>The plan\<close>

record CoverageStep =
  stepRelease :: string
  stepTitle :: string
  stepKind :: ReleaseKind
  stepSize :: "nat option"
  stepSeeders :: "nat option"
  stepCovers :: "EpisodeRef list"
  stepPartial :: bool

definition coversOf :: "(string \<times> EpisodeRef) list \<Rightarrow> ReleaseGroup \<Rightarrow> EpisodeRef list" where
  "coversOf uncovered g = filter (\<lambda>e. map_of uncovered (refKey e) \<noteq> None) (grpFills g)"

definition scoreOrder :: "(ReleaseGroup \<times> EpisodeRef list) comparing" where
  "scoreOrder l r =
     thenBy (int (length (snd r)) - int (length (snd l))) (natOrZero (grpSeeders (fst r)) - natOrZero (grpSeeders (fst l)))"

definition scoredLines :: "(string \<times> EpisodeRef) list \<Rightarrow> ReleaseGroup list \<Rightarrow> (ReleaseGroup \<times> EpisodeRef list) list" where
  "scoredLines uncovered candidates =
     sortBy scoreOrder (filter (\<lambda>(g, covers). covers \<noteq> []) (map (\<lambda>g. (g, coversOf uncovered g)) candidates))"

definition stepFor :: "ReleaseGroup \<Rightarrow> EpisodeRef list \<Rightarrow> CoverageStep" where
  "stepFor g covers =
     \<lparr>stepRelease = relId (hd (grpReleases g)), stepTitle = grpTitle g, stepKind = grpKind g, stepSize = grpSize g,
      stepSeeders = grpSeeders g, stepCovers = covers,
      stepPartial = (wholeSeason (grpCoverage g) \<or> wholeSeries (grpCoverage g)
        \<or> length covers < length (covEpisodes (grpCoverage g)))\<rparr>"

definition withoutCovered :: "(string \<times> EpisodeRef) list \<Rightarrow> EpisodeRef list \<Rightarrow> (string \<times> EpisodeRef) list" where
  "withoutCovered uncovered covers = foldl (\<lambda>u e. AList.delete (refKey e) u) uncovered covers"

lemma withoutCovered_filter: "withoutCovered unc covers = filter (\<lambda>(k, e). k \<notin> refKey ` set covers) unc"
proof (induction covers arbitrary: unc)
  case (Cons e covers)
  have "withoutCovered unc (e # covers) = withoutCovered (AList.delete (refKey e) unc) covers" by (simp add: withoutCovered_def)
  also have "\<dots> = filter (\<lambda>(k, e). k \<notin> refKey ` set covers) (AList.delete (refKey e) unc)" by (rule Cons.IH)
  also have "\<dots> = filter (\<lambda>(k, e'). k \<notin> refKey ` set (e # covers)) unc"
    by (auto simp: AList.delete_eq split_beta intro!: filter_cong)
  finally show ?case .
qed (simp add: withoutCovered_def)

lemma coversOf_keys: "e \<in> set (coversOf unc g) \<longleftrightarrow> e \<in> set (grpFills g) \<and> refKey e \<in> fst ` set unc"
  by (auto simp: coversOf_def map_of_eq_None_iff)

lemma scoredLines_set:
  "x \<in> set (scoredLines unc candidates) \<longleftrightarrow> (\<exists>g \<in> set candidates. x = (g, coversOf unc g) \<and> coversOf unc g \<noteq> [])"
  by (auto simp: scoredLines_def)

lemma withoutCovered_shorter:
  assumes "scoredLines unc candidates = (g, covers) # rest"
  shows "length (withoutCovered unc covers) < length unc"
proof -
  have "covers = coversOf unc g" "covers \<noteq> []" using scoredLines_set [of "(g, covers)" unc candidates] assms by auto
  moreover from \<open>covers \<noteq> []\<close> obtain e where "e \<in> set covers" by (cases covers) auto
  ultimately have "e \<in> set covers" "refKey e \<in> fst ` set unc" using coversOf_keys [of e unc g] by auto
  then show ?thesis unfolding withoutCovered_filter by (auto intro!: length_filter_less)
qed

function planLoop ::
  "ReleaseGroup list \<Rightarrow> (string \<times> EpisodeRef) list \<Rightarrow> CoverageStep list \<Rightarrow> CoverageStep list \<times> EpisodeRef list" where
  "planLoop candidates unc steps =
     (if unc = [] then (steps, [])
      else case scoredLines unc candidates of
        [] \<Rightarrow> (steps, map snd unc)
      | (g, covers) # rest \<Rightarrow> planLoop candidates (withoutCovered unc covers) (steps @ [stepFor g covers]))"
  by pat_completeness auto
termination
  by (relation "measure (\<lambda>(candidates, unc, steps). length unc)") (auto dest: withoutCovered_shorter)

declare planLoop.simps [simp del]

definition gapMap :: "EpisodeRef list \<Rightarrow> (string \<times> EpisodeRef) list" where
  "gapMap es = foldl (\<lambda>u e. AList.update (refKey e) e u) [] es"

definition planCandidates :: "Suggestion list \<Rightarrow> ReleaseGroup list" where
  "planCandidates ss =
     filter (\<lambda>g. grpFills g \<noteq> []) (List.map_filter (\<lambda>s. case s of PeerOffer c \<Rightarrow> None | IndexerOffer g \<Rightarrow> Some g) ss)"

definition planCoverage :: "SearchResult \<Rightarrow> CoverageStep list \<times> EpisodeRef list" where
  "planCoverage found = planLoop (planCandidates (suggestions found)) (gapMap (gaps found)) []"

definition plan :: "SearchEnv \<Rightarrow> SearchQuery \<Rightarrow> CatalogueRow option \<Rightarrow> SearchError + CoverageStep list \<times> EpisodeRef list" where
  "plan env query item = (case search env query item of Inl e \<Rightarrow> Inl e | Inr found \<Rightarrow> Inr (planCoverage found))"

subsection \<open>The orders are consistent\<close>

interpretation peerCopies: consistent_order comparePeerCopies
  unfolding comparePeerCopies_def [abs_def] by (intro consistent_comparators)

interpretation scores: consistent_order scoreOrder
  unfolding scoreOrder_def [abs_def] by (intro consistent_comparators)

interpretation shown: consistent_order suggestionOrder
  unfolding suggestionOrder_def [abs_def] by (intro consistent_comparators)

subsection \<open>What a plan covers\<close>

definition keysOf :: "EpisodeRef list \<Rightarrow> string set" where
  "keysOf es = refKey ` set es"

definition fillable :: "ReleaseGroup list \<Rightarrow> string set" where
  "fillable gs = (\<Union>g \<in> set gs. keysOf (grpFills g))"

text \<open>
  The steps of a plan for the gaps with the keys \<open>ks\<close>: each takes a candidate for the gaps it fills that are
  still open, no candidate would cover more, and the gaps any candidate fills are all covered.
\<close>

fun greedy :: "ReleaseGroup list \<Rightarrow> string set \<Rightarrow> CoverageStep list \<Rightarrow> bool" where
  "greedy gs ks [] = (ks \<inter> fillable gs = {})"
| "greedy gs ks (s # ss) =
     ((\<exists>g \<in> set gs. s = stepFor g (filter (\<lambda>e. refKey e \<in> ks) (grpFills g)))
      \<and> stepCovers s \<noteq> []
      \<and> (\<forall>g \<in> set gs. length (filter (\<lambda>e. refKey e \<in> ks) (grpFills g)) \<le> length (stepCovers s))
      \<and> greedy gs (ks - keysOf (stepCovers s)) ss)"

lemma coversOf_filter: "coversOf unc g = filter (\<lambda>e. refKey e \<in> fst ` set unc) (grpFills g)"
  by (auto simp: coversOf_def map_of_eq_None_iff intro!: filter_cong)

lemma stepFor_covers [simp]: "stepCovers (stepFor g covers) = covers"
  by (simp add: stepFor_def)

lemma scoredLines_head:
  assumes "scoredLines unc gs = (g, covers) # rest"
  shows "g \<in> set gs" "covers = coversOf unc g" "covers \<noteq> []"
    and "h \<in> set gs \<Longrightarrow> length (coversOf unc h) \<le> length covers"
proof -
  show here: "g \<in> set gs" "covers = coversOf unc g" "covers \<noteq> []"
    using scoredLines_set [of "(g, covers)" unc gs] assms by auto
  assume h: "h \<in> set gs"
  show "length (coversOf unc h) \<le> length covers"
  proof (cases "coversOf unc h = []")
    case False
    let ?xs = "filter (\<lambda>(g, covers). covers \<noteq> []) (map (\<lambda>g. (g, coversOf unc g)) gs)"
    have "(h, coversOf unc h) \<in> set ?xs" using h False by auto
    moreover have "hd (sortBy scoreOrder ?xs) = (g, covers)" using assms by (simp add: scoredLines_def)
    ultimately have "scoreOrder (g, covers) (h, coversOf unc h) \<le> 0"
      using scores.hd_sortBy_least [of ?xs "(h, coversOf unc h)"] by (metis empty_iff list.set(1))
    then show ?thesis by (auto simp: scoreOrder_def thenBy_def split: if_splits)
  qed simp
qed

lemma planLoop_greedy:
  assumes "distinct (map fst unc)"
  obtains new where "fst (planLoop gs unc steps) = steps @ new" and "greedy gs (fst ` set unc) new"
    and "snd (planLoop gs unc steps) = map snd (filter (\<lambda>(k, e). k \<notin> fillable gs) unc)" and "length new \<le> length unc"
proof -
  have "\<exists>new. fst (planLoop gs unc steps) = steps @ new \<and> greedy gs (fst ` set unc) new
      \<and> snd (planLoop gs unc steps) = map snd (filter (\<lambda>(k, e). k \<notin> fillable gs) unc) \<and> length new \<le> length unc"
    using assms
  proof (induction gs unc steps rule: planLoop.induct)
    case (1 gs unc steps)
    show ?case
    proof (cases "unc = []")
      case True
      then show ?thesis by (subst (1 2) planLoop.simps) simp
    next
      case False
      show ?thesis
      proof (cases "scoredLines unc gs")
        case Nil
        have "k \<notin> fillable gs" if "(k, e) \<in> set unc" for k e
        proof
          assume "k \<in> fillable gs"
          then obtain g r where g: "g \<in> set gs" "r \<in> set (grpFills g)" "k = refKey r" by (auto simp: fillable_def keysOf_def)
          then have "r \<in> set (coversOf unc g)" using that by (force simp: coversOf_keys)
          then have "(g, coversOf unc g) \<in> set (scoredLines unc gs)" using g(1) by (auto simp: scoredLines_set)
          then show False using Nil by simp
        qed
        then have "fst ` set unc \<inter> fillable gs = {}" "filter (\<lambda>(k, e). k \<notin> fillable gs) unc = unc"
          by (auto intro!: filter_True)
        then show ?thesis using Nil False by (intro exI [of _ "[]"]) (subst (1 2) planLoop.simps, simp)
      next
        case (Cons x rest)
        obtain g covers where x: "x = (g, covers)" by fastforce
        note head = scoredLines_head [OF Cons [unfolded x]]
        let ?unc = "withoutCovered unc covers"
        have loop: "planLoop gs unc steps = planLoop gs ?unc (steps @ [stepFor g covers])"
          using False Cons x by (subst planLoop.simps) simp
        have keys: "fst ` set ?unc = fst ` set unc - keysOf covers"
          by (force simp: withoutCovered_filter keysOf_def)
        have "distinct (map fst ?unc)" using "1.prems" by (simp add: withoutCovered_filter distinct_map_filter)
        then obtain new where new: "fst (planLoop gs ?unc (steps @ [stepFor g covers])) = (steps @ [stepFor g covers]) @ new"
          "greedy gs (fst ` set ?unc) new" "length new \<le> length ?unc"
          "snd (planLoop gs ?unc (steps @ [stepFor g covers])) = map snd (filter (\<lambda>(k, e). k \<notin> fillable gs) ?unc)"
          using "1.IH" [OF False Cons x [symmetric]] x by auto
        have "keysOf covers \<subseteq> fillable gs" using head(1,2) by (auto simp: fillable_def keysOf_def coversOf_keys)
        then have "filter (\<lambda>(k, e). k \<notin> fillable gs) ?unc = filter (\<lambda>(k, e). k \<notin> fillable gs) unc"
          by (auto simp: withoutCovered_filter keysOf_def split_beta intro!: filter_cong)
        moreover have "greedy gs (fst ` set unc) (stepFor g covers # new)"
          using head new(2) unfolding keys coversOf_filter by (auto simp: stepFor_covers)
        moreover have "length (stepFor g covers # new) \<le> length unc"
          using new(3) withoutCovered_shorter [OF Cons [unfolded x]] by simp
        ultimately show ?thesis using new(1,4) unfolding loop by (intro exI [of _ "stepFor g covers # new"]) simp
      qed
    qed
  qed
  then show ?thesis using that by blast
qed

lemma greedy_once:
  "greedy gs ks ss \<Longrightarrow> length (filter (\<lambda>s. k \<in> keysOf (stepCovers s)) ss) = (if k \<in> ks \<inter> fillable gs then 1 else 0)"
proof (induction gs ks ss rule: greedy.induct)
  case (2 gs ks s ss)
  then obtain g where "g \<in> set gs" "s = stepFor g (filter (\<lambda>e. refKey e \<in> ks) (grpFills g))" by auto
  then have "keysOf (stepCovers s) \<subseteq> ks \<inter> fillable gs" by (auto simp: keysOf_def fillable_def)
  then show ?case using 2 by auto
qed auto

lemma greedy_steps:
  "greedy gs ks ss \<Longrightarrow> s \<in> set ss \<Longrightarrow> \<exists>g \<in> set gs. s = stepFor g (stepCovers s) \<and> set (stepCovers s) \<subseteq> set (grpFills g) \<and> stepCovers s \<noteq> []"
proof (induction gs ks ss rule: greedy.induct)
  case (2 gs ks t ss)
  show ?case
  proof (cases "s = t")
    case True
    then obtain g where g: "g \<in> set gs" "s = stepFor g (filter (\<lambda>e. refKey e \<in> ks) (grpFills g))" using "2.prems"(1) by auto
    then have covers: "stepCovers s = filter (\<lambda>e. refKey e \<in> ks) (grpFills g)" by simp
    show ?thesis using g True "2.prems"(1) unfolding covers by (intro bexI [of _ g]) auto
  next
    case False
    then show ?thesis using 2 by simp
  qed
qed simp

lemma gapMap_spec:
  "distinct (map fst (gapMap es)) \<and> fst ` set (gapMap es) = keysOf es
   \<and> (\<forall>(k, e) \<in> set (gapMap es). k = refKey e \<and> e \<in> set es) \<and> length (gapMap es) \<le> length es"
proof (induction es rule: rev_induct)
  case (snoc e es)
  have step: "gapMap (es @ [e]) = AList.update (refKey e) e (gapMap es)" by (simp add: gapMap_def)
  have len: "length (AList.update k v al) \<le> Suc (length al)" and val: "set (AList.update k v al) \<subseteq> insert (k, v) (set al)"
    and key: "fst ` set (AList.update k v al) = insert k (fst ` set al)" for k v and al :: "(string \<times> EpisodeRef) list"
    by (induction al) auto
  have "distinct (map fst (gapMap (es @ [e])))" using snoc by (simp add: step distinct_update)
  moreover have "fst ` set (gapMap (es @ [e])) = keysOf (es @ [e])" using snoc by (simp add: step key keysOf_def)
  moreover have "\<forall>(k, f) \<in> set (gapMap (es @ [e])). k = refKey f \<and> f \<in> set (es @ [e])"
    using snoc val [of "refKey e" e "gapMap es"] unfolding step by auto
  moreover have "length (gapMap (es @ [e])) \<le> length (es @ [e])"
    using snoc len [of "refKey e" e "gapMap es"] unfolding step by simp
  ultimately show ?case by blast
qed (simp add: gapMap_def keysOf_def)

lemma fillsOf_sub: "set (fillsOf g es) \<subseteq> set es" and fillsOf_onTarget: "fillsOf g es \<noteq> [] \<Longrightarrow> \<not> grpOffTarget g"
  by (auto simp: fillsOf_def Let_def split: if_splits)

lemma withFills_fields [simp]:
  "grpCoverage (withFills cover g) = grpCoverage g" "grpOffTarget (withFills cover g) = grpOffTarget g"
  "grpKind (withFills cover g) = grpKind g" "grpReleases (withFills cover g) = grpReleases g"
  "grpFills (withFills cover g) = fillsOf g (missing cover)"
  by (simp_all add: withFills_def)

lemma fillsOf_withFills [simp]: "fillsOf (withFills cover g) es = fillsOf g es"
  by (simp only: fillsOf_def withFills_fields)

text \<open>What a search that answers is made of.\<close>

lemma search_shape:
  assumes "search env query item = Inr found"
  obtains asked isShow cover where "termsOf (catalogue env) item query = (asked, isShow)" "gaps found = missing cover"
    "suggestions found = orderSuggestions (peerCopiesOf cover item (introduced env))
       (map (withFills cover)
         (orderGroupsByPreference
           (groupReleases (map (markHeld (sizesHeld (catalogue env) item))
             (markOffTarget (case asking env asked isShow of Inl e \<Rightarrow> [] | Inr rows \<Rightarrow> List.map_filter (toRelease isShow) rows)
               asked (item \<noteq> None))))
           (snd (resolveReleasePreference (levels env)))))"
  using assms by (auto simp: search_def Let_def split: if_splits prod.splits)

lemma search_lines:
  assumes "search env query item = Inr found" "IndexerOffer g \<in> set (suggestions found)"
  shows "grpFills g = fillsOf g (gaps found)"
proof -
  obtain asked isShow cover ls where "gaps found = missing cover"
    "suggestions found = orderSuggestions (peerCopiesOf cover item (introduced env)) (map (withFills cover) ls)"
    by (rule search_shape [OF assms(1)])
  then show ?thesis using assms(2) by (auto simp: orderSuggestions_def)
qed

lemma planCandidates_set: "g \<in> set (planCandidates ss) \<longleftrightarrow> IndexerOffer g \<in> set ss \<and> grpFills g \<noteq> []"
  by (induction ss) (auto simp: planCandidates_def map_filter_def split: Suggestion.splits)


subsection \<open>One list\<close>

fun lineIn :: "Suggestion \<Rightarrow> ReleaseGroup option" where
  "lineIn (PeerOffer c) = None"
| "lineIn (IndexerOffer g) = Some g"

text \<open>An offer somebody would act on: what was asked for, not held, and closing a gap.\<close>

definition useful :: "Suggestion \<Rightarrow> bool" where
  "useful s \<longleftrightarrow> \<not> isOffTarget s \<and> \<not> bringsNothing s \<and> 0 < gapsOf s"

lemma gapsOf_nonneg: "0 \<le> gapsOf s"
  by (cases s) simp_all

lemma orderSuggestions_sorted: "sorted_wrt (\<lambda>l r. suggestionOrder l r \<le> 0) (orderSuggestions cs gs)"
  using shown.ordered_sortBy by (simp add: orderedBy_def orderSuggestions_def)


subsection \<open>Nothing is hidden\<close>

lemma marked_ids: "map relId (map (markHeld sizes) (markOffTarget rs asked ofMedia)) = map relId rs"
  by (simp add: markOffTarget_def markHeld_def Let_def)

lemma marked_asRead:
  assumes "list_all asRead rs"
  shows "list_all asRead (map (markHeld sizes) (markOffTarget rs asked ofMedia))"
  using assms by (auto simp: list_all_iff markOffTarget_def markHeld_def asRead_def Let_def)

lemma linesIn_orderSuggestions:
  "mset (List.map_filter lineIn (orderSuggestions cs gs)) = mset gs"
proof -
  have "List.map_filter lineIn xs = map the (filter (\<lambda>x. x \<noteq> None) (map lineIn xs))" for xs
    by (induction xs) (auto simp: map_filter_def)
  then have "mset (List.map_filter lineIn xs) = image_mset the (filter_mset (\<lambda>x. x \<noteq> None) (image_mset lineIn (mset xs)))" for xs
    by (metis mset_filter mset_map)
  then have "mset (List.map_filter lineIn (orderSuggestions cs gs))
      = mset (List.map_filter lineIn (map PeerOffer (sortBy comparePeerCopies cs) @ map IndexerOffer gs))"
    by (simp add: orderSuggestions_def)
  also have "List.map_filter lineIn (map PeerOffer xs @ map IndexerOffer gs) = gs" for xs
    by (induction xs) (auto simp: map_filter_def comp_def)
  finally show ?thesis by simp
qed

lemma copies_of_ordered:
  "mset (concat (map grpReleases (orderGroupsByPreference ls preference))) = mset (concat (map grpReleases ls))"
proof -
  have copies: "mset (grpReleases (orderCopies preference g)) = mset (grpReleases g)" for g
    by (simp add: orderCopies_def sorted_by_preference Let_def)
  have "mset (concat (map grpReleases (orderGroupsByPreference ls preference)))
      = (\<Sum>g\<in>#mset ls. mset (grpReleases (orderCopies preference g)))"
    by (simp add: mset_concat_image orderGroupsByPreference_def multiset.map_comp comp_def del: mset_concat)
  also have "\<dots> = mset (concat (map grpReleases ls))" by (simp only: copies mset_concat_image)
  finally show ?thesis .
qed


subsection \<open>Where the list and the plan differ from what is meant\<close>

text \<open>A line that is held already fills as much as one that is not, and is a candidate of the plan.\<close>

lemma fillsOf_ignores_held: "fillsOf (g\<lparr>grpHeld := b\<rparr>) es = fillsOf g es"
  by (simp add: fillsOf_def)

lemma held_lines_are_candidates:
  "IndexerOffer g \<in> set ss \<Longrightarrow> grpHeld g \<Longrightarrow> grpFills g \<noteq> [] \<Longrightarrow> g \<in> set (planCandidates ss)"
  by (simp add: planCandidates_set)

text \<open>Between two copies of connected servers the number of gaps decides before the distance.\<close>

definition copyFrom :: "MediaOrigin \<Rightarrow> EpisodeRef list \<Rightarrow> PeerCopy" where
  "copyFrom origin es =
     \<lparr>copyId = [], copyItems = [], copyTitle = [], copyService = [], copyServiceName = [], copyPeer = None, copyPeerName = None,
      copyOrigin = origin, copySeason = None, copyEpisode = None, copySize = None, copyQuality = None, copyPath = None, copyFills = es\<rparr>"

lemma farther_copy_first:
  assumes "length es < length fs" "es \<noteq> []"
  shows "comparePeerCopies (copyFrom DIRECT es) (copyFrom FRIEND_OF_FRIEND fs) < 0
    \<and> orderSuggestions [copyFrom DIRECT es, copyFrom FRIEND_OF_FRIEND fs] []
      = [PeerOffer (copyFrom FRIEND_OF_FRIEND fs), PeerOffer (copyFrom DIRECT es)]"
  using assms
  by (auto simp: comparePeerCopies_def copyFrom_def orderSuggestions_def suggestionOrder_def thenBy_def ofBool_def coversNoGap_def)

subsection \<open>A search, end to end\<close>

text \<open>One episode of a show is missing; the indexer answers the episode, twice, and another show.\<close>

definition xShow :: CatalogueRow where
  "xShow = \<lparr>rowId = ''s'', rowParent = None, rowName = ''Zed'', rowKind = SERIES, rowSeason = None, rowEpisode = None, rowFileSize = None\<rparr>"

definition xEpisode :: EpisodeRef where
  "xEpisode = \<lparr>refItem = ''e'', refSeason = Some 1, refEpisode = Some 1, refTitle = ''One''\<rparr>"

definition xEnv :: SearchEnv where
  "xEnv =
     \<lparr>catalogue = [xShow], configured = True,
      asking = (\<lambda>q b. Inr [listing ''Zed.S01E01-GRP'' ''A'' 9, listing ''zed.s01e01-GRP'' ''B'' 2, listing ''Other.S01E01-GRP'' ''A'' 50]),
      underMedia = (\<lambda>i. \<lparr>missing = [xEpisode], known = [''1:1''], holdings = []\<rparr>),
      levels = \<lparr>levelGlobal = Some trackerB, levelCategory = None, levelMedia = None\<rparr>, introduced = {}\<rparr>"

definition xQuery :: SearchQuery where
  "xQuery = \<lparr>askedTerm = None, askedSeason = None, askedEpisode = None, askedPack = False, askedShow = None\<rparr>"

lemma xSearch_answers: "\<not> isl (search xEnv xQuery (Some xShow))"
  by code_simp

definition xFound :: SearchResult where
  "xFound = projr (search xEnv xQuery (Some xShow))"

lemma xSearch: "search xEnv xQuery (Some xShow) = Inr xFound"
  using xSearch_answers by (simp add: xFound_def sum.collapse)

lemma xPlan: "plan xEnv xQuery (Some xShow) = Inr ([\<lparr>stepRelease = ''B:zed.s01e01-GRP'', stepTitle = ''Zed.S01E01-GRP'',
    stepKind = EPISODE_RELEASE, stepSize = None, stepSeeders = Some 11, stepCovers = [xEpisode], stepPartial = False\<rparr>], [])"
  by code_simp




subsection \<open>Offers of connected servers\<close>

text \<open>What an offer folds: gaps of one season that one service holds, none of them twice, never a copy of ours.\<close>

definition soundFold :: "SuggestionHolding list \<Rightarrow> string \<Rightarrow> CopyFold \<Rightarrow> bool" where
  "soundFold hs key f \<longleftrightarrow>
     foldFills f \<noteq> [] \<and> distinct (map refItem (foldFills f)) \<and> length (foldItems f) = length (foldFills f)
     \<and> (\<forall>e \<in> set (foldFills f). \<exists>h \<in> set hs. \<exists>s \<in> set (holdSources h).
          holdRef h = e \<and> \<not> srcLocal s \<and> key = srcService s @ '':'' @ showOr (refSeason e))"

definition soundFolds :: "SuggestionHolding list \<Rightarrow> (string \<times> CopyFold) list \<Rightarrow> bool" where
  "soundFolds hs fs \<longleftrightarrow> distinct (map fst fs) \<and> (\<forall>(key, f) \<in> set fs. soundFold hs key f)"

lemma soundFolds_update:
  assumes "soundFolds hs fs" "soundFold hs key f"
  shows "soundFolds hs (AList.update key f fs)"
proof -
  have "set (AList.update key f al) \<subseteq> insert (key, f) (set al)" for al :: "(string \<times> CopyFold) list"
    by (induction al) auto
  then show ?thesis using assms by (fastforce simp: soundFolds_def distinct_update)
qed

lemma soundFolds_addSource:
  assumes "soundFolds hs fs" "h \<in> set hs" "s \<in> set (holdSources h)"
  shows "soundFolds hs (addSource (holdRef h) fs s)"
proof (cases "srcLocal s")
  case True
  then show ?thesis using assms(1) by (simp add: addSource_def)
next
  case False
  let ?ref = "holdRef h" and ?key = "srcService s @ '':'' @ showOr (refSeason (holdRef h))"
  have new: "\<exists>g \<in> set hs. \<exists>t \<in> set (holdSources g). holdRef g = ?ref \<and> \<not> srcLocal t \<and> ?key = srcService t @ '':'' @ showOr (refSeason ?ref)"
    using False assms(2,3) by blast
  show ?thesis
  proof (cases "map_of fs ?key")
    case None
    have "soundFold hs ?key \<lparr>foldSource = s, foldFills = [?ref], foldItems = [srcItem s], foldQualities = [srcQuality s]\<rparr>"
      using new by (simp add: soundFold_def)
    then show ?thesis using None False soundFolds_update [OF assms(1)] by (simp add: addSource_def Let_def)
  next
    case (Some f)
    then have f: "soundFold hs ?key f" using assms(1) map_of_SomeD by (fastforce simp: soundFolds_def)
    show ?thesis
    proof (cases "list_ex (\<lambda>e. refItem e = refItem ?ref) (foldFills f)")
      case True
      then show ?thesis using Some False assms(1) by (simp add: addSource_def Let_def)
    next
      case no: False
      have "soundFold hs ?key
          (f\<lparr>foldFills := foldFills f @ [?ref], foldItems := foldItems f @ [srcItem s], foldQualities := foldQualities f @ [srcQuality s]\<rparr>)"
        using f new no unfolding soundFold_def by (auto simp: list_ex_iff)
      then show ?thesis using Some False no soundFolds_update [OF assms(1)] by (simp add: addSource_def Let_def)
    qed
  qed
qed

lemma soundFolds_sources:
  assumes "soundFolds hs fs" "h \<in> set hs" "set ss \<subseteq> set (holdSources h)"
  shows "soundFolds hs (foldl (addSource (holdRef h)) fs ss)"
  using assms(1,3)
proof (induction ss arbitrary: fs)
  case (Cons s ss)
  then show ?case using soundFolds_addSource [OF Cons.prems(1) assms(2), of s] by simp
qed simp

lemma soundFolds_all:
  assumes "soundFolds hs fs" "set gs \<subseteq> set hs"
  shows "soundFolds hs (foldl (\<lambda>fs h. foldl (addSource (holdRef h)) fs (holdSources h)) fs gs)"
  using assms
proof (induction gs arbitrary: fs)
  case (Cons h gs)
  then show ?case using soundFolds_sources [OF Cons.prems(1), of h "holdSources h"] by simp
qed simp

lemma offers_are_of_one_service_and_season:
  assumes "c \<in> set (copiesFor hs whole fofs)"
  shows "copyFills c \<noteq> [] \<and> distinct (map refItem (copyFills c)) \<and> length (copyItems c) = length (copyFills c)
    \<and> (\<exists>key. \<forall>e \<in> set (copyFills c). \<exists>h \<in> set hs. \<exists>s \<in> set (holdSources h).
          holdRef h = e \<and> \<not> srcLocal s \<and> key = srcService s @ '':'' @ showOr (refSeason e))"
proof -
  have "soundFolds hs (foldl (\<lambda>fs h. foldl (addSource (holdRef h)) fs (holdSources h)) [] hs)"
    by (rule soundFolds_all) (simp_all add: soundFolds_def)
  then obtain key f where "soundFold hs key f" "c = peerCopy whole fofs f"
    using assms by (auto simp: copiesFor_def soundFolds_def)
  moreover have "copyFills (peerCopy whole fofs f) = foldFills f" "copyItems (peerCopy whole fofs f) = foldItems f"
    by (simp_all add: peerCopy_def Let_def)
  ultimately show ?thesis unfolding soundFold_def by metis
qed

end
