(* ===== verification/Swarm.thy ===== *)
theory Swarm
  imports Chunk_Planner Js_Sort
begin

text \<open>
  Several peers feeding one file: \<open>packages/api/src/services/transport/swarm.transport.ts\<close>. The link to
  a peer is an argument, the \<open>SwarmWire\<close> of the code: whether a peer may be asked, which pieces it says it
  holds, and whether it opens a stream for a piece. Of a holder only the fields the transport decides with
  are kept; its name, size and trust go to the log or are not read. Between two awaits the code runs alone, so a fetch is
  a sequence of the steps \<open>ask\<close> and \<open>refuseAsk\<close>, and what happens to an open stream is \<open>streamEnd\<close> or
  \<open>streamError\<close>; steps of different fetches interleave freely. Rates are rationals.
\<close>

subsection \<open>Data\<close>

definition PIPELINE_DEPTH :: int where "PIPELINE_DEPTH = 4"
definition FAILURE_LIMIT :: int where "FAILURE_LIMIT = 3"
definition MIB :: int where "MIB = 1024 * 1024"

record ContentHolder =
  heldBy :: string
  holderService :: string
  holderItem :: string
  hops :: int

record SwarmPeer =
  holder :: ContentHolder
  pieces :: "int set"
  outstanding :: int
  peerFailures :: int
  peerRate :: rat

record SwarmSession =
  swContent :: string
  pieceLength :: int
  pieceCount :: int
  swBytes :: "int option"
  peers :: "(string \<times> SwarmPeer) list"
  deliveredPieces :: "int set"

record SwarmSource =
  sourceContent :: "string option"
  sourceItem :: string
  sizeHint :: "int option"
  swarmHolders :: "ContentHolder list option"

record SwarmWire =
  mayAsk :: "ContentHolder \<Rightarrow> bool"
  bitfield :: "ContentHolder \<Rightarrow> string \<Rightarrow> int \<Rightarrow> int list option"
  opensPiece :: "ContentHolder \<Rightarrow> string \<Rightarrow> int \<Rightarrow> int \<Rightarrow> int \<Rightarrow> bool"

record SwarmCapabilities =
  swarmResumes :: bool
  capBytes :: "int option"
  swarmConnections :: nat

datatype SwarmError = NeedsContentId | NoSource | NotPrepared | NobodyHolds int

text \<open>
  The wire there is: a peer may be asked when it advertised the swarm, and a request that fails or
  answers no pieces is the answer \<open>null\<close>.
\<close>

definition linkBitfield :: "(int list option) option \<Rightarrow> int list option" where
  "linkBitfield answer = (case answer of None \<Rightarrow> None | Some ps \<Rightarrow> ps)"

definition linkWire ::
  "(string \<Rightarrow> bool) \<Rightarrow> (string \<Rightarrow> string \<Rightarrow> int \<Rightarrow> int list option option) \<Rightarrow> (ContentHolder \<Rightarrow> string \<Rightarrow> int \<Rightarrow> int \<Rightarrow> int \<Rightarrow> bool) \<Rightarrow> SwarmWire" where
  "linkWire supports request openStream =
     \<lparr>mayAsk = (\<lambda>p. supports (heldBy p)),
      bitfield = (\<lambda>p content n. linkBitfield (request (heldBy p) content n)),
      opensPiece = openStream\<rparr>"

subsection \<open>Preparing a session\<close>

definition sessionKey :: "SwarmSource \<Rightarrow> string" where
  "sessionKey source = (case sourceContent source of None \<Rightarrow> sourceItem source | Some c \<Rightarrow> c)"

definition pieceLengthFor :: "int \<Rightarrow> int" where
  "pieceLengthFor n = (if 32 * 1024 * MIB < n then 16 * MIB else if 8 * 1024 * MIB < n then 8 * MIB else 4 * MIB)"

definition hinted :: "SwarmSource \<Rightarrow> int option" where
  "hinted source = (case sizeHint source of None \<Rightarrow> None | Some n \<Rightarrow> if n = 0 then None else Some n)"

definition newPeer :: "SwarmWire \<Rightarrow> string \<Rightarrow> int \<Rightarrow> ContentHolder \<Rightarrow> SwarmPeer" where
  "newPeer wire content pieceTotal h =
     \<lparr>holder = h,
      pieces = set (case bitfield wire h content pieceTotal of None \<Rightarrow> [0..pieceTotal - 1] | Some ps \<Rightarrow> ps),
      outstanding = 0, peerFailures = 0, peerRate = 0\<rparr>"

text \<open>
  The holders are asked at once and entered as their answers come in: \<open>arriving\<close> is the list put into
  that order.
\<close>

definition offered :: "SwarmSource \<Rightarrow> ContentHolder list" where
  "offered source = (case swarmHolders source of None \<Rightarrow> [] | Some hs \<Rightarrow> hs)"

definition prepareSwarm ::
  "SwarmWire \<Rightarrow> (ContentHolder list \<Rightarrow> ContentHolder list) \<Rightarrow> SwarmSource \<Rightarrow> (string \<times> SwarmSession) list \<Rightarrow>
    (string \<times> SwarmSession) list \<times> (SwarmError + SwarmCapabilities)" where
  "prepareSwarm wire arriving source sessions =
     (case sourceContent source of
        None \<Rightarrow> (sessions, Inl NeedsContentId)
      | Some content \<Rightarrow>
          if content = [] then (sessions, Inl NeedsContentId)
          else
            let len = (case hinted source of None \<Rightarrow> 4 * MIB | Some n \<Rightarrow> pieceLengthFor n);
                pieceTotal = (case hinted source of None \<Rightarrow> 0 | Some n \<Rightarrow> ceil_div n len);
                ps = foldl (\<lambda>ps h. AList.update (heldBy h) (newPeer wire content pieceTotal h) ps) []
                       (arriving (filter (mayAsk wire) (offered source)));
                session = \<lparr>swContent = content, pieceLength = len, pieceCount = pieceTotal, swBytes = sizeHint source, peers = ps, deliveredPieces = {}\<rparr>;
                sessions' = AList.update (sessionKey source) session sessions
            in if ps = [] then (sessions', Inl NoSource)
               else (sessions', Inr \<lparr>swarmResumes = True, capBytes = sizeHint source, swarmConnections = length ps\<rparr>))"

definition releaseSource :: "SwarmSource \<Rightarrow> (string \<times> SwarmSession) list \<Rightarrow> (string \<times> SwarmSession) list" where
  "releaseSource source sessions = AList.delete (sessionKey source) sessions"

subsection \<open>Picking a peer\<close>

definition pickOrder :: "SwarmPeer comparing" where
  "pickOrder l r =
     thenBy (ofBool (peerRate l \<noteq> 0) - ofBool (peerRate r \<noteq> 0))
       (thenBy (numDiff (peerRate r) (peerRate l)) (hops (holder l) - hops (holder r)))"

definition eligible :: "int \<Rightarrow> SwarmPeer \<Rightarrow> bool" where
  "eligible piece p \<longleftrightarrow> outstanding p < PIPELINE_DEPTH \<and> (pieces p = {} \<or> piece \<in> pieces p)"

definition pick :: "SwarmSession \<Rightarrow> int \<Rightarrow> string set \<Rightarrow> SwarmPeer option" where
  "pick session piece attempted =
     (case sortBy pickOrder
             (filter (\<lambda>p. heldBy (holder p) \<notin> attempted \<and> eligible piece p) (map snd (peers session))) of
        [] \<Rightarrow> None
      | p # ps \<Rightarrow> Some p)"

subsection \<open>Fetching a piece\<close>

definition onPeer :: "string \<Rightarrow> (SwarmPeer \<Rightarrow> SwarmPeer) \<Rightarrow> SwarmSession \<Rightarrow> SwarmSession" where
  "onPeer i f session =
     (case map_of (peers session) i of None \<Rightarrow> session | Some p \<Rightarrow> session\<lparr>peers := AList.update i (f p) (peers session)\<rparr>)"

definition ask :: "string \<Rightarrow> SwarmSession \<Rightarrow> SwarmSession" where
  "ask i = onPeer i (\<lambda>p. p\<lparr>outstanding := outstanding p + 1\<rparr>)"

definition failedPeer :: "SwarmPeer \<Rightarrow> SwarmPeer" where
  "failedPeer p = p\<lparr>outstanding := max 0 (outstanding p - 1), peerFailures := peerFailures p + 1\<rparr>"

definition refuseAsk :: "string \<Rightarrow> SwarmSession \<Rightarrow> SwarmSession" where
  "refuseAsk i session =
     (let s = onPeer i failedPeer session in
      case map_of (peers s) i of
        None \<Rightarrow> s
      | Some p \<Rightarrow> if FAILURE_LIMIT \<le> peerFailures p then s\<lparr>peers := AList.delete i (peers s)\<rparr> else s)"

definition streamError :: "string \<Rightarrow> SwarmSession \<Rightarrow> SwarmSession" where
  "streamError i = onPeer i failedPeer"

definition streamEnd :: "string \<Rightarrow> int \<Rightarrow> int \<Rightarrow> int \<Rightarrow> SwarmSession \<Rightarrow> SwarmSession" where
  "streamEnd i piece bytes elapsed session =
     (let s = onPeer i (\<lambda>p. p\<lparr>peerRate := of_int bytes / of_int (max 1 elapsed) * 1000,
                              outstanding := max 0 (outstanding p - 1), peerFailures := 0\<rparr>) session
      in s\<lparr>deliveredPieces := insert piece (deliveredPieces s)\<rparr>)"

definition pieceIndexFor :: "SwarmSession \<Rightarrow> int \<Rightarrow> int option \<Rightarrow> int" where
  "pieceIndexFor session start chunkIndex = (case chunkIndex of None \<Rightarrow> start div pieceLength session | Some k \<Rightarrow> k)"

definition peerIds :: "SwarmSession \<Rightarrow> string list" where
  "peerIds s = map (\<lambda>(k, p). heldBy (holder p)) (peers s)"

lemma map_update_same_image:
  "map_of al k = Some p \<Longrightarrow> h (k, v) = h (k, p) \<Longrightarrow> map h (AList.update k v al) = map h al"
  by (induction al) auto

lemma peerIds_onPeer: "(\<And>p. holder (f p) = holder p) \<Longrightarrow> peerIds (onPeer i f s) = peerIds s"
  by (auto simp: onPeer_def peerIds_def intro!: map_update_same_image split: option.split)

lemma peerIds_ask [simp]: "peerIds (ask i s) = peerIds s"
  by (simp add: ask_def peerIds_onPeer)

lemma set_peerIds_refuse: "length (filter P (peerIds (refuseAsk i s))) \<le> length (filter P (peerIds s))"
proof -
  have same: "peerIds (onPeer i failedPeer s) = peerIds s" by (rule peerIds_onPeer) (simp add: failedPeer_def)
  have "length (filter P (map h (AList.delete i al))) \<le> length (filter P (map h al))" for h and al :: "(string \<times> SwarmPeer) list"
    by (induction al) (auto simp: AList.delete_eq)
  then have "length (filter P (peerIds (onPeer i failedPeer s\<lparr>peers := AList.delete i (peers (onPeer i failedPeer s))\<rparr>))) \<le> length (filter P (peerIds s))"
    using same by (metis (no_types, lifting) peerIds_def SwarmSession.select_convs(5) SwarmSession.surjective SwarmSession.update_convs(5))
  then show ?thesis using same by (auto simp: refuseAsk_def Let_def split: option.split)
qed

lemma pick_untried: "pick s piece attempted = Some p \<Longrightarrow> heldBy (holder p) \<in> set (peerIds s) \<and> heldBy (holder p) \<notin> attempted"
proof -
  let ?xs = "filter (\<lambda>p. heldBy (holder p) \<notin> attempted \<and> eligible piece p) (map snd (peers s))"
  assume "pick s piece attempted = Some p"
  then have "p \<in> set (sortBy pickOrder ?xs)" unfolding pick_def by (cases "sortBy pickOrder ?xs") auto
  then show ?thesis by (force simp: peerIds_def)
qed

text \<open>
  The loop of a fetch that nothing else interrupts: the peer whose stream was opened, or that nobody is
  left to ask.
\<close>

function fetchLoop ::
  "SwarmWire \<Rightarrow> int \<Rightarrow> int \<Rightarrow> int \<Rightarrow> string set \<Rightarrow> SwarmSession \<Rightarrow> SwarmSession \<times> (SwarmError + string)" where
  "fetchLoop wire start end piece attempted s =
     (case pick s piece attempted of
        None \<Rightarrow> (s, Inl (NobodyHolds piece))
      | Some p \<Rightarrow>
          if opensPiece wire (holder p) (swContent s) piece start end
          then (ask (heldBy (holder p)) s, Inr (heldBy (holder p)))
          else fetchLoop wire start end piece (insert (heldBy (holder p)) attempted)
                 (refuseAsk (heldBy (holder p)) (ask (heldBy (holder p)) s)))"
  by pat_completeness auto
termination
proof (relation "measure (\<lambda>(wire, start, end, piece, attempted, s). length (filter (\<lambda>i. i \<notin> attempted) (peerIds s)))", goal_cases)
  case (2 wire start "end" piece attempted s p)
  let ?i = "heldBy (holder p)"
  have i: "?i \<in> set (peerIds s)" "?i \<notin> attempted" using pick_untried [OF 2(1)] by simp_all
  have "length (filter (\<lambda>j. j \<notin> insert ?i attempted) (peerIds (refuseAsk ?i (ask ?i s))))
      \<le> length (filter (\<lambda>j. j \<notin> insert ?i attempted) (peerIds s))"
    using set_peerIds_refuse [of _ ?i "ask ?i s"] by simp
  also have "\<dots> = length (filter (\<lambda>j. j \<noteq> ?i) (filter (\<lambda>j. j \<notin> attempted) (peerIds s)))" by (simp add: conj_commute)
  also have "\<dots> < length (filter (\<lambda>j. j \<notin> attempted) (peerIds s))"
    by (rule length_filter_less [of ?i]) (use i in simp_all)
  finally show ?case by simp
qed simp

declare fetchLoop.simps [simp del]

definition fetchPiece ::
  "SwarmWire \<Rightarrow> SwarmSource \<Rightarrow> int \<Rightarrow> int \<Rightarrow> int option \<Rightarrow> (string \<times> SwarmSession) list \<Rightarrow> (string \<times> SwarmSession) list \<times> (SwarmError + string)" where
  "fetchPiece wire source start end chunkIndex sessions =
     (case map_of sessions (sessionKey source) of
        None \<Rightarrow> (sessions, Inl NotPrepared)
      | Some s \<Rightarrow>
          let (s', r) = fetchLoop wire start end (pieceIndexFor s start chunkIndex) {} s
          in (AList.update (sessionKey source) s' sessions, r))"

subsection \<open>Rarest first\<close>

definition holdersOf :: "SwarmSession \<Rightarrow> int \<Rightarrow> int" where
  "holdersOf s piece = int (length (filter (\<lambda>(k, p). piece \<in> pieces p) (peers s)))"

definition rarestOrder :: "SwarmSession \<Rightarrow> int comparing" where
  "rarestOrder s l r =
     (if holdersOf s l = 0 \<or> holdersOf s r = 0 then holdersOf s r - holdersOf s l
      else thenBy (holdersOf s l - holdersOf s r) (l - r))"

definition rarestFirst :: "SwarmSession \<Rightarrow> int list \<Rightarrow> int list" where
  "rarestFirst s wanted = sortBy (rarestOrder s) wanted"

interpretation picks: consistent_order pickOrder
  unfolding pickOrder_def [abs_def] by (intro consistent_comparators)

lemma holdersOf_nonneg: "0 \<le> holdersOf s piece"
  by (simp add: holdersOf_def)

interpretation rarest: consistent_order "rarestOrder s" for s
proof
  show "rarestOrder s y x \<le> 0 \<longleftrightarrow> 0 \<le> rarestOrder s x y" for x y
    by (auto simp: rarestOrder_def thenBy_def)
  show "rarestOrder s x z \<le> 0" if "rarestOrder s x y \<le> 0" "rarestOrder s y z \<le> 0" for x y z
    using that holdersOf_nonneg [of s x] holdersOf_nonneg [of s y] holdersOf_nonneg [of s z]
    by (auto simp: rarestOrder_def thenBy_def split: if_splits)
qed

lemma rarest_first_order:
  "mset (rarestFirst s wanted) = mset wanted"
  "sorted_wrt (\<lambda>l r. (holdersOf s l = 0 \<longrightarrow> holdersOf s r = 0) \<and> (0 < holdersOf s r \<longrightarrow> holdersOf s l \<le> holdersOf s r)) (rarestFirst s wanted)"
proof -
  show "mset (rarestFirst s wanted) = mset wanted" by (simp add: rarestFirst_def)
  have o: "sorted_wrt (\<lambda>l r. rarestOrder s l r \<le> 0) (rarestFirst s wanted)"
    using rarest.ordered_sortBy by (simp add: orderedBy_def rarestFirst_def)
  show "sorted_wrt (\<lambda>l r. (holdersOf s l = 0 \<longrightarrow> holdersOf s r = 0) \<and> (0 < holdersOf s r \<longrightarrow> holdersOf s l \<le> holdersOf s r)) (rarestFirst s wanted)"
  proof (rule sorted_wrt_mono_rel [OF _ o])
    fix l r
    show "rarestOrder s l r \<le> 0 \<Longrightarrow> (holdersOf s l = 0 \<longrightarrow> holdersOf s r = 0) \<and> (0 < holdersOf s r \<longrightarrow> holdersOf s l \<le> holdersOf s r)"
      using holdersOf_nonneg [of s l] holdersOf_nonneg [of s r] by (auto simp: rarestOrder_def thenBy_def split: if_splits)
  qed
qed

subsection \<open>Whom a fetch asks\<close>

definition wfSession :: "SwarmSession \<Rightarrow> bool" where
  "wfSession s \<longleftrightarrow> distinct (map fst (peers s)) \<and> (\<forall>(k, p) \<in> set (peers s). heldBy (holder p) = k \<and> 0 \<le> outstanding p)"

text \<open>The peers that may be asked for a piece, in the order they are asked.\<close>

definition askOrder :: "SwarmSession \<Rightarrow> int \<Rightarrow> string set \<Rightarrow> SwarmPeer list" where
  "askOrder s piece attempted =
     sortBy pickOrder (filter (\<lambda>p. heldBy (holder p) \<notin> attempted \<and> eligible piece p) (map snd (peers s)))"

lemma pick_askOrder: "pick s piece attempted = (case askOrder s piece attempted of [] \<Rightarrow> None | p # ps \<Rightarrow> Some p)"
  by (simp add: pick_def askOrder_def)

text \<open>A peer after it was asked and refused: gone when it failed often enough.\<close>

definition afterRefusal :: "SwarmPeer \<Rightarrow> SwarmPeer option" where
  "afterRefusal p = (if FAILURE_LIMIT \<le> peerFailures p + 1 then None else Some (p\<lparr>peerFailures := peerFailures p + 1\<rparr>))"

lemma map_of_ask:
  "map_of (peers (ask i s)) = (map_of (peers s))(i := map_option (\<lambda>p. p\<lparr>outstanding := outstanding p + 1\<rparr>) (map_of (peers s) i))"
  by (rule ext) (auto simp: ask_def onPeer_def update_conv split: option.split)

lemma map_of_refused:
  assumes "distinct (map fst (peers s))" "\<And>p. map_of (peers s) i = Some p \<Longrightarrow> 0 \<le> outstanding p"
  shows "map_of (peers (refuseAsk i (ask i s))) = (map_of (peers s))(i := Option.bind (map_of (peers s) i) afterRefusal)"
proof (cases "map_of (peers s) i")
  case None
  then show ?thesis by (auto simp: refuseAsk_def onPeer_def map_of_ask Let_def ask_def split: option.split)
next
  case (Some p)
  have undone: "failedPeer (p\<lparr>outstanding := outstanding p + 1\<rparr>) = p\<lparr>peerFailures := peerFailures p + 1\<rparr>"
    using assms(2) [OF Some] by (simp add: failedPeer_def)
  let ?s = "onPeer i failedPeer (ask i s)"
  have s: "map_of (peers ?s) = (map_of (peers s))(i \<mapsto> p\<lparr>peerFailures := peerFailures p + 1\<rparr>)"
    using Some undone by (auto simp: onPeer_def map_of_ask update_conv fun_eq_iff split: option.split)
  have delete: "map_of (AList.delete i al) = (map_of al)(i := None)" for al :: "(string \<times> SwarmPeer) list"
    by (rule ext) (simp add: delete_conv)
  show ?thesis using Some s by (auto simp: refuseAsk_def Let_def afterRefusal_def delete fun_eq_iff split: option.split)
qed

text \<open>Asking one peer leaves the others, and their places, alone.\<close>

lemma update_others:
  "map_of al k = Some p \<Longrightarrow> filter (\<lambda>(j, q). j \<noteq> k) (AList.update k v al) = filter (\<lambda>(j, q). j \<noteq> k) al"
  by (induction al) auto

lemma onPeer_others: "filter (\<lambda>(j, q). j \<noteq> i) (peers (onPeer i f s)) = filter (\<lambda>(j, q). j \<noteq> i) (peers s)"
  by (auto simp: onPeer_def update_others split: option.split)

lemma refused_others: "filter (\<lambda>(j, q). j \<noteq> i) (peers (refuseAsk i (ask i s))) = filter (\<lambda>(j, q). j \<noteq> i) (peers s)"
proof -
  have "filter (\<lambda>(j, q). j \<noteq> i) (AList.delete i al) = filter (\<lambda>(j, q). j \<noteq> i) al" for al :: "(string \<times> SwarmPeer) list"
    by (induction al) (auto simp: AList.delete_eq)
  then show ?thesis by (auto simp: refuseAsk_def ask_def Let_def onPeer_others split: option.split)
qed

lemma distinct_onPeer: "distinct (map fst (peers s)) \<Longrightarrow> distinct (map fst (peers (onPeer i f s)))"
  by (simp add: onPeer_def distinct_update split: option.split)

lemma wf_entry: "wfSession s \<Longrightarrow> map_of (peers s) i = Some p \<Longrightarrow> heldBy (holder p) = i \<and> 0 \<le> outstanding p"
  by (auto simp: wfSession_def dest!: map_of_SomeD)

lemma wf_from_map:
  assumes "distinct (map fst (peers s))" "\<And>k p. map_of (peers s) k = Some p \<Longrightarrow> heldBy (holder p) = k \<and> 0 \<le> outstanding p"
  shows "wfSession s"
  using assms by (auto simp: wfSession_def)

lemma wf_refused: "wfSession s \<Longrightarrow> wfSession (refuseAsk i (ask i s))"
proof -
  assume wf: "wfSession s"
  then have d: "distinct (map fst (peers s))" by (simp add: wfSession_def)
  have "distinct (map fst (peers (refuseAsk i (ask i s))))"
    using distinct_onPeer [OF distinct_onPeer [OF d, of i], of i]
    by (auto simp: refuseAsk_def ask_def Let_def distinct_delete split: option.split)
  moreover have "heldBy (holder p) = k \<and> 0 \<le> outstanding p" if "map_of (peers (refuseAsk i (ask i s))) k = Some p" for k p
  proof -
    have "map_of (peers (refuseAsk i (ask i s))) = (map_of (peers s))(i := Option.bind (map_of (peers s) i) afterRefusal)"
      by (rule map_of_refused [OF d]) (use wf_entry [OF wf] in blast)
    then show ?thesis using that wf_entry [OF wf]
      by (auto simp: afterRefusal_def split: if_splits option.splits bind_splits)
  qed
  ultimately show ?thesis by (rule wf_from_map)
qed

lemma askOrder_distinct:
  assumes "wfSession s"
  shows "distinct (map (heldBy \<circ> holder) (askOrder s piece attempted))"
proof -
  have "map (heldBy \<circ> holder \<circ> snd) (peers s) = map fst (peers s)" using assms by (auto simp: wfSession_def)
  then have "distinct (map (heldBy \<circ> holder \<circ> snd) (peers s))" using assms by (simp only: wfSession_def)
  then have "distinct (map (heldBy \<circ> holder) (map snd (peers s)))" by (simp add: comp_assoc)
  then have "distinct (map (heldBy \<circ> holder)
      (filter (\<lambda>p. heldBy (holder p) \<notin> attempted \<and> eligible piece p) (map snd (peers s))))" by (rule distinct_map_filter)
  moreover have "mset (map (heldBy \<circ> holder) (askOrder s piece attempted)) = mset (map (heldBy \<circ> holder)
      (filter (\<lambda>p. heldBy (holder p) \<notin> attempted \<and> eligible piece p) (map snd (peers s))))"
    by (simp only: askOrder_def mset_map mset_sortBy)
  ultimately show ?thesis using mset_eq_imp_distinct_iff by blast
qed

lemma askOrder_others:
  assumes "wfSession s" "askOrder s piece attempted = p # ps" "q \<in> set ps"
  shows "heldBy (holder q) \<noteq> heldBy (holder p)"
proof
  assume "heldBy (holder q) = heldBy (holder p)"
  then have "(heldBy \<circ> holder) p \<in> (heldBy \<circ> holder) ` set ps" using assms(3) by (intro image_eqI [of _ _ q]) simp_all
  then show False using askOrder_distinct [OF assms(1), of piece attempted] assms(2) by simp
qed

lemma askOrder_member:
  assumes "wfSession s" "p \<in> set (askOrder s piece attempted)"
  shows "map_of (peers s) (heldBy (holder p)) = Some p"
proof -
  obtain k where "(k, p) \<in> set (peers s)" using assms(2) by (auto simp: askOrder_def)
  then show ?thesis using assms(1) by (auto simp: wfSession_def)
qed

lemma askOrder_next:
  assumes "wfSession s" "askOrder s piece attempted = p # ps"
  shows "askOrder (refuseAsk (heldBy (holder p)) (ask (heldBy (holder p)) s)) piece (insert (heldBy (holder p)) attempted) = ps"
proof -
  let ?i = "heldBy (holder p)"
  let ?F = "\<lambda>q. heldBy (holder q) \<notin> attempted \<and> eligible piece q"
  have keyed: "filter (\<lambda>q. heldBy (holder q) \<noteq> ?i) (map snd al) = map snd (filter (\<lambda>(j, q). j \<noteq> ?i) al)"
    if "\<forall>(k, q) \<in> set al. heldBy (holder q) = k" for al
    using that by (induction al) auto
  have others: "filter (\<lambda>q. heldBy (holder q) \<noteq> ?i) (map snd (peers (refuseAsk ?i (ask ?i s))))
      = filter (\<lambda>q. heldBy (holder q) \<noteq> ?i) (map snd (peers s))"
    using assms(1) wf_refused [OF assms(1), of ?i] keyed [of "peers s"] keyed [of "peers (refuseAsk ?i (ask ?i s))"] refused_others [of ?i s]
    by (fastforce simp: wfSession_def)
  have split: "filter (\<lambda>q. heldBy (holder q) \<notin> insert ?i attempted \<and> eligible piece q) xs
      = filter ?F (filter (\<lambda>q. heldBy (holder q) \<noteq> ?i) xs)" for xs
    by (simp add: conj_ac)
  have swap: "filter ?F (filter (\<lambda>q. heldBy (holder q) \<noteq> ?i) xs) = filter (\<lambda>q. heldBy (holder q) \<noteq> ?i) (filter ?F xs)" for xs
    by (simp add: conj_ac)
  have "askOrder (refuseAsk ?i (ask ?i s)) piece (insert ?i attempted)
      = sortBy pickOrder (filter (\<lambda>q. heldBy (holder q) \<noteq> ?i) (filter ?F (map snd (peers s))))"
    unfolding askOrder_def split others swap ..
  also have "\<dots> = filter (\<lambda>q. heldBy (holder q) \<noteq> ?i) (askOrder s piece attempted)"
    by (simp only: picks.filter_sortBy askOrder_def)
  also have "\<dots> = ps" using askOrder_others [OF assms] by (simp add: assms(2))
  finally show ?thesis .
qed

definition willing :: "SwarmWire \<Rightarrow> string \<Rightarrow> int \<Rightarrow> int \<Rightarrow> int \<Rightarrow> SwarmPeer \<Rightarrow> bool" where
  "willing wire content piece start end p \<longleftrightarrow> opensPiece wire (holder p) content piece start end"

lemma swContent_refused [simp]: "swContent (refuseAsk i (ask i s)) = swContent s"
  by (simp add: refuseAsk_def ask_def onPeer_def Let_def split: option.split)

lemma fetchLoop_finds:
  assumes "wfSession s"
  shows "snd (fetchLoop wire start end piece attempted s)
    = (case List.find (willing wire (swContent s) piece start end) (askOrder s piece attempted) of
         None \<Rightarrow> Inl (NobodyHolds piece) | Some p \<Rightarrow> Inr (heldBy (holder p)))"
  using assms
proof (induction wire start "end" piece attempted s rule: fetchLoop.induct)
  case (1 wire start "end" piece attempted s)
  show ?case
  proof (cases "askOrder s piece attempted")
    case Nil
    then show ?thesis by (subst fetchLoop.simps) (simp add: pick_askOrder)
  next
    case (Cons p ps)
    then have pick: "pick s piece attempted = Some p" by (simp add: pick_askOrder)
    show ?thesis
    proof (cases "opensPiece wire (holder p) (swContent s) piece start end")
      case True
      then show ?thesis using Cons pick by (subst fetchLoop.simps) (simp add: willing_def [of wire _ piece start "end" p])
    next
      case False
      show ?thesis
        using 1(1) [OF pick False wf_refused [OF 1(2)]] askOrder_next [OF 1(2) Cons] False pick Cons
        by (subst fetchLoop.simps) (simp add: willing_def [of wire _ piece start "end" p])
    qed
  qed
qed

lemma fetchLoop_session:
  assumes "wfSession s"
  shows "map_of (peers (fst (fetchLoop wire start end piece attempted s))) k =
    (case map_of (peers s) k of
       None \<Rightarrow> None
     | Some p \<Rightarrow>
         if p \<in> set (takeWhile (\<lambda>p. \<not> willing wire (swContent s) piece start end p) (askOrder s piece attempted)) then afterRefusal p
         else if snd (fetchLoop wire start end piece attempted s) = Inr k then Some (p\<lparr>outstanding := outstanding p + 1\<rparr>)
         else Some p)"
  using assms
proof (induction wire start "end" piece attempted s rule: fetchLoop.induct)
  case (1 wire start "end" piece attempted s)
  show ?case
  proof (cases "askOrder s piece attempted")
    case Nil
    then show ?thesis by (subst (1 2) fetchLoop.simps) (simp add: pick_askOrder split: option.split)
  next
    case (Cons p ps)
    then have pick: "pick s piece attempted = Some p" by (simp add: pick_askOrder)
    let ?i = "heldBy (holder p)"
    have at: "map_of (peers s) ?i = Some p" by (rule askOrder_member [OF 1(2), of _ piece attempted]) (simp add: Cons)
    show ?thesis
    proof (cases "opensPiece wire (holder p) (swContent s) piece start end")
      case True
      then show ?thesis using Cons pick at
        by (subst (1 2) fetchLoop.simps) (auto simp: willing_def map_of_ask split: option.split)
    next
      case False
      let ?s = "refuseAsk ?i (ask ?i s)" and ?A = "insert ?i attempted"
      let ?r = "fetchLoop wire start end piece ?A ?s"
      have loop: "fetchLoop wire start end piece attempted s = ?r"
        using pick False by (subst fetchLoop.simps) simp
      have next': "askOrder ?s piece ?A = ps" by (rule askOrder_next [OF 1(2) Cons])
      have others: "heldBy (holder q) \<noteq> ?i" if "q \<in> set ps" for q
        by (rule askOrder_others [OF 1(2) Cons that])
      have IH: "map_of (peers (fst ?r)) k = (case map_of (peers ?s) k of None \<Rightarrow> None | Some q \<Rightarrow>
          if q \<in> set (takeWhile (\<lambda>p. \<not> willing wire (swContent s) piece start end p) ps) then afterRefusal q
          else if snd ?r = Inr k then Some (q\<lparr>outstanding := outstanding q + 1\<rparr>) else Some q)"
        using 1(1) [OF pick False wf_refused [OF 1(2)]] by (simp only: next' swContent_refused)
      have d: "distinct (map fst (peers s))" using 1(2) by (simp add: wfSession_def)
      have "map_of (peers ?s) = (map_of (peers s))(?i := Option.bind (map_of (peers s) ?i) afterRefusal)"
        by (rule map_of_refused [OF d]) (use wf_entry [OF 1(2)] in blast)
      then have upd: "map_of (peers ?s) = (map_of (peers s))(?i := afterRefusal p)" by (simp add: at)
      have no: "\<not> willing wire (swContent s) piece start end p" using False by (simp add: willing_def)
      show ?thesis
      proof (cases "k = ?i")
        case True
        have "snd ?r \<noteq> Inr ?i"
        proof (cases "List.find (willing wire (swContent s) piece start end) ps")
          case None
          then show ?thesis unfolding fetchLoop_finds [OF wf_refused [OF 1(2)]] next' by simp
        next
          case (Some q)
          then show ?thesis using others [of q] find_Some_in [OF Some]
            unfolding fetchLoop_finds [OF wf_refused [OF 1(2)]] next' by simp
        qed
        moreover have "q \<notin> set (takeWhile P ps)" if "afterRefusal p = Some q" for q P
          using others [of q] that by (auto simp: afterRefusal_def dest: set_takeWhileD split: if_splits)
        ultimately have "map_of (peers (fst ?r)) k = afterRefusal p"
          unfolding IH unfolding upd by (auto simp: True split: option.split)
        then show ?thesis unfolding loop Cons True by (simp add: at no)
      next
        case other: False
        have "q \<noteq> p" if "map_of (peers s) k = Some q" for q
          using wf_entry [OF 1(2) that] other by auto
        then show ?thesis unfolding loop Cons IH upd using other no by (auto split: option.split)
      qed
    qed
  qed
qed

subsection \<open>A prepared session\<close>

definition preparedPeers :: "SwarmWire \<Rightarrow> string \<Rightarrow> int \<Rightarrow> ContentHolder list \<Rightarrow> (string \<times> SwarmPeer) list" where
  "preparedPeers wire content pieceTotal arrivals =
     foldl (\<lambda>ps h. AList.update (heldBy h) (newPeer wire content pieceTotal h) ps) [] arrivals"

lemma preparedPeers_sound:
  "distinct (map fst (preparedPeers wire content pieceTotal arrivals))
   \<and> (\<forall>(k, p) \<in> set (preparedPeers wire content pieceTotal arrivals).
        \<exists>h \<in> set arrivals. k = heldBy h \<and> p = newPeer wire content pieceTotal h)"
proof -
  have "distinct (map fst (foldl (\<lambda>ps h. AList.update (heldBy h) (newPeer wire content pieceTotal h) ps) ps hs))
      \<and> (\<forall>(k, p) \<in> set (foldl (\<lambda>ps h. AList.update (heldBy h) (newPeer wire content pieceTotal h) ps) ps hs).
           (k, p) \<in> set ps \<or> (\<exists>h \<in> set hs. k = heldBy h \<and> p = newPeer wire content pieceTotal h))"
    if "distinct (map fst ps)" for ps hs
    using that
  proof (induction hs arbitrary: ps)
    case (Cons h hs)
    have "set (AList.update k v al) \<subseteq> insert (k, v) (set al)" for k v and al :: "(string \<times> SwarmPeer) list"
      by (induction al) auto
    then show ?case using Cons.IH [of "AList.update (heldBy h) (newPeer wire content pieceTotal h) ps"] Cons.prems
      by (fastforce simp: distinct_update)
  qed simp
  from this [of "[]" arrivals] show ?thesis by (fastforce simp: preparedPeers_def)
qed

lemma prepared_session:
  assumes "prepareSwarm wire arriving source sessions = (sessions', Inr capabilities)"
  obtains content s where "sourceContent source = Some content" "map_of sessions' (sessionKey source) = Some s"
    "peers s = preparedPeers wire content (pieceCount s) (arriving (filter (mayAsk wire) (offered source)))" "peers s \<noteq> []" "wfSession s" "swContent s = content"
proof -
  obtain content where c: "sourceContent source = Some content" "content \<noteq> []"
    using assms by (auto simp: prepareSwarm_def split: option.splits if_splits)
  define len where "len = (case hinted source of None \<Rightarrow> 4 * MIB | Some n \<Rightarrow> pieceLengthFor n)"
  define pieceTotal where "pieceTotal = (case hinted source of None \<Rightarrow> 0 | Some n \<Rightarrow> ceil_div n len)"
  let ?s = "\<lparr>swContent = content, pieceLength = len, pieceCount = pieceTotal, swBytes = sizeHint source,
    peers = preparedPeers wire content pieceTotal (arriving (filter (mayAsk wire) (offered source))), deliveredPieces = {}\<rparr>"
  have "sessions' = AList.update (sessionKey source) ?s sessions" "peers ?s \<noteq> []"
    using assms c unfolding prepareSwarm_def Let_def len_def [symmetric] pieceTotal_def [symmetric] preparedPeers_def [symmetric]
    by (auto split: if_splits)
  moreover have "wfSession ?s"
    using preparedPeers_sound [of wire content pieceTotal "arriving (filter (mayAsk wire) (offered source))"] by (fastforce simp: wfSession_def newPeer_def)
  ultimately show ?thesis using that [of content ?s] c by (simp add: update_conv)
qed

lemma askOrder_set: "set (askOrder s piece {}) = {p \<in> snd ` set (peers s). eligible piece p}"
  by (auto simp: askOrder_def)



subsection \<open>Fetches that interleave\<close>

text \<open>
  A session is shared by every fetch of its file. A fetch picks and counts a peer in one stretch of code;
  between that and the end of the stream anything else may happen to the session.
\<close>

inductive swarmStep :: "SwarmSession \<Rightarrow> SwarmSession \<Rightarrow> bool" where
  asks: "pick s piece attempted = Some p \<Longrightarrow> swarmStep s (ask (heldBy (holder p)) s)"
| refuses: "swarmStep s (refuseAsk i s)"
| ends: "swarmStep s (streamEnd i piece bytes elapsed s)"
| errors: "swarmStep s (streamError i s)"

definition pipelined :: "string set \<Rightarrow> SwarmSession \<Rightarrow> bool" where
  "pipelined known s \<longleftrightarrow> distinct (map fst (peers s))
     \<and> (\<forall>k p. map_of (peers s) k = Some p \<longrightarrow> k \<in> known \<and> heldBy (holder p) = k \<and> 0 \<le> outstanding p \<and> outstanding p \<le> PIPELINE_DEPTH)"

lemma pipelined_entry:
  "pipelined known s \<Longrightarrow> map_of (peers s) k = Some p \<Longrightarrow>
     k \<in> known \<and> heldBy (holder p) = k \<and> 0 \<le> outstanding p \<and> outstanding p \<le> PIPELINE_DEPTH"
  unfolding pipelined_def by blast

lemma map_of_onPeer: "map_of (peers (onPeer i f s)) = (map_of (peers s))(i := map_option f (map_of (peers s) i))"
  by (rule ext) (auto simp: onPeer_def update_conv split: option.split)

lemma pipelined_onPeer:
  assumes "pipelined known s"
    and "\<And>p. map_of (peers s) i = Some p \<Longrightarrow> holder (f p) = holder p \<and> 0 \<le> outstanding (f p) \<and> outstanding (f p) \<le> PIPELINE_DEPTH"
  shows "pipelined known (onPeer i f s)"
  using assms distinct_onPeer [of s i f] by (auto simp: pipelined_def map_of_onPeer)

lemma pipelined_failed: "pipelined known s \<Longrightarrow> pipelined known (onPeer i failedPeer s)"
  by (rule pipelined_onPeer) (auto simp: failedPeer_def PIPELINE_DEPTH_def simp del: map_of_eq_Some_iff dest!: pipelined_entry)

lemma pipelined_wf: "pipelined known s \<Longrightarrow> wfSession s"
  by (rule wf_from_map) (auto simp: pipelined_def)

lemma pick_eligible: "pick s piece attempted = Some p \<Longrightarrow> p \<in> set (askOrder s piece attempted) \<and> eligible piece p"
proof -
  assume "pick s piece attempted = Some p"
  then have "p \<in> set (askOrder s piece attempted)" by (auto simp: pick_askOrder split: list.splits)
  then show ?thesis by (auto simp: askOrder_def)
qed

lemma pipelined_step: "swarmStep s t \<Longrightarrow> pipelined known s \<Longrightarrow> pipelined known t"
proof (induction rule: swarmStep.induct)
  case (asks s piece attempted p)
  have at: "map_of (peers s) (heldBy (holder p)) = Some p"
    using pick_eligible [OF asks(1)] askOrder_member [OF pipelined_wf [OF asks(2)]] by blast
  have "outstanding p < PIPELINE_DEPTH" using pick_eligible [OF asks(1)] by (simp add: eligible_def)
  moreover have "0 \<le> outstanding p" using pipelined_entry [OF asks(2) at] by blast
  moreover have "q = p" if "map_of (peers s) (heldBy (holder p)) = Some q" for q
    using at that by (simp del: map_of_eq_Some_iff)
  ultimately show ?case unfolding ask_def by (intro pipelined_onPeer [OF asks(2)]) simp
next
  case (refuses s i)
  let ?s = "onPeer i failedPeer s"
  have "pipelined known ?s" by (rule pipelined_failed [OF refuses])
  moreover from this have "pipelined known (?s\<lparr>peers := AList.delete i (peers ?s)\<rparr>)"
    by (auto simp: pipelined_def distinct_delete delete_conv split: if_splits)
  ultimately show ?case by (auto simp: refuseAsk_def Let_def split: option.split)
next
  case (ends s i piece bytes elapsed)
  let ?f = "\<lambda>p. p\<lparr>peerRate := of_int bytes / of_int (max 1 elapsed) * 1000, outstanding := max 0 (outstanding p - 1), peerFailures := 0\<rparr>"
  have "pipelined known (onPeer i ?f s)"
    by (rule pipelined_onPeer [OF ends]) (use pipelined_entry [OF ends] in \<open>fastforce simp: PIPELINE_DEPTH_def simp del: map_of_eq_Some_iff\<close>)
  then show ?case by (simp add: streamEnd_def Let_def pipelined_def)
next
  case (errors s i)
  then show ?case unfolding streamError_def by (rule pipelined_failed)
qed

lemma pipelined_steps: "swarmStep\<^sup>*\<^sup>* s t \<Longrightarrow> pipelined known s \<Longrightarrow> pipelined known t"
  by (induction rule: rtranclp_induct) (auto intro: pipelined_step)

lemma prepared_pipelined:
  assumes "prepareSwarm wire arriving source sessions = (sessions', Inr capabilities)"
    and "\<And>hs. set (arriving hs) \<subseteq> set hs"
    and "map_of sessions' (sessionKey source) = Some s"
  shows "pipelined (heldBy ` {h \<in> set (offered source). mayAsk wire h}) s"
proof -
  let ?hs = "arriving (filter (mayAsk wire) (offered source))"
  obtain content where p: "peers s = preparedPeers wire content (pieceCount s) ?hs"
    using prepared_session [OF assms(1)] assms(3) by (metis option.inject)
  have "k \<in> heldBy ` {h \<in> set (offered source). mayAsk wire h} \<and> heldBy (holder q) = k \<and> outstanding q = 0"
    if "map_of (peers s) k = Some q" for k q
  proof -
    have "(k, q) \<in> set (preparedPeers wire content (pieceCount s) ?hs)" using map_of_SomeD [OF that] by (simp only: p)
    then obtain h where "h \<in> set ?hs" "k = heldBy h" "q = newPeer wire content (pieceCount s) h"
      using preparedPeers_sound [of wire content "pieceCount s" ?hs] by blast
    moreover from this have "h \<in> set (filter (mayAsk wire) (offered source))" using assms(2) by blast
    ultimately show ?thesis by (simp add: newPeer_def)
  qed
  moreover have "distinct (map fst (peers s))" using preparedPeers_sound by (simp add: p)
  ultimately show ?thesis by (simp add: pipelined_def PIPELINE_DEPTH_def)
qed



subsection \<open>Two limits of the piece numbers\<close>

text \<open>A peer that answers that it holds nothing is asked for every piece.\<close>

lemma empty_answer_holds_everything:
  "bitfield wire h content n = Some [] \<Longrightarrow> eligible piece (newPeer wire content n h)"
  by (simp add: eligible_def newPeer_def PIPELINE_DEPTH_def)

text \<open>
  The engine passes the index of its own chunk as the index of the piece. Where the session has pieces and
  no peer has said which it holds, a chunk numbered past the last piece has nobody to be asked.
\<close>

lemma chunk_past_the_pieces_is_refused:
  assumes "0 < pieceCount s" "pieceCount s \<le> chunk"
    and "peers s = preparedPeers wire content (pieceCount s) hs" "\<And>h. bitfield wire h content (pieceCount s) = None"
  shows "pieceIndexFor s start (Some chunk) = chunk \<and> pick s chunk {} = None"
proof -
  have "\<not> eligible chunk p" if entry: "(k, p) \<in> set (peers s)" for k p
  proof -
    obtain h where "p = newPeer wire content (pieceCount s) h"
      using preparedPeers_sound [of wire content "pieceCount s" hs] entry assms(3) by fastforce
    then show ?thesis using assms(1,2,4) by (auto simp: eligible_def newPeer_def)
  qed
  then have "set (askOrder s chunk {}) = {}" using askOrder_set [of s chunk] by auto
  then show ?thesis by (simp add: pick_askOrder pieceIndexFor_def)
qed

text \<open>So it goes with the chunks of nine mebibytes and the pieces of sixteen of a file of 33 GiB.\<close>

lemma large_files_have_more_chunks_than_pieces:
  "resolveChunkSize (33 * 1024 * MIB) (Some (of_int (8 * MIB))) = 9 * MIB"
  "ceil_div (33 * 1024 * MIB) (9 * MIB) = 3755"
  "ceil_div (33 * 1024 * MIB) (pieceLengthFor (33 * 1024 * MIB)) = 2112"
  by (code_simp, code_simp, code_simp)

end
