(* ===== verification/Spec2Isabelle.thy ===== *)
theory Spec2Isabelle
  imports Chunk_Planner Verification Transfer_Worker Transfer_Engine File_Move Space Relay_Frames
    Memory_Cache Match_Graph Episode_Numbering Library_Paths Token_Bucket Peer_Relay_Properties
    Quality Media_Override Peer_Reconnect Worker_Pool Transfer_Finish Matching Placement
    Js_Sort Release_Names Release_Lists Release_Plan Swarm
begin

text \<open>
  \<^bold>\<open>Media Center Sync.\<close> A gateway that sits beside the media servers of a household and of its
  friends. It indexes what each server holds, works out which rows are the same media, and pulls
  what is missing: a transfer is cut into chunks, fetched over several connections from several
  sources, verified, repaired, and moved into a library. Gateways of friends reach each other over
  authenticated links, which a third gateway may carry. The program is a NestJS application
  (\<open>packages/api\<close>), the types it shares with its interface (\<open>packages/shared\<close>) and a Vue
  interface (\<open>packages/front\<close>). This development models the services of the gateway that decide
  something; all paths below are under \<open>packages/api/src/services\<close> unless they say otherwise.

  \<^bold>\<open>Conventions.\<close> \<open>Mcs_Prelude\<close> fixes how TypeScript is read: sizes and counters are integers
  (exact below \<open>2^53\<close>), a number from outside that may be NaN is an option, a \<open>Map\<close> that is iterated
  is an association list, a thrown error is a value, an absent field is \<open>None\<close>. A service whose
  methods interleave at their awaits is a partial step function on events, one event per stretch
  of code between two awaits, and its runs are lists of events; the locale \<open>event_run\<close> holds the
  laws of runs and is interpreted for each such service (download workers, engine, relay,
  reconnection, worker pool). \<open>Js_Regex\<close> is the part of JavaScript's strings and regular
  expressions the code uses, on characters below 256.

  \<^bold>\<open>Transfers.\<close>
  \<^item> \<open>Chunk_Planner\<close>: \<open>chunk-planner.ts\<close> and the chunk rows of
    \<open>repositories/transfer-chunk.repository.ts\<close>. The locale \<open>chunk_layout\<close> says what everybody else
    relies on (the ranges tile the file), and the planner's plans interpret it. Layout always
    returns, and a plan stored and read back after a crash is the same plan.
  \<^item> \<open>Verification\<close>: \<open>verification.service.ts\<close> and the digests of \<open>fingerprint.service.ts\<close>; the
    digest is a parameter. What a clean report means, and where a repair goes.
  \<^item> \<open>Transfer_Worker\<close>: \<open>_download\<close>, \<open>_worker\<close>, \<open>_fetchChunk\<close> and what they call in
    \<open>transfer-engine.service.ts\<close>, in every interleaving of the connections of one transfer.
  \<^item> \<open>Transfer_Engine\<close>: the queue, the pool, pauses, cancellations and the rows of the same file.
  \<^item> \<open>Transfer_Finish\<close>: the data path of \<open>_run\<close> and \<open>_finish\<close>: set-up, verification, repairs, the
    move, and what is reported. The two properties of this theory below compose all of the above.
  \<^item> \<open>File_Move\<close>: \<open>file-move.service.ts\<close> over a filesystem in which every call may fail.
  \<^item> \<open>Space\<close>: \<open>space.ts\<close> and \<open>run-ceiling.ts\<close>, what one run may write.
  \<^item> \<open>Token_Bucket\<close>: \<open>bandwidth.service.ts\<close> and the rate limiter of the engine.

  \<^bold>\<open>The catalogue.\<close>
  \<^item> \<open>Match_Graph\<close>: \<open>grouping.ts\<close>, groups as connected components of the applied matches.
  \<^item> \<open>Episode_Numbering\<close>: \<open>episode-numbering.ts\<close> and \<open>episode-coverage.ts\<close>.
  \<^item> \<open>Quality\<close>: \<open>quality.service.ts\<close>, labels, summaries and the comparison of two copies.
  \<^item> \<open>Media_Override\<close>: \<open>media-override.ts\<close> and \<open>season-folder.ts\<close>, corrections by hand.
  \<^item> \<open>Library_Paths\<close>: \<open>library-path.ts\<close>, \<open>path-containment.ts\<close> and the root mappings of
    \<open>packages/shared/src/models/service.model.ts\<close>; \<open>realpath\<close> is a parameter.
  \<^item> \<open>Memory_Cache\<close>: \<open>cache.service.ts\<close> without its Redis client; the locale \<open>cache_backend\<close> is what
    a client of either backend may rely on.
  \<^item> \<open>Titles\<close>: \<open>title-normalizer.ts\<close>, titles reduced to what two libraries agree on, years, episode
    tags, and the similarity of two titles against multisets of letter pairs.
  \<^item> \<open>Matching\<close>: \<open>matching.service.ts\<close>, the strategies that decide whether two rows are one media,
    what each rests on, and the proposals of a correlation.
  \<^item> \<open>Naming\<close>: \<open>naming.service.ts\<close>, the path a pulled file is named by and its second names.
  \<^item> \<open>Placement\<close>: \<open>placement.service.ts\<close> and \<open>placed-by.ts\<close>, the root it goes under and the free path
    in it; the filesystem is a parameter.
  \<^item> \<open>Js_Sort\<close>: the stable sort of the language with a comparator; the locale \<open>consistent_order\<close> shows that
    for a consistent comparator there is one stable sorted order, and every comparator below interprets it.
  \<^item> \<open>Release_Names\<close>, \<open>Release_Lists\<close>, \<open>Release_Plan\<close>: \<open>releases/*.ts\<close> and the search and plan of
    \<open>release.manager.ts\<close>. What a release name says, the folding of an indexer's answer into lines, the
    preferred order, the offers of connected servers, the one list, and the plan that covers what is
    missing. The answer of the indexer and the groups of a media are arguments.
  \<^item> \<open>Swarm\<close>: \<open>transport/swarm.transport.ts\<close>, several peers feeding one file: the peer set of a content
    identifier, the peer a piece is asked from, the loop of a fetch, what a refused, failed or finished
    stream does to the counters, and the steps of fetches that interleave. The peer link is an argument.

  \<^bold>\<open>Links and processes.\<close>
  \<^item> \<open>Relay_Frames\<close>: \<open>peer-relay.frames.ts\<close>, bytes and 32-bit fields at their width.
  \<^item> \<open>Peer_Relay\<close> with \<open>Peer_Relay_Order\<close>, \<open>Peer_Relay_Tables\<close> and \<open>Peer_Relay_Properties\<close>:
    \<open>peer-relay.service.ts\<close>, the model, the order of each carried stream, the tables, and the
    invariants over every interleaving.
  \<^item> \<open>Peer_Reconnect\<close>: \<open>peer-reconnect.service.ts\<close>. \<open>Worker_Pool\<close>: \<open>worker-pool.service.ts\<close>.

  \<^bold>\<open>Bounds and fuel.\<close> No model needs fuel. The loops the code could leave running for ever
  (\<open>layChunks\<close>, \<open>rootOf\<close>, \<open>takeAlone\<close>) are partial functions into \<open>option\<close> and are proved to
  return; all others are total. The number of repair passes, of attempts and of chunks is the
  code's own constant.

  \<^bold>\<open>Not modelled.\<close> What is a client of something else: the handlers of Plex, Jellyfin and Seerr, the
  download clients and indexers, the other transports (what a transport delivers is an event), Redis,
  TypeORM and its migrations, passport and sessions, notifications. What is routing and mapping of
  rows to responses: controllers, request models, most of the managers. The interface. Rates,
  log lines, timestamps and events that only report, and the sentences of reports where a
  constructor names them. JavaScript strings above code unit 255 and doubles: scores, ratios and
  token counts are rational numbers.
\<close>

subsection \<open>From the plan to the library\<close>

text \<open>
  (C1) From the plan to the library: a transfer set up fresh from sources of which one has a digest
  for every piece and none has a wrong one, downloaded in any interleaving from sources that may
  serve anything, repaired or not, ends in one of two ways. Either the file that is put in the
  library is the source file, byte for byte (or, when the move stops, it is still whole in the
  working directory and the library is untouched); or the transfer fails and the library is as it
  was. The digest must not collide on the pieces of the working file it accepted.
\<close>

theorem pulled_file_is_source:
  assumes "planChunks (Some (of_int (int (length src)))) cfg [] = Some laid" and "totalBytesOf stored ss = int (length src)"
    and "list_all (honestSource hash src laid) ss" and "list_ex (coversAll laid) ss"
    and "prepareRun now cfg stored [] ss found = Some r0"
    and "dl_run perSource es (startDownload perSource r0) = Some r"
    and "finish hash t perSource passes env req r fs = Some (r', out, fs')"
    and "\<And>bs. hash bs \<noteq> []"
    and "\<And>s e. hash (slice s e (workFile r')) = hash (slice s e src) \<Longrightarrow> slice s e (workFile r') = slice s e src"
    and "separate req" and "File_Move.resumable src (fs (partialOf req))" and "\<not> resumeStatFails env"
    and "delivers (drop (readOffset env req src (fs(source req \<mapsto> File src))) src) (script env)"
  shows "case out of
      FinishPlaced res \<Rightarrow> workFile r' = src
        \<and> (if arrived res then fs' (destination req) = Some (File src)
           else fs' (source req) = Some (File src) \<and> fs' (destination req) = fs (destination req))
    | _ \<Rightarrow> fs' (source req) = Some (File (workFile r')) \<and> fs' (destination req) = fs (destination req)"
proof -
  have "shape r = shape r0" using shape_run [OF assms(6)] by (simp add: shape_def startDownload_def)
  then have "sealed hash src r" using prepared_sealed [OF assms(1-5)] sealed_cong by blast
  then show ?thesis using finish_places [OF _ assms(7-13)] by blast
qed

definition pullDigest :: "byte list \<Rightarrow> string" where
  "pullDigest bs = (if bs = [7, 8] then ''good'' else ''bad'')"

definition pullSource :: RuntimeSource where
  "pullSource = preparedSource 0 ''s'' 1 True (Some 2) (Some [0 \<mapsto> ''good'']) (Some 262144)"

definition pullRequest :: FileMoveRequest where
  "pullRequest = placeRequest ''/work/a'' ''/lib/a'' 0"

definition pullServed :: "dl_event list" where
  "pullServed = [WorkerTurn, Respond 0 False, Transfer_Worker.Piece 1 0 [7, 9], StreamEnds 0, WorkerTurn]"

definition pullServedWell :: "dl_event list" where
  "pullServedWell = [WorkerTurn, Respond 0 False, Transfer_Worker.Piece 1 0 [7, 8], StreamEnds 0, WorkerTurn]"

definition pullRepair :: "dl_event list list list" where
  "pullRepair = [[[Respond 0 False, Transfer_Worker.Piece 2 0 [7, 8], StreamEnds 0]]]"


definition pullPlan :: ChunkPlan where
  "pullPlan = the (planChunks (Some 2) (Some 262144) [])"

lemma pullPlan_eq:
  "planChunks (Some 2) (Some 262144) [] = Some pullPlan"
  "pullPlan = \<lparr>chunkSize = 262144, chunksTotal = 1, chunks = [freshChunk 0 0 262144 2], bytesTotal = 2, bytesDone = 0, resumed = False\<rparr>"
proof -
  have n: "wholeBytes (Some 2) = 2" by (simp add: wholeBytes_def js_floor_def js_or_def)
  have s: "resolveChunkSize 2 (Some 262144) = 262144" by (simp add: resolveChunkSize_def js_floor_def js_or_def MIN_CHUNK_SIZE_def)
  have c: "chunkCount 262144 2 = 1" by (simp add: chunkCount_def ceil_div_def)
  show "planChunks (Some 2) (Some 262144) [] = Some pullPlan"
    by (simp add: pullPlan_def planChunks_fresh Let_def)
  show "pullPlan = \<lparr>chunkSize = 262144, chunksTotal = 1, chunks = [freshChunk 0 0 262144 2], bytesTotal = 2, bytesDone = 0, resumed = False\<rparr>"
    by (simp add: pullPlan_def planChunks_fresh n s c Let_def chunkAt_def)
qed


lemmas pull_eval = prepareRun_def pullPlan_eq pullSource_def preparedSource_def adoptPieceChecksums_def adoptFrom_def openWorkFile_def
  persistPlan_def freshChunk_def pullServed_def pullRepair_def demo_defs Let_def

text \<open>A single source that first serves a wrong byte; the repair fetches the piece again.\<close>

lemma pull_repaired:
  "\<exists>r0 r r' fs'. prepareRun 0 (Some 262144) 0 [] [pullSource] None = Some r0
     \<and> dl_run 4 pullServed (startDownload 4 r0) = Some r \<and> workFile r = [7, 9] \<and> downloadReturned r
     \<and> finish pullDigest ''t'' 4 pullRepair (calmEnv\<lparr>script := [File_Move.Piece [7, 8] False]\<rparr>) pullRequest r Map.empty
         = Some (r', FinishPlaced (Moved Copied 2 None), fs') \<and> workFile r' = [7, 8]"
  by (simp add: pull_eval downloadReturned_def finish_def MAX_REPAIR_PASSES_def numeral_3_eq_3 repairPass_def repairOne_def repairSource_def
      fetchOnce_def indexOf_def verifyRun_def verify_def report_def planRepair_def chooseRepairSource_def chunkMap_def js_map_of_def given_def
      hashRange_def slice_def pullDigest_def pullRequest_def placeRequest_def move_def stream_def calmEnv_def rename_def sizeOf_def content_def
      resumeOffset_def partialOf_def PARTIAL_SUFFIX_def cannotFit_def spaceVerdict_def freeBytesAt_def copy_def commit_def enumerate_eq_zip)

lemma pull_hypotheses:
  "list_all (honestSource pullDigest [7, 8] pullPlan) [pullSource]" "list_ex (coversAll pullPlan) [pullSource]"
  "totalBytesOf 0 [pullSource] = 2" "separate pullRequest"
  by (simp_all add: honestSource_def coversAll_def pullSource_def preparedSource_def pullPlan_eq freshChunk_def pieceDigest_def slice_def
      pullDigest_def pullRequest_def placeRequest_def separate_def partialOf_def PARTIAL_SUFFIX_def LINK_SUFFIX_def WITNESS_SUFFIX_def
      witnessPath_def joinPath_def dirname_def basename_def Let_def)

theorem pulled_file_is_source_witness:
  "\<exists>r0 r r' fs'. prepareRun 0 (Some 262144) 0 [] [pullSource] None = Some r0
     \<and> dl_run 4 pullServed (startDownload 4 r0) = Some r \<and> workFile r = [7, 9]
     \<and> finish pullDigest ''t'' 4 pullRepair (calmEnv\<lparr>script := [File_Move.Piece [7, 8] False]\<rparr>) pullRequest r Map.empty
         = Some (r', FinishPlaced (Moved Copied 2 None), fs')
     \<and> fs' (destination pullRequest) = Some (File [7, 8])"
proof -
  let ?env = "calmEnv\<lparr>script := [File_Move.Piece [7, 8] False]\<rparr>"
  obtain r0 r r' fs' where run: "prepareRun 0 (Some 262144) 0 [] [pullSource] None = Some r0"
    "dl_run 4 pullServed (startDownload 4 r0) = Some r" "workFile r = [7, 9]"
    "finish pullDigest ''t'' 4 pullRepair ?env pullRequest r Map.empty = Some (r', FinishPlaced (Moved Copied 2 None), fs')"
    "workFile r' = [7, 8]" using pull_repaired by blast
  have reads: "delivers (drop (readOffset ?env pullRequest [7, 8] ([source pullRequest \<mapsto> File [7, 8]])) [7, 8]) (script ?env)"
    by (simp add: pullRequest_def placeRequest_def readOffset_def resumeOffset_def partialOf_def PARTIAL_SUFFIX_def sizeOf_def content_def
        calmEnv_def)
  have "fs' (destination pullRequest) = Some (File [7, 8])"
    using pulled_file_is_source [where src = "[7, 8]" and laid = pullPlan and hash = pullDigest, OF _ _ pull_hypotheses(1,2) run(1,2,4)]
      pull_hypotheses(3,4) reads run(5)
    by (simp add: pullPlan_eq(1) pullDigest_def calmEnv_def arrived_def)
  then show ?thesis using run by blast
qed


lemma pull_served_well:
  "\<exists>r0 r. prepareRun 0 (Some 262144) 0 [] [pullSource] None = Some r0
     \<and> dl_run 4 pullServedWell (startDownload 4 r0) = Some r
     \<and> faithful [7, 8] 4 pullServedWell (startDownload 4 r0) \<and> downloadReturned r \<and> \<not> stopped r"
  by (simp add: pull_eval pullServedWell_def downloadReturned_def stopped_def fromSource_def wholeStream_def)


end
